(* ===== verification/Prelude.thy ===== *)
theory Prelude
  imports Main "HOL-Library.Word"
begin

section \<open>Shared vocabulary of the development\<close>

text \<open>
  Types, byte-order conversions and generic lemmas every component uses. An octet
  (\<open>u8\<close>) is an \<open>8 word\<close>, the wider machine integers are words of their width,
  \<open>usize\<close> values that only count octets held in memory are \<open>nat\<close>, and a slice
  (\<open>&[u8]\<close>, \<open>Vec<u8>\<close>, \<open>Bytes\<close>, \<open>BytesMut\<close>) is an \<open>octet list\<close>. A fallible operation returns
  \<open>error + value\<close>, \<open>Inl\<close> being Rust's \<open>Err\<close>.
\<close>

unbundle bit_operations_syntax

type_synonym octet = "8 word"
type_synonym u16 = "16 word"
type_synonym u32 = "32 word"
type_synonym u64 = "64 word"
type_synonym bytes = "octet list"

named_theorems lane_simps
named_theorems length_simps

text \<open>A Rust string literal as the octets it denotes; the source only uses ASCII ones.\<close>

definition ascii :: "string \<Rightarrow> bytes" where
  "ascii s = map of_char s"

lemma ascii_Nil [simp]: "ascii [] = []"
  by (simp add: ascii_def)

lemma ascii_Cons [simp]: "ascii (c # cs) = of_char c # ascii cs"
  by (simp add: ascii_def)

lemma length_ascii [simp]: "length (ascii s) = length s"
  by (simp add: ascii_def)

subsection \<open>Results\<close>

text \<open>
  Rust's \<open>?\<close>: the error of the first operation that fails is the error of the whole.
\<close>

definition res_bind :: "'e + 'a \<Rightarrow> ('a \<Rightarrow> 'e + 'b) \<Rightarrow> 'e + 'b" where
  "res_bind r f = (case r of Inl e \<Rightarrow> Inl e | Inr a \<Rightarrow> f a)"

lemma res_bind_simps [simp]:
  "res_bind (Inl e) f = Inl e"
  "res_bind (Inr a) f = f a"
  by (simp_all add: res_bind_def)

lemma res_bind_Inr_iff: "res_bind r f = Inr b \<longleftrightarrow> (\<exists>a. r = Inr a \<and> f a = Inr b)"
  by (cases r) auto

lemma res_bind_Inl_iff: "res_bind r f = Inl e \<longleftrightarrow> r = Inl e \<or> (\<exists>a. r = Inr a \<and> f a = Inl e)"
  by (cases r) auto

text \<open>\<open>Option::ok_or\<close> and \<open>Result::map_err\<close>.\<close>

definition ok_or :: "'e \<Rightarrow> 'a option \<Rightarrow> 'e + 'a" where
  "ok_or e x = (case x of None \<Rightarrow> Inl e | Some a \<Rightarrow> Inr a)"

lemma ok_or_simps [simp]: "ok_or e None = Inl e" "ok_or e (Some a) = Inr a"
  by (simp_all add: ok_or_def)

definition map_err :: "('e \<Rightarrow> 'f) \<Rightarrow> 'e + 'a \<Rightarrow> 'f + 'a" where
  "map_err f r = (case r of Inl e \<Rightarrow> Inl (f e) | Inr a \<Rightarrow> Inr a)"

lemma map_err_simps [simp]: "map_err f (Inl e) = Inl (f e)" "map_err f (Inr a) = Inr a"
  by (simp_all add: map_err_def)

lemma map_err_Inr_iff [simp]: "map_err f r = Inr a \<longleftrightarrow> r = Inr a"
  by (cases r) auto

subsection \<open>Slices\<close>

text \<open>\<open>slice.get(from..to)\<close>, which is \<open>None\<close> where the range does not fit.\<close>

definition get_range :: "'a list \<Rightarrow> nat \<Rightarrow> nat \<Rightarrow> 'a list option" where
  "get_range xs i j =
     (if i \<le> j \<and> j \<le> length xs then Some (take (j - i) (drop i xs)) else None)"

lemma get_range_prefix [simp]: "get_range (xs @ ys) 0 (length xs) = Some xs"
  by (simp add: get_range_def)

text \<open>\<open>slice.get(i)\<close>.\<close>

definition get_at :: "'a list \<Rightarrow> nat \<Rightarrow> 'a option" where
  "get_at xs i = (if i < length xs then Some (xs ! i) else None)"

text \<open>
  \<open>destination[at..at + n].copy_from_slice(source)\<close> with \<open>n\<close> the length of the source.
\<close>

definition blit :: "'a list \<Rightarrow> nat \<Rightarrow> 'a list \<Rightarrow> 'a list" where
  "blit dst at src = take at dst @ src @ drop (at + length src) dst"

lemma length_blit [length_simps]: "at + length src \<le> length dst \<Longrightarrow> length (blit dst at src) = length dst"
  by (simp add: blit_def)

lemma nth_blit:
  "at + length src \<le> length dst \<Longrightarrow> i < length dst \<Longrightarrow>
   blit dst at src ! i = (if at \<le> i \<and> i < at + length src then src ! (i - at) else dst ! i)"
  by (auto simp: blit_def nth_append min_def)

text \<open>
  \<open>chunks_exact(n)\<close>: the whole chunks of \<open>n\<close>, and the remainder it leaves.
\<close>

function chunks_exact :: "nat \<Rightarrow> 'a list \<Rightarrow> 'a list list" where
  "chunks_exact n xs =
     (if n = 0 \<or> length xs < n then [] else take n xs # chunks_exact n (drop n xs))"
  by pat_completeness auto
termination by (relation "measure (\<lambda>(n, xs). length xs)") auto

declare chunks_exact.simps [simp del]

definition chunks_remainder :: "nat \<Rightarrow> 'a list \<Rightarrow> 'a list" where
  "chunks_remainder n xs = drop (length xs - length xs mod n) xs"

lemma chunks_exact_short [simp]: "length xs < n \<Longrightarrow> chunks_exact n xs = []"
  by (simp add: chunks_exact.simps)

lemma chunks_exact_append:
  "0 < n \<Longrightarrow> length xs = n \<Longrightarrow> chunks_exact n (xs @ ys) = xs # chunks_exact n ys"
  by (subst chunks_exact.simps) simp

lemma chunks_remainder_append:
  assumes "length xs = n"
  shows "chunks_remainder n (xs @ ys) = chunks_remainder n ys"
proof -
  have "(n + length ys) mod n = length ys mod n" "length ys mod n \<le> length ys" by simp_all
  then have "length (xs @ ys) - length (xs @ ys) mod n = n + (length ys - length ys mod n)"
    unfolding length_append assms by linarith
  moreover have "drop (n + k) (xs @ ys) = drop k ys" for k using assms by simp
  ultimately show ?thesis by (simp only: chunks_remainder_def)
qed

lemma chunks_remainder_short [simp]: "length xs < n \<Longrightarrow> chunks_remainder n xs = xs"
  by (simp add: chunks_remainder_def)

lemma length_chunks_remainder [length_simps]: "length (chunks_remainder n xs) = length xs mod n"
  by (simp add: chunks_remainder_def)

lemma chunks_induct [consumes 1, case_names short chunk]:
  assumes "0 < n"
    and short: "\<And>xs. length xs < n \<Longrightarrow> P xs"
    and chunk: "\<And>ys zs. length ys = n \<Longrightarrow> P zs \<Longrightarrow> P (ys @ zs)"
  shows "P xs"
proof (induction "length xs" arbitrary: xs rule: less_induct)
  case less
  show ?case
  proof (cases "length xs < n")
    case True
    then show ?thesis by (rule short)
  next
    case False
    then have "P (drop n xs)" using less \<open>0 < n\<close> by simp
    then have "P (take n xs @ drop n xs)" using False by (intro chunk) auto
    then show ?thesis by simp
  qed
qed

lemma concat_chunks_exact:
  assumes "0 < n"
  shows "concat (chunks_exact n xs) @ chunks_remainder n xs = xs"
  using assms
proof (induction xs rule: chunks_induct)
  case (chunk ys zs)
  with assms show ?case by (simp add: chunks_exact_append chunks_remainder_append)
qed auto

lemma chunks_exact_length:
  assumes "0 < n"
  shows "\<forall>c \<in> set (chunks_exact n xs). length c = n"
  using assms
proof (induction xs rule: chunks_induct)
  case (chunk ys zs)
  have "chunks_exact n (ys @ zs) = ys # chunks_exact n zs"
    using assms chunk(1) by (rule chunks_exact_append)
  with chunk show ?case by simp
qed auto

lemma drop_append_length [simp]: "drop (length xs) (xs @ ys) = ys"
  by simp

subsection \<open>Byte order\<close>

text \<open>\<open>from_le_bytes\<close> and \<open>from_be_bytes\<close>, for any width.\<close>

fun from_le_bytes :: "bytes \<Rightarrow> 'a::len word" where
  "from_le_bytes [] = 0"
| "from_le_bytes (b # bs) = ucast b OR push_bit 8 (from_le_bytes bs)"

definition from_be_bytes :: "bytes \<Rightarrow> 'a::len word" where
  "from_be_bytes bs = from_le_bytes (rev bs)"

text \<open>\<open>to_le_bytes\<close> and \<open>to_be_bytes\<close>: the octets of a word of a whole number of octets.\<close>

definition to_le_bytes :: "'a::len word \<Rightarrow> bytes" where
  "to_le_bytes w = map (\<lambda>i. ucast (drop_bit (8 * i) w)) [0..<LENGTH('a) div 8]"

definition to_be_bytes :: "'a::len word \<Rightarrow> bytes" where
  "to_be_bytes w = rev (to_le_bytes w)"

lemma bit_from_le_bytes [lane_simps]:
  "bit (from_le_bytes bs :: 'a::len word) n \<longleftrightarrow>
     n < LENGTH('a) \<and> n div 8 < length bs \<and> bit (bs ! (n div 8)) (n mod 8)"
proof (induction bs arbitrary: n)
  case Nil
  then show ?case by simp
next
  case (Cons b bs)
  show ?case
  proof (cases "n < 8")
    case True
    then show ?thesis by (auto simp: bit_simps)
  next
    case False
    then have "n div 8 = Suc ((n - 8) div 8)" "n mod 8 = (n - 8) mod 8" by (simp_all add: le_div_geq le_mod_geq)
    moreover have "\<not> bit b n" using False bit_imp_le_length [of b n] by auto
    ultimately show ?thesis using False Cons [of "n - 8"] by (auto simp: bit_simps)
  qed
qed

lemma length_to_le_bytes [length_simps]: "length (to_le_bytes (w :: 'a::len word)) = LENGTH('a) div 8"
  by (simp add: to_le_bytes_def)

lemma length_to_be_bytes [length_simps]: "length (to_be_bytes (w :: 'a::len word)) = LENGTH('a) div 8"
  by (simp add: to_be_bytes_def length_simps)

lemma from_to_le_bytes: "8 dvd LENGTH('a) \<Longrightarrow> from_le_bytes (to_le_bytes w) = (w :: 'a::len word)"
  by (rule bit_word_eqI)
    (auto simp: lane_simps to_le_bytes_def bit_simps dvd_def less_mult_imp_div_less mult.commute)

lemma from_to_be_bytes: "8 dvd LENGTH('a) \<Longrightarrow> from_be_bytes (to_be_bytes w) = (w :: 'a::len word)"
  by (simp add: from_be_bytes_def to_be_bytes_def from_to_le_bytes)

lemma from_le_bytes_inj:
  assumes "length xs = length ys" "8 * length xs \<le> LENGTH('a::len)"
    "(from_le_bytes xs :: 'a word) = from_le_bytes ys"
  shows "xs = ys"
proof (rule nth_equalityI)
  show "length xs = length ys" by fact
  fix i assume i: "i < length xs"
  show "xs ! i = ys ! i"
  proof (rule bit_word_eqI)
    fix n assume n: "n < LENGTH(8)"
    have "bit (from_le_bytes xs :: 'a word) (8 * i + n) = bit (from_le_bytes ys :: 'a word) (8 * i + n)"
      by (simp add: assms(3))
    with i n assms(1,2) show "bit (xs ! i) n = bit (ys ! i) n" by (simp add: lane_simps)
  qed
qed

lemma from_be_bytes_inj:
  "length xs = length ys \<Longrightarrow> 8 * length xs \<le> LENGTH('a::len) \<Longrightarrow>
   (from_be_bytes xs :: 'a word) = from_be_bytes ys \<Longrightarrow> xs = ys"
  using from_le_bytes_inj [of "rev xs" "rev ys"] by (simp add: from_be_bytes_def)

lemma to_from_le_bytes:
  assumes "8 * length bs = LENGTH('a::len)"
  shows "to_le_bytes (from_le_bytes bs :: 'a word) = bs"
proof (rule from_le_bytes_inj [where 'a = 'a])
  show "length (to_le_bytes (from_le_bytes bs :: 'a word)) = length bs"
    using assms by (simp add: length_simps flip: assms)
  then show "8 * length (to_le_bytes (from_le_bytes bs :: 'a word)) \<le> LENGTH('a)"
    using assms by simp
  have "8 dvd LENGTH('a)" by (simp flip: assms)
  then show "(from_le_bytes (to_le_bytes (from_le_bytes bs :: 'a word)) :: 'a word) = from_le_bytes bs"
    by (rule from_to_le_bytes)
qed

lemma to_from_be_bytes:
  "8 * length bs = LENGTH('a::len) \<Longrightarrow> to_be_bytes (from_be_bytes bs :: 'a word) = bs"
  by (simp add: to_be_bytes_def from_be_bytes_def to_from_le_bytes)

subsection \<open>Searching\<close>

text \<open>\<open>iter().position(p)\<close>.\<close>

primrec position :: "('a \<Rightarrow> bool) \<Rightarrow> 'a list \<Rightarrow> nat option" where
  "position p [] = None"
| "position p (x # xs) = (if p x then Some 0 else map_option Suc (position p xs))"

lemma position_None_iff: "position p xs = None \<longleftrightarrow> (\<forall>x\<in>set xs. \<not> p x)"
  by (induction xs) auto

lemma position_SomeD:
  "position p xs = Some i \<Longrightarrow> i < length xs \<and> p (xs ! i) \<and> (\<forall>j<i. \<not> p (xs ! j))"
proof (induction xs arbitrary: i)
  case (Cons x xs)
  then show ?case by (auto split: if_splits simp: less_Suc_eq_0_disj nth_Cons split: nat.splits)
qed simp

lemma position_SomeI:
  "i < length xs \<Longrightarrow> p (xs ! i) \<Longrightarrow> \<forall>j<i. \<not> p (xs ! j) \<Longrightarrow> position p xs = Some i"
proof (induction xs arbitrary: i)
  case (Cons x xs)
  then show ?case by (cases i) force+
qed simp

lemma position_append:
  "position p (xs @ ys) =
     (case position p xs of Some i \<Rightarrow> Some i | None \<Rightarrow> map_option (\<lambda>i. length xs + i) (position p ys))"
  by (cases "position p ys"; induction xs) (auto split: option.splits)

text \<open>\<open>trailing_zeros\<close>.\<close>

definition trailing_zeros :: "'a::len word \<Rightarrow> nat" where
  "trailing_zeros w = length (takeWhile (\<lambda>i. \<not> bit w i) [0..<LENGTH('a)])"

lemma trailing_zeros_eqI:
  assumes "bit (w :: 'a::len word) n" "\<And>i. i < n \<Longrightarrow> \<not> bit w i"
  shows "trailing_zeros w = n"
proof -
  have n: "n < LENGTH('a)" using assms(1) by (rule bit_imp_le_length)
  have "[0..<LENGTH('a)] = [0..<n] @ n # [Suc n..<LENGTH('a)]"
    using n by (metis le_add_same_cancel1 less_imp_add_positive upt_add_eq_append upt_conv_Cons zero_le)
  then have "takeWhile (\<lambda>i. \<not> bit w i) [0..<LENGTH('a)] = [0..<n]"
    using assms by (simp add: takeWhile_append)
  then show ?thesis by (simp add: trailing_zeros_def)
qed

text \<open>A closed fact about every octet is settled by going through the 256 of them.\<close>

lemma octet_all: "list_all (\<lambda>n. P (word_of_int n)) [0..255] \<Longrightarrow> P (b :: octet)"
proof -
  assume "list_all (\<lambda>n. P (word_of_int n)) [0..255]"
  moreover have "uint b \<in> set [0..255]" using unsigned_less [of b, where 'a = int] by simp
  ultimately have "P (word_of_int (uint b))" unfolding list_all_iff by blast
  then show ?thesis by simp
qed

subsection \<open>Bit by bit\<close>

text \<open>
  Equality of words of a fixed width is settled bit by bit: the indices are spelled out, and
  \<open>bit_simps\<close> decide every bit of a term built from shifts, casts and masks.
\<close>

lemma all_less_8: "(\<forall>n<8. P n) \<longleftrightarrow> P 0 \<and> P 1 \<and> P 2 \<and> P 3 \<and> P 4 \<and> P 5 \<and> P 6 \<and> P (7 :: nat)"
  by (simp add: numeral_eq_Suc All_less_Suc conj_ac)

lemma all_less_32: "(\<forall>n<32. P n) \<longleftrightarrow>
    P 0 \<and> P 1 \<and> P 2 \<and> P 3 \<and> P 4 \<and> P 5 \<and> P 6 \<and> P (7 :: nat) \<and>
    P 8 \<and> P 9 \<and> P 10 \<and> P 11 \<and> P 12 \<and> P 13 \<and> P 14 \<and> P 15 \<and>
    P 16 \<and> P 17 \<and> P 18 \<and> P 19 \<and> P 20 \<and> P 21 \<and> P 22 \<and> P 23 \<and>
    P 24 \<and> P 25 \<and> P 26 \<and> P 27 \<and> P 28 \<and> P 29 \<and> P 30 \<and> P 31"
  by (simp add: numeral_eq_Suc All_less_Suc conj_ac)

lemma octet_eq_bits: "v = w \<longleftrightarrow> (\<forall>n<8. bit v n = bit (w :: octet) n)"
  by (auto intro!: bit_word_eqI)

lemma u32_eq_bits: "v = w \<longleftrightarrow> (\<forall>n<32. bit v n = bit (w :: u32) n)"
  by (auto intro!: bit_word_eqI)

lemmas octet_bits = octet_eq_bits all_less_8
lemmas u32_bits = u32_eq_bits all_less_32

lemma bit_octet_out [simp]: "8 \<le> n \<Longrightarrow> \<not> bit (x :: octet) n"
  using bit_imp_le_length [of x n] by auto

end
