(* ===== verification/Scan.thy ===== *)
theory Scan
  imports Prelude
begin

section \<open>Word-at-a-time scanning (src/src/helpers/scan.rs)\<close>

text \<open>
  The SWAR routines of \<open>helpers::scan\<close>, at their machine widths, and for each the
  octet-by-octet specification it is proved equal to. The lane lemmas in the middle section
  say how a word operation acts on the eight octets a word was read from: the two exact
  marks (\<open>holds_less\<close>, \<open>marks_zero\<close>) act lane by lane, while \<open>holds_zero\<close> is exact only up
  to the first zero lane, which is all \<open>scan_find\<close> reads of it.

  \<open>word_at\<close> panics where fewer than eight octets remain; every caller's loop guard keeps it
  in range, so the model leaves that case out. The \<open>debug_assert\<close> of \<open>holds_less\<close> is absent
  from release builds and is a hypothesis of the lemmas instead.
\<close>

subsection \<open>The routines\<close>

definition LANES :: nat where "LANES = 8"
definition LOW :: u64 where "LOW = 0x0101010101010101"
definition HIGH :: u64 where "HIGH = 0x8080808080808080"

definition holds_zero :: "u64 \<Rightarrow> u64" where
  "holds_zero word = (word - LOW) AND NOT word AND HIGH"

definition word_at :: "bytes \<Rightarrow> nat \<Rightarrow> u64" where
  "word_at haystack offset = from_le_bytes (take LANES (drop offset haystack))"

function find_from :: "bytes \<Rightarrow> octet \<Rightarrow> nat \<Rightarrow> nat option" where
  "find_from haystack needle offset =
     (if offset + LANES \<le> length haystack then
        (let marked = holds_zero (word_at haystack offset XOR LOW * ucast needle) in
         if marked \<noteq> 0 then Some (offset + trailing_zeros marked div 8)
         else find_from haystack needle (offset + LANES))
      else map_option (\<lambda>index. offset + index)
             (position (\<lambda>octet. octet = needle) (drop offset haystack)))"
  by pat_completeness auto
termination by (relation "measure (\<lambda>(haystack, needle, offset). length haystack - offset)")
  (auto simp: LANES_def)

declare find_from.simps [simp del]

definition scan_find :: "bytes \<Rightarrow> octet \<Rightarrow> nat option" where
  "scan_find haystack needle = find_from haystack needle 0"

text \<open>\<open>None\<close> is the panic on the slice bounds.\<close>

definition scan_copy :: "bytes \<Rightarrow> bytes \<Rightarrow> bytes option" where
  "scan_copy destination source =
     (let len = length source in
      if length destination < len then None
      else if len > 32 then Some (blit destination 0 source)
      else if len \<ge> 16 then
        Some (blit (blit destination 0 (take 16 source)) (len - 16) (drop (len - 16) source))
      else if len \<ge> 8 then
        Some (blit (blit destination 0 (take 8 source)) (len - 8) (drop (len - 8) source))
      else if len \<ge> 4 then
        Some (blit (blit destination 0 (take 4 source)) (len - 4) (drop (len - 4) source))
      else if len \<ge> 2 then
        Some (blit (blit destination 0 (take 2 source)) (len - 2) (drop (len - 2) source))
      else if len = 1 then Some (blit destination 0 source)
      else Some destination)"

text \<open>
  The closures \<open>wide\<close>, \<open>word\<close>, \<open>half\<close> and \<open>pair\<close> read 16, 8, 4 or 2 octets natively; the
  order does not matter for equality, and both supported targets are little-endian.
\<close>

definition read_ne :: "bytes \<Rightarrow> nat \<Rightarrow> 'a::len word" where
  "read_ne octets at = from_le_bytes (take (LENGTH('a) div 8) (drop at octets))"

definition scan_same :: "bytes \<Rightarrow> bytes \<Rightarrow> bool" where
  "scan_same left right =
     (let len = length left in
      if len \<noteq> length right then False
      else if len > 32 then left = right
      else if len \<ge> 16 then
        ((read_ne left 0 XOR read_ne right 0) OR
         (read_ne left (len - 16) XOR read_ne right (len - 16)) :: 128 word) = 0
      else if len \<ge> 8 then
        ((read_ne left 0 XOR read_ne right 0) OR
         (read_ne left (len - 8) XOR read_ne right (len - 8)) :: 64 word) = 0
      else if len \<ge> 4 then
        ((read_ne left 0 XOR read_ne right 0) OR
         (read_ne left (len - 4) XOR read_ne right (len - 4)) :: 32 word) = 0
      else if len \<ge> 2 then
        ((read_ne left 0 XOR read_ne right 0) OR
         (read_ne left (len - 2) XOR read_ne right (len - 2)) :: 16 word) = 0
      else len = 0 \<or> left ! 0 = right ! 0)"

definition VALUE_CONTROL :: octet where "VALUE_CONTROL = 1"
definition VALUE_OBS_TEXT :: octet where "VALUE_OBS_TEXT = 2"

definition holds_less :: "u64 \<Rightarrow> u64 \<Rightarrow> u64" where
  "holds_less word bound =
     (let lowered = (word OR HIGH) - LOW * bound in NOT lowered AND NOT word AND HIGH)"

definition marks_zero :: "u64 \<Rightarrow> u64" where
  "marks_zero word = NOT (((word AND NOT HIGH) + NOT HIGH) OR word) AND HIGH"

text \<open>The closure of \<open>classify_field_value\<close> and its loop.\<close>

definition classify_word :: "u64 \<Rightarrow> u64 \<times> u64 \<Rightarrow> u64 \<times> u64" where
  "classify_word word = (\<lambda>(control, obs_text).
     let tab = marks_zero (word XOR LOW * 9);
         del = marks_zero (word XOR LOW * 0x7f)
     in (control OR ((holds_less word 0x20 AND NOT tab) OR del), obs_text OR (word AND HIGH)))"

function classify_words :: "bytes \<Rightarrow> nat \<Rightarrow> u64 \<times> u64 \<Rightarrow> nat \<times> u64 \<times> u64" where
  "classify_words text offset marks =
     (if offset + LANES \<le> length text
      then classify_words text (offset + LANES) (classify_word (word_at text offset) marks)
      else (offset, marks))"
  by pat_completeness auto
termination by (relation "measure (\<lambda>(text, offset, marks). length text - offset)")
  (auto simp: LANES_def)

declare classify_words.simps [simp del]

definition classify_field_value :: "bytes \<Rightarrow> octet" where
  "classify_field_value text =
     (let (offset, marks) = classify_words text 0 (0, 0);
          (offset, marks) =
            (if offset < length text \<and> length text \<ge> LANES
             then (length text, classify_word (word_at text (length text - LANES)) marks)
             else (offset, marks));
          (control, obs_text) =
            fold (\<lambda>octet (control, obs_text).
                    (control \<or> (octet < 0x20 \<and> octet \<noteq> 9) \<or> octet = 0x7f,
                     obs_text \<or> octet \<ge> 0x80))
              (drop offset text) (fst marks \<noteq> 0, snd marks \<noteq> 0)
      in of_bool control OR push_bit 1 (of_bool obs_text))"

definition is_field_value :: "bytes \<Rightarrow> bool" where
  "is_field_value text = (classify_field_value text AND VALUE_CONTROL = 0)"

definition visible_word :: "u64 \<Rightarrow> u64" where
  "visible_word word = holds_less word 0x21 OR marks_zero (word XOR LOW * 0x7f)"

function visible_words :: "bytes \<Rightarrow> nat \<Rightarrow> u64 \<Rightarrow> nat \<times> u64" where
  "visible_words text offset marked =
     (if offset + LANES \<le> length text
      then visible_words text (offset + LANES) (marked OR visible_word (word_at text offset))
      else (offset, marked))"
  by pat_completeness auto
termination by (relation "measure (\<lambda>(text, offset, marked). length text - offset)")
  (auto simp: LANES_def)

declare visible_words.simps [simp del]

definition all_visible :: "bytes \<Rightarrow> bool" where
  "all_visible text =
     (let (offset, marked) = visible_words text 0 0;
          (offset, marked) =
            (if offset < length text \<and> length text \<ge> LANES
             then (length text, marked OR visible_word (word_at text (length text - LANES)))
             else (offset, marked))
      in marked = 0 \<and> (\<forall>octet \<in> set (drop offset text). octet > 0x20 \<and> octet \<noteq> 0x7f))"

text \<open>A 256-entry table is the function that looks an octet up in it.\<close>

definition all_in_class :: "bytes \<Rightarrow> (octet \<Rightarrow> octet) \<Rightarrow> octet \<Rightarrow> bool" where
  "all_in_class text table m =
     (let held = fold (\<lambda>chunk held. held AND
            (table (chunk ! 0) AND table (chunk ! 1) AND table (chunk ! 2) AND table (chunk ! 3) AND
             table (chunk ! 4) AND table (chunk ! 5) AND table (chunk ! 6) AND table (chunk ! 7)))
            (chunks_exact LANES text) m;
          held = fold (\<lambda>octet held. held AND table octet) (chunks_remainder LANES text) held
      in held AND m \<noteq> 0)"

subsection \<open>Lanes\<close>

text \<open>A word read from octets, as a number written in base 256.\<close>

primrec lanes :: "int list \<Rightarrow> int" where
  "lanes [] = 0"
| "lanes (x # xs) = x + 256 * lanes xs"

abbreviation lane_word :: "bytes \<Rightarrow> u64" where
  "lane_word bs \<equiv> from_le_bytes bs"

lemma bit_lane:
  assumes "0 \<le> x" "x < (256 :: int)"
  shows "bit (x + 256 * y) n \<longleftrightarrow> (if n < 8 then bit x n else bit y (n - 8))"
proof -
  have "take_bit 8 x = x" using assms by (simp add: take_bit_eq_mod)
  then have "x + 256 * y = concat_bit 8 x y" by (simp add: concat_bit_eq push_bit_eq_mult)
  then show ?thesis by (simp add: bit_concat_bit_iff)
qed

lemma bit_lanes:
  "\<forall>x \<in> set xs. 0 \<le> x \<and> x < 256 \<Longrightarrow>
   bit (lanes xs) n \<longleftrightarrow> n div 8 < length xs \<and> bit (xs ! (n div 8)) (n mod 8)"
proof (induction xs arbitrary: n)
  case (Cons x xs)
  show ?case
  proof (cases "n < 8")
    case True
    with Cons.prems show ?thesis by (simp add: bit_lane)
  next
    case False
    then have "n div 8 = Suc ((n - 8) div 8)" "n mod 8 = (n - 8) mod 8"
      by (simp_all add: le_div_geq le_mod_geq)
    with False Cons show ?thesis by (simp add: bit_lane)
  qed
qed simp

lemma lane_word_lanes: "length bs \<le> 8 \<Longrightarrow> lane_word bs = word_of_int (lanes (map uint bs))"
proof (rule bit_word_eqI)
  fix n assume "n < LENGTH(64)"
  have "\<forall>x \<in> set (map uint bs). 0 \<le> x \<and> x < 256"
    using uint_lt2p [where 'a = 8] by auto
  then have "bit (lanes (map uint bs)) n \<longleftrightarrow> n div 8 < length bs \<and> bit (map uint bs ! (n div 8)) (n mod 8)"
    by (simp add: bit_lanes)
  then show "bit (lane_word bs) n = bit (word_of_int (lanes (map uint bs)) :: u64) n"
    using \<open>n < LENGTH(64)\<close> by (auto simp: lane_simps bit_word_of_int_iff bit_uint_iff dest: bit_imp_le_length)
qed

lemma lanes_minus: "length xs = length ys \<Longrightarrow> lanes (map2 (-) xs ys) = lanes xs - lanes ys"
  by (induction xs ys rule: list_induct2) (simp_all add: algebra_simps)

lemma lanes_plus: "length xs = length ys \<Longrightarrow> lanes (map2 (+) xs ys) = lanes xs + lanes ys"
  by (induction xs ys rule: list_induct2) (simp_all add: algebra_simps)

text \<open>Bitwise operations act on the lanes; so do sums and differences that stay inside them.\<close>

lemma lane_word_and:
  "length xs = length ys \<Longrightarrow> lane_word xs AND lane_word ys = lane_word (map2 (AND) xs ys)"
  by (rule bit_word_eqI) (auto simp: lane_simps bit_simps)

lemma lane_word_or:
  "length xs = length ys \<Longrightarrow> lane_word xs OR lane_word ys = lane_word (map2 (OR) xs ys)"
  by (rule bit_word_eqI) (auto simp: lane_simps bit_simps)

lemma lane_word_xor:
  "length xs = length ys \<Longrightarrow> lane_word xs XOR lane_word ys = lane_word (map2 (XOR) xs ys)"
  by (rule bit_word_eqI) (auto simp: lane_simps bit_simps)

lemma lane_word_not: "length xs = 8 \<Longrightarrow> NOT (lane_word xs) = lane_word (map NOT xs)"
  by (rule bit_word_eqI) (auto simp: lane_simps bit_simps)

lemma lane_word_minus:
  assumes "length xs = length ys" "length ys \<le> 8" "\<forall>(x, y) \<in> set (zip xs ys). y \<le> x"
  shows "lane_word xs - lane_word ys = lane_word (map2 (-) xs ys)"
proof -
  have "map uint (map2 (-) xs ys) = map2 (-) (map uint xs) (map uint ys)"
    using assms(1,3) by (induction xs ys rule: list_induct2) (auto simp: word_le_def uint_sub_lem)
  with assms(1,2) show ?thesis by (simp add: lane_word_lanes lanes_minus)
qed

lemma lane_word_plus:
  assumes "length xs = length ys" "length ys \<le> 8" "\<forall>(x, y) \<in> set (zip xs ys). unat x + unat y < 256"
  shows "lane_word xs + lane_word ys = lane_word (map2 (+) xs ys)"
proof -
  have *: "uint (x + y) = uint x + uint y" if "unat x + unat y < 256" for x y :: octet
  proof -
    from that have "int (unat x + unat y) < 256" by linarith
    then have "uint x + uint y < 2 ^ LENGTH(8)" by simp
    then show ?thesis by (simp only: uint_add_lem)
  qed
  have "map uint (map2 (+) xs ys) = map2 (+) (map uint xs) (map uint ys)"
    using assms(1,3) by (induction xs ys rule: list_induct2) (auto simp: *)
  with assms(1,2) show ?thesis by (simp add: lane_word_lanes lanes_plus)
qed

lemma lane_word_eq_0_iff: "length bs \<le> 8 \<Longrightarrow> lane_word bs = 0 \<longleftrightarrow> (\<forall>b \<in> set bs. b = 0)"
proof
  assume "length bs \<le> 8" and zero: "lane_word bs = 0"
  have "from_le_bytes (replicate (length bs) 0) = (0 :: u64)"
    by (rule bit_word_eqI) (simp add: lane_simps)
  with zero have "bs = replicate (length bs) 0"
    using \<open>length bs \<le> 8\<close> by (intro from_le_bytes_inj [where 'a = 64]) simp_all
  then show "\<forall>b \<in> set bs. b = 0" by (metis in_set_replicate)
next
  assume "\<forall>b \<in> set bs. b = 0"
  then show "lane_word bs = 0" by (intro bit_word_eqI) (use nth_mem in \<open>fastforce simp: lane_simps\<close>)
qed

lemma LOW_times_lanes: "LOW * ucast c = lane_word (replicate 8 c)"
proof -
  have "lanes (replicate 8 (uint c)) = 0x0101010101010101 * uint c"
    by (simp add: numeral_eq_Suc)
  then have "lane_word (replicate 8 c) = word_of_int (0x0101010101010101 * uint c)"
    by (simp add: lane_word_lanes)
  also have "\<dots> = LOW * ucast c" unfolding LOW_def of_int_mult by simp
  finally show ?thesis ..
qed

lemma HIGH_lanes: "HIGH = lane_word (replicate 8 0x80)"
  using LOW_times_lanes [of "0x80"] by (simp add: LOW_def HIGH_def)

lemma LOW_lanes: "LOW = lane_word (replicate 8 1)"
  using LOW_times_lanes [of 1] by simp

lemma map2_replicate_right:
  "length xs = n \<Longrightarrow> map2 f xs (replicate n c) = map (\<lambda>x. f x c) xs"
  by (induction xs arbitrary: n) auto

lemma map2_replicate_left:
  "length xs = n \<Longrightarrow> map2 f (replicate n c) xs = map (\<lambda>x. f c x) xs"
  by (induction xs arbitrary: n) auto

lemma map2_map_same:
  "map2 f (map g xs) (map h xs) = map (\<lambda>x. f (g x) (h x)) xs"
  "map2 f (map g xs) xs = map (\<lambda>x. f (g x) x) xs"
  by (induction xs) auto

lemmas lane_word_ops = lane_word_and lane_word_or lane_word_xor lane_word_not
  map2_replicate_right map2_replicate_left map2_map_same

lemma octet_or_80_ge: "c \<le> 0x80 \<Longrightarrow> c \<le> b OR (0x80 :: octet)"
  using le_word_or1 [of "0x80 :: octet" b] by (rule order_trans [rotated])

lemma octet_low_sum: "unat (b AND NOT 0x80 :: octet) + unat (NOT 0x80 :: octet) < 256"
proof -
  have "unat (b AND NOT 0x80) \<le> unat (NOT 0x80 :: octet)"
    by (rule word_and_le1 [THEN word_le_nat_alt [THEN iffD1]])
  moreover have "unat (NOT 0x80 :: octet) = 127" by code_simp
  ultimately show ?thesis by linarith
qed

lemma holds_less_lanes:
  assumes "length bs = 8" "c \<le> 0x80"
  shows "holds_less (lane_word bs) (ucast c) =
           lane_word (map (\<lambda>b. NOT ((b OR 0x80) - c) AND NOT b AND 0x80) bs)"
proof -
  have "lane_word (map (\<lambda>b. b OR 0x80) bs) - lane_word (replicate 8 c) =
          lane_word (map2 (-) (map (\<lambda>b. b OR 0x80) bs) (replicate 8 c))"
    using assms by (intro lane_word_minus) (auto simp: in_set_zip octet_or_80_ge)
  with assms(1) show ?thesis
    by (simp add: holds_less_def HIGH_lanes LOW_times_lanes Let_def lane_word_ops comp_def)
qed

lemma marks_zero_lanes:
  assumes "length bs = 8"
  shows "marks_zero (lane_word bs) =
           lane_word (map (\<lambda>b. NOT (((b AND NOT 0x80) + NOT 0x80) OR b) AND 0x80) bs)"
proof -
  have "lane_word (map (\<lambda>b. b AND NOT 0x80) bs) + lane_word (replicate 8 (NOT 0x80)) =
          lane_word (map2 (+) (map (\<lambda>b. b AND NOT 0x80) bs) (replicate 8 (NOT 0x80)))"
    using assms octet_low_sum by (intro lane_word_plus) (auto simp: in_set_zip)
  with assms show ?thesis
    by (simp add: marks_zero_def HIGH_lanes lane_word_ops comp_def)
qed

subsection \<open>One word\<close>

text \<open>What the marks of one word say of its octets.\<close>

definition is_control :: "octet \<Rightarrow> bool" where
  "is_control b \<longleftrightarrow> (b < 0x20 \<and> b \<noteq> 9) \<or> b = 0x7f"

definition is_visible :: "octet \<Rightarrow> bool" where
  "is_visible b \<longleftrightarrow> b > 0x20 \<and> b \<noteq> 0x7f"

definition less_mark :: "octet \<Rightarrow> octet \<Rightarrow> octet" where
  "less_mark c b = NOT ((b OR 0x80) - c) AND NOT b AND 0x80"

definition zero_mark :: "octet \<Rightarrow> octet" where
  "zero_mark b = NOT (((b AND NOT 0x80) + NOT 0x80) OR b) AND 0x80"

lemma control_mark_iff:
  "(less_mark 0x20 b AND NOT (zero_mark (b XOR 9))) OR zero_mark (b XOR 0x7f) \<noteq> 0 \<longleftrightarrow> is_control b"
  by (rule octet_all) code_simp

lemma visible_mark_iff: "less_mark 0x21 b OR zero_mark (b XOR 0x7f) = 0 \<longleftrightarrow> is_visible b"
  by (rule octet_all) code_simp

lemma high_mark_iff: "b AND 0x80 \<noteq> 0 \<longleftrightarrow> b \<ge> (0x80 :: octet)"
  by (rule octet_all) code_simp

lemma word_at_lanes: "offset + LANES \<le> length text \<Longrightarrow>
    word_at text offset = lane_word (take 8 (drop offset text)) \<and> length (take 8 (drop offset text)) = 8"
  by (simp add: word_at_def LANES_def)

lemma classify_word_lanes:
  assumes "length bs = 8"
  shows "classify_word (lane_word bs) (control, obs_text) =
    (control OR lane_word (map (\<lambda>b. (less_mark 0x20 b AND NOT (zero_mark (b XOR 9))) OR zero_mark (b XOR 0x7f)) bs),
     obs_text OR lane_word (map (\<lambda>b. b AND 0x80) bs))"
proof -
  have tab: "marks_zero (lane_word bs XOR LOW * 9) = lane_word (map (\<lambda>b. zero_mark (b XOR 9)) bs)"
    using assms LOW_times_lanes [of 9] by (simp add: lane_word_ops marks_zero_lanes zero_mark_def comp_def)
  have del: "marks_zero (lane_word bs XOR LOW * 0x7f) = lane_word (map (\<lambda>b. zero_mark (b XOR 0x7f)) bs)"
    using assms LOW_times_lanes [of "0x7f"] by (simp add: lane_word_ops marks_zero_lanes zero_mark_def comp_def)
  have less: "holds_less (lane_word bs) 0x20 = lane_word (map (less_mark 0x20) bs)"
    using assms holds_less_lanes [of bs "0x20"] by (simp add: less_mark_def [abs_def])
  show ?thesis
    using assms by (simp add: classify_word_def tab del less HIGH_lanes lane_word_ops comp_def)
qed

lemma visible_word_lanes:
  assumes "length bs = 8"
  shows "visible_word (lane_word bs) = lane_word (map (\<lambda>b. less_mark 0x21 b OR zero_mark (b XOR 0x7f)) bs)"
proof -
  have del: "marks_zero (lane_word bs XOR LOW * 0x7f) = lane_word (map (\<lambda>b. zero_mark (b XOR 0x7f)) bs)"
    using assms LOW_times_lanes [of "0x7f"] by (simp add: lane_word_ops marks_zero_lanes zero_mark_def comp_def)
  have less: "holds_less (lane_word bs) 0x21 = lane_word (map (less_mark 0x21) bs)"
    using assms holds_less_lanes [of bs "0x21"] by (simp add: less_mark_def [abs_def])
  show ?thesis
    using assms by (simp add: visible_word_def del less lane_word_ops comp_def)
qed

lemma or_eq_0_iff: "(x OR y = (0 :: 'a::len word)) \<longleftrightarrow> x = 0 \<and> y = 0"
  by (auto simp: bit_eq_iff bit_simps)

lemma classify_word_marks:
  assumes "length bs = 8"
  shows "fst (classify_word (lane_word bs) marks) \<noteq> 0 \<longleftrightarrow> fst marks \<noteq> 0 \<or> (\<exists>b \<in> set bs. is_control b)"
    and "snd (classify_word (lane_word bs) marks) \<noteq> 0 \<longleftrightarrow> snd marks \<noteq> 0 \<or> (\<exists>b \<in> set bs. b \<ge> 0x80)"
  using assms control_mark_iff high_mark_iff
  by (cases marks; simp add: classify_word_lanes or_eq_0_iff lane_word_eq_0_iff; blast)+

lemma visible_word_marks:
  assumes "length bs = 8"
  shows "visible_word (lane_word bs) = 0 \<longleftrightarrow> (\<forall>b \<in> set bs. is_visible b)"
  using assms visible_mark_iff by (simp add: visible_word_lanes lane_word_eq_0_iff)

subsection \<open>Classification and visibility\<close>

lemma drop_take_LANES:
  "offset + LANES \<le> length octets \<Longrightarrow>
   drop offset octets = take 8 (drop offset octets) @ drop (offset + LANES) octets"
  by (metis LANES_def add.commute append_take_drop_id drop_drop)

lemma stepped_over:
  assumes "offset + LANES \<le> length octets" "offset + LANES \<le> offset'"
  shows "set (take (offset' - offset) (drop offset octets)) =
    set (take 8 (drop offset octets)) \<union> set (take (offset' - (offset + LANES)) (drop (offset + LANES) octets))"
proof -
  have "take (offset' - offset) (drop offset octets) =
          take 8 (drop offset octets) @ take (offset' - (offset + LANES)) (drop (offset + LANES) octets)"
    using assms by (subst drop_take_LANES [OF assms(1)]) (simp add: LANES_def)
  then show ?thesis by simp
qed

text \<open>
  The loop stops with fewer than eight octets left; the marks it returns account for exactly
  the octets it stepped over.
\<close>

lemma classify_words_marks:
  "offset \<le> length octets \<Longrightarrow> classify_words octets offset marks = (offset', marks') \<Longrightarrow>
   offset \<le> offset' \<and> offset' \<le> length octets \<and> length octets < offset' + LANES \<and>
   (fst marks' \<noteq> 0 \<longleftrightarrow>
      fst marks \<noteq> 0 \<or> (\<exists>b \<in> set (take (offset' - offset) (drop offset octets)). is_control b)) \<and>
   (snd marks' \<noteq> 0 \<longleftrightarrow>
      snd marks \<noteq> 0 \<or> (\<exists>b \<in> set (take (offset' - offset) (drop offset octets)). b \<ge> 0x80))"
proof (induction octets offset marks rule: classify_words.induct)
  case (1 octets offset marks)
  note unfold = classify_words.simps [of octets offset marks]
  show ?case
  proof (cases "offset + LANES \<le> length octets")
    case True
    note w = word_at_lanes [OF True]
    from "1.prems" True have step:
      "classify_words octets (offset + LANES) (classify_word (word_at octets offset) marks) = (offset', marks')"
      by (simp add: unfold)
    note IH = "1.IH" [OF True True step]
    from IH have le: "offset + LANES \<le> offset'" by blast
    show ?thesis
      using IH classify_word_marks [of "take 8 (drop offset octets)" marks] w
      by (simp add: stepped_over [OF True le]) blast
  next
    case False
    with "1.prems" show ?thesis by (auto simp: unfold)
  qed
qed

lemma visible_words_marks:
  "offset \<le> length octets \<Longrightarrow> visible_words octets offset marked = (offset', marked') \<Longrightarrow>
   offset \<le> offset' \<and> offset' \<le> length octets \<and> length octets < offset' + LANES \<and>
   (marked' = 0 \<longleftrightarrow>
      marked = 0 \<and> (\<forall>b \<in> set (take (offset' - offset) (drop offset octets)). is_visible b))"
proof (induction octets offset marked rule: visible_words.induct)
  case (1 octets offset marked)
  note unfold = visible_words.simps [of octets offset marked]
  show ?case
  proof (cases "offset + LANES \<le> length octets")
    case True
    note w = word_at_lanes [OF True]
    from "1.prems" True have step:
      "visible_words octets (offset + LANES) (marked OR visible_word (word_at octets offset)) = (offset', marked')"
      by (simp add: unfold)
    note IH = "1.IH" [OF True True step]
    from IH have le: "offset + LANES \<le> offset'" by blast
    show ?thesis
      using IH visible_word_marks [of "take 8 (drop offset octets)"] w
      by (simp add: stepped_over [OF True le] or_eq_0_iff) blast
  next
    case False
    with "1.prems" show ?thesis by (auto simp: unfold)
  qed
qed

text \<open>The overlapping last word covers what the loop left, when there is a whole word at all.\<close>

lemma tail_word:
  assumes "offset \<le> length octets" "length octets < offset + LANES" "LANES \<le> length octets"
  shows "set octets = set (take offset octets) \<union> set (take 8 (drop (length octets - LANES) octets))"
proof -
  have "take 8 (drop (length octets - LANES) octets) = drop (length octets - LANES) octets"
    using assms by (simp add: LANES_def)
  moreover have "set (drop offset octets) \<subseteq> set (drop (length octets - LANES) octets)"
    using assms by (intro set_drop_subset_set_drop) simp
  moreover have "set octets = set (take offset octets) \<union> set (drop offset octets)"
    by (metis append_take_drop_id set_append)
  ultimately show ?thesis
    using set_drop_subset [of "length octets - LANES" octets] by auto
qed

lemma classify_fold:
  "fold (\<lambda>octet (control, obs_text).
      (control \<or> (octet < 0x20 \<and> octet \<noteq> 9) \<or> octet = 0x7f, obs_text \<or> octet \<ge> 0x80)) bs (c, t) =
    (c \<or> (\<exists>b \<in> set bs. is_control b), t \<or> (\<exists>b \<in> set bs. b \<ge> (0x80 :: octet)))"
  by (induction bs arbitrary: c t) (auto simp: is_control_def)

lemma classify_field_value_spec:
  "classify_field_value octets =
     (if \<exists>b \<in> set octets. is_control b then VALUE_CONTROL else 0) OR
     (if \<exists>b \<in> set octets. b \<ge> 0x80 then VALUE_OBS_TEXT else 0)"
proof -
  obtain offset marks where loop: "classify_words octets 0 (0, 0) = (offset, marks)"
    by (cases "classify_words octets 0 (0, 0)")
  note m = classify_words_marks [OF _ loop, simplified]
  have whole: "set octets = set (take offset octets) \<union> set (drop offset octets)"
    by (metis append_take_drop_id set_append)
  show ?thesis
  proof (cases "offset < length octets \<and> LANES \<le> length octets")
    case True
    then have off: "length octets - LANES + LANES \<le> length octets" by simp
    define marks' where "marks' = classify_word (word_at octets (length octets - LANES)) marks"
    have "set octets = set (take offset octets) \<union> set (take 8 (drop (length octets - LANES) octets))"
      using m True by (intro tail_word) auto
    then have "fst marks' \<noteq> 0 \<longleftrightarrow> (\<exists>b \<in> set octets. is_control b)"
      "snd marks' \<noteq> 0 \<longleftrightarrow> (\<exists>b \<in> set octets. b \<ge> 0x80)"
      using m classify_word_marks [of "take 8 (drop (length octets - LANES) octets)" marks]
        word_at_lanes [OF off] unfolding marks'_def by auto
    with True show ?thesis
      by (simp add: classify_field_value_def loop VALUE_CONTROL_def VALUE_OBS_TEXT_def flip: marks'_def)
  next
    case False
    have c: "(\<exists>b \<in> set octets. is_control b) \<longleftrightarrow>
        fst marks \<noteq> 0 \<or> (\<exists>b \<in> set (drop offset octets). is_control b)"
      and o: "(\<exists>b \<in> set octets. b \<ge> 0x80) \<longleftrightarrow>
        snd marks \<noteq> 0 \<or> (\<exists>b \<in> set (drop offset octets). b \<ge> 0x80)"
      using m unfolding whole by blast+
    have "classify_field_value octets =
        of_bool (\<exists>b \<in> set octets. is_control b) OR push_bit 1 (of_bool (\<exists>b \<in> set octets. b \<ge> 0x80))"
      unfolding c o by (simp add: classify_field_value_def loop classify_fold if_not_P [OF False])
    then show ?thesis by (simp add: VALUE_CONTROL_def VALUE_OBS_TEXT_def)
  qed
qed

lemma is_field_value_spec: "is_field_value octets \<longleftrightarrow> (\<forall>b \<in> set octets. \<not> is_control b)"
  by (auto simp: is_field_value_def classify_field_value_spec VALUE_CONTROL_def VALUE_OBS_TEXT_def)

lemma all_visible_spec: "all_visible octets \<longleftrightarrow> (\<forall>b \<in> set octets. is_visible b)"
proof -
  obtain offset marked where loop: "visible_words octets 0 0 = (offset, marked)"
    by (cases "visible_words octets 0 0")
  note m = visible_words_marks [OF _ loop, simplified]
  have whole: "set octets = set (take offset octets) \<union> set (drop offset octets)"
    by (metis append_take_drop_id set_append)
  show ?thesis
  proof (cases "offset < length octets \<and> LANES \<le> length octets")
    case True
    then have off: "length octets - LANES + LANES \<le> length octets" by simp
    have "set octets = set (take offset octets) \<union> set (take 8 (drop (length octets - LANES) octets))"
      using m True by (intro tail_word) auto
    then have "marked OR visible_word (word_at octets (length octets - LANES)) = 0 \<longleftrightarrow>
        (\<forall>b \<in> set octets. is_visible b)"
      using m visible_word_marks [of "take 8 (drop (length octets - LANES) octets)"]
        word_at_lanes [OF off] by (auto simp: or_eq_0_iff)
    with True show ?thesis by (simp add: all_visible_def loop)
  next
    case False
    have "(\<forall>b \<in> set octets. is_visible b) \<longleftrightarrow>
        marked = 0 \<and> (\<forall>b \<in> set (drop offset octets). is_visible b)"
      using m unfolding whole by blast
    with False show ?thesis by (auto simp: all_visible_def loop is_visible_def)
  qed
qed

subsection \<open>Finding an octet\<close>

lemma bit7_iff: "0 \<le> x \<Longrightarrow> x < 256 \<Longrightarrow> bit x 7 \<longleftrightarrow> (128 :: int) \<le> x"
  by (simp add: bit_iff_odd) presburger

text \<open>
  The borrow of \<open>word - LOW\<close> only spreads upwards, so the marks are exact up to and
  including the first zero lane.
\<close>

lemma lanes_decremented:
  "\<forall>x \<in> set xs. 0 \<le> x \<and> x < 256 \<Longrightarrow> k < length xs \<Longrightarrow> \<forall>j<k. xs ! j \<noteq> 0 \<Longrightarrow>
   bit (lanes xs - lanes (replicate (length xs) 1)) (8 * k + 7) \<and> \<not> bit (xs ! k) 7 \<longleftrightarrow> xs ! k = 0"
proof (induction xs arbitrary: k)
  case (Cons x xs)
  let ?D = "lanes xs - lanes (replicate (length xs) 1)"
  have split: "lanes (x # xs) - lanes (replicate (length (x # xs)) 1) = (x - 1) + 256 * ?D" by simp
  have x: "0 \<le> x" "x < 256" using Cons.prems(1) by auto
  show ?case
  proof (cases k)
    case 0
    show ?thesis
    proof (cases "x = 0")
      case True
      have "(x - 1) + 256 * ?D = 255 + 256 * (?D - 1)" using True by simp
      then have "bit ((x - 1) + 256 * ?D) 7" by (simp only: bit_lane) (simp add: bit7_iff)
      with True 0 show ?thesis unfolding split by simp
    next
      case False
      with x have "bit ((x - 1) + 256 * ?D) 7 \<longleftrightarrow> 128 \<le> x - 1"
        by (subst bit_lane) (auto simp: bit7_iff)
      with False 0 x show ?thesis unfolding split by (simp add: bit7_iff)
    qed
  next
    case (Suc k')
    with Cons.prems(3) have "x \<noteq> 0" by auto
    with x have "bit ((x - 1) + 256 * ?D) (8 * k + 7) = bit ?D (8 * k' + 7)"
      by (subst bit_lane) (auto simp: Suc add.commute)
    moreover have "bit ?D (8 * k' + 7) \<and> \<not> bit (xs ! k') 7 \<longleftrightarrow> xs ! k' = 0"
      using Cons.prems Suc by (intro Cons.IH) auto
    ultimately show ?thesis unfolding split by (simp add: Suc)
  qed
qed simp

lemma bit_80: "bit (0x80 :: octet) k \<longleftrightarrow> k = 7"
  using bit_exp_iff [of 7 k, where 'a = octet] by (auto simp: possible_bit_def)

lemma bit_HIGH: "bit HIGH n \<longleftrightarrow> n < 64 \<and> n mod 8 = 7"
proof -
  have "n div 8 < 8" if "n < 64" using that by presburger
  then show ?thesis unfolding HIGH_lanes bit_from_le_bytes
    by (auto simp only: length_replicate nth_replicate bit_80 len_num0 len_num1 len_bit0)
qed

lemma xor_eq_0_iff: "(x XOR y = (0 :: 'a::len word)) \<longleftrightarrow> x = y"
  by (auto simp: bit_eq_iff bit_simps)

lemma holds_zero_first:
  assumes "length bs = 8" "k < 8" "\<forall>j<k. bs ! j \<noteq> 0"
  shows "bit (holds_zero (lane_word bs)) (8 * k + 7) \<longleftrightarrow> bs ! k = 0"
proof -
  let ?xs = "map uint bs"
  have "lane_word bs - LOW = word_of_int (lanes ?xs - lanes (replicate 8 1))"
    using assms(1) by (simp add: LOW_lanes lane_word_lanes)
  then have "bit (lane_word bs - LOW) (8 * k + 7) = bit (lanes ?xs - lanes (replicate (length ?xs) 1)) (8 * k + 7)"
    using assms(1,2) by (simp only: bit_word_of_int_iff) simp
  moreover have "bit (lanes ?xs - lanes (replicate (length ?xs) 1)) (8 * k + 7) \<and> \<not> bit (?xs ! k) 7 \<longleftrightarrow> ?xs ! k = 0"
    using assms uint_lt2p [where 'a = 8] by (intro lanes_decremented) (auto simp: unsigned_eq_0_iff)
  moreover have "bit (NOT (lane_word bs) AND HIGH) (8 * k + 7) = (\<not> bit (bs ! k) 7)"
    using assms(1,2) by (simp add: bit_simps lane_simps bit_HIGH)
  ultimately show ?thesis
    using assms(1,2) by (auto simp: holds_zero_def bit_and_iff bit_uint_iff unsigned_eq_0_iff)
qed

lemma holds_zero_only_high: "bit (holds_zero w) n \<Longrightarrow> n < 64 \<and> n mod 8 = 7"
  by (simp add: holds_zero_def bit_and_iff bit_HIGH)

lemma holds_zero_position:
  assumes "length bs = 8"
  shows "case position (\<lambda>b. b = 0) bs of
      None \<Rightarrow> holds_zero (lane_word bs) = 0
    | Some k \<Rightarrow> holds_zero (lane_word bs) \<noteq> 0 \<and> trailing_zeros (holds_zero (lane_word bs)) div 8 = k"
proof (cases "position (\<lambda>b. b = 0) bs")
  case None
  then have nz: "\<forall>b \<in> set bs. b \<noteq> 0" by (simp add: position_None_iff)
  have "\<not> bit (holds_zero (lane_word bs)) n" for n
  proof
    assume b: "bit (holds_zero (lane_word bs)) n"
    from holds_zero_only_high [OF b] have "n < 64" "n mod 8 = 7" by simp_all
    then have n: "n = 8 * (n div 8) + 7" "n div 8 < 8" by presburger+
    have "\<forall>j \<le> n div 8. bs ! j \<noteq> 0" using nz n(2) assms by simp
    then show False using holds_zero_first [OF assms n(2)] b n(1) by auto
  qed
  then show ?thesis using None by (simp add: bit_eq_iff)
next
  case (Some k)
  then have k: "k < 8" "bs ! k = 0" "\<forall>j<k. bs ! j \<noteq> 0" using position_SomeD [OF Some] assms by auto
  have "trailing_zeros (holds_zero (lane_word bs)) = 8 * k + 7"
  proof (rule trailing_zeros_eqI)
    show "bit (holds_zero (lane_word bs)) (8 * k + 7)" using holds_zero_first [OF assms k(1,3)] k(2) by simp
    fix n assume n: "n < 8 * k + 7"
    show "\<not> bit (holds_zero (lane_word bs)) n"
    proof
      assume b: "bit (holds_zero (lane_word bs)) n"
      from holds_zero_only_high [OF b] have "n mod 8 = 7" by simp
      then have d: "n = 8 * (n div 8) + 7" by presburger
      then have "n div 8 < k" using n by linarith
      then show False using d holds_zero_first [OF assms, of "n div 8"] b k by auto
    qed
  qed
  moreover have "holds_zero (lane_word bs) \<noteq> 0" using holds_zero_first [OF assms k(1,3)] k(2) by auto
  ultimately show ?thesis using Some by simp
qed

lemma position_map: "position p (map f xs) = position (p \<circ> f) xs"
  by (induction xs) auto

lemma find_from_spec:
  "offset \<le> length haystack \<Longrightarrow> find_from haystack needle offset =
     map_option (\<lambda>index. offset + index) (position (\<lambda>octet. octet = needle) (drop offset haystack))"
proof (induction haystack needle offset rule: find_from.induct)
  case (1 haystack needle offset)
  note unfold = find_from.simps [of haystack needle offset]
  show ?case
  proof (cases "offset + LANES \<le> length haystack")
    case False
    then show ?thesis by (simp add: unfold)
  next
    case True
    let ?bs = "take 8 (drop offset haystack)"
    let ?marked = "holds_zero (word_at haystack offset XOR LOW * ucast needle)"
    from True have len: "length ?bs = 8" by (simp add: LANES_def)
    have "word_at haystack offset XOR LOW * ucast needle = lane_word (map (\<lambda>b. b XOR needle) ?bs)"
      using len by (simp add: word_at_def LANES_def LOW_times_lanes lane_word_ops)
    moreover have "position (\<lambda>b. b = 0) (map (\<lambda>b. b XOR needle) ?bs) = position (\<lambda>octet. octet = needle) ?bs"
      by (simp add: position_map comp_def xor_eq_0_iff)
    ultimately have marks: "case position (\<lambda>octet. octet = needle) ?bs of None \<Rightarrow> ?marked = 0
        | Some k \<Rightarrow> ?marked \<noteq> 0 \<and> trailing_zeros ?marked div 8 = k"
      using holds_zero_position [of "map (\<lambda>b. b XOR needle) ?bs"] len by (simp only: length_map)
    have pos: "position (\<lambda>octet. octet = needle) (drop offset haystack) =
        (case position (\<lambda>octet. octet = needle) ?bs of Some i \<Rightarrow> Some i
         | None \<Rightarrow> map_option (\<lambda>i. 8 + i) (position (\<lambda>octet. octet = needle) (drop (offset + LANES) haystack)))"
      by (subst drop_take_LANES [OF True]) (simp only: position_append len)
    show ?thesis
    proof (cases "position (\<lambda>octet. octet = needle) ?bs")
      case (Some k)
      with marks True show ?thesis by (simp add: unfold pos Let_def)
    next
      case None
      with marks have "?marked = 0" by simp
      with True "1.IH" [OF True] None show ?thesis
        by (simp add: unfold pos Let_def option.map_comp comp_def LANES_def add.assoc)
    qed
  qed
qed

lemma scan_find_spec: "scan_find haystack needle = position (\<lambda>octet. octet = needle) haystack"
  by (simp add: scan_find_def find_from_spec option.map_ident)

subsection \<open>Copying, comparing and classifying by table\<close>

lemma blit_overlap:
  assumes "length source \<le> length destination" "m \<le> length source" "length source \<le> 2 * m"
  shows "blit (blit destination 0 (take m source)) (length source - m) (drop (length source - m) source)
           = source @ drop (length source) destination"
proof (rule nth_equalityI)
  have len: "length (blit destination 0 (take m source)) = length destination"
    using assms by (simp add: length_simps)
  then show "length (blit (blit destination 0 (take m source)) (length source - m) (drop (length source - m) source))
      = length (source @ drop (length source) destination)"
    using assms by (simp add: length_simps)
  fix i assume "i < length (blit (blit destination 0 (take m source)) (length source - m) (drop (length source - m) source))"
  then have i: "i < length destination" using len assms by (simp add: length_simps)
  show "blit (blit destination 0 (take m source)) (length source - m) (drop (length source - m) source) ! i
      = (source @ drop (length source) destination) ! i"
    using assms i len by (auto simp: nth_blit nth_append)
qed

lemma scan_copy_spec:
  "scan_copy destination source =
     (if length source \<le> length destination
      then Some (source @ drop (length source) destination) else None)"
proof (cases "length source \<le> length destination")
  case True
  note parts = blit_overlap [OF True, of 16] blit_overlap [OF True, of 8]
      blit_overlap [OF True, of 4] blit_overlap [OF True, of 2]
  consider "length source > 32" | "length source \<le> 32 \<and> length source \<ge> 2" | "length source < 2"
    by linarith
  then have "scan_copy destination source = Some (source @ drop (length source) destination)"
  proof cases
    case 1
    then show ?thesis using True by (simp add: scan_copy_def blit_def)
  next
    case 2
    then show ?thesis using True parts by (simp add: scan_copy_def Let_def)
  next
    case 3
    then show ?thesis using True by (cases source) (auto simp: scan_copy_def blit_def)
  qed
  with True show ?thesis by simp
next
  case False
  then show ?thesis by (simp add: scan_copy_def Let_def)
qed

lemma read_ne_eq_iff:
  assumes "8 dvd LENGTH('a::len)" "at + LENGTH('a) div 8 \<le> length xs" "at + LENGTH('a) div 8 \<le> length ys"
  shows "(read_ne xs at :: 'a word) = read_ne ys at \<longleftrightarrow>
    take (LENGTH('a) div 8) (drop at xs) = take (LENGTH('a) div 8) (drop at ys)"
  using assms from_le_bytes_inj
    [where 'a = 'a, of "take (LENGTH('a) div 8) (drop at xs)" "take (LENGTH('a) div 8) (drop at ys)"]
  by (auto simp: read_ne_def)

lemma overlap_eq_iff:
  assumes "length xs = length ys" "m \<le> length xs" "length xs \<le> 2 * m"
  shows "take m xs = take m ys \<and> take m (drop (length xs - m) xs) = take m (drop (length xs - m) ys) \<longleftrightarrow> xs = ys"
proof
  assume eq: "take m xs = take m ys \<and> take m (drop (length xs - m) xs) = take m (drop (length xs - m) ys)"
  show "xs = ys"
  proof (rule nth_equalityI)
    fix i assume i: "i < length xs"
    show "xs ! i = ys ! i"
    proof (cases "i < m")
      case True
      with eq show ?thesis by (metis nth_take)
    next
      case False
      then have "i = (length xs - m) + (i - (length xs - m))" "i - (length xs - m) < m"
        using i assms by auto
      with eq assms show ?thesis
        by (metis diff_le_self nth_drop nth_take)
    qed
  qed fact
qed simp

lemma overlapping_reads:
  assumes "length left = length right" "8 dvd LENGTH('a::len)"
    "LENGTH('a) div 8 \<le> length left" "length left \<le> 2 * (LENGTH('a) div 8)"
  shows "((read_ne left 0 XOR read_ne right 0) OR
      (read_ne left (length left - LENGTH('a) div 8) XOR read_ne right (length left - LENGTH('a) div 8)) :: 'a word) = 0
      \<longleftrightarrow> left = right"
  using assms overlap_eq_iff [OF assms(1,3,4)]
  by (simp add: or_eq_0_iff xor_eq_0_iff read_ne_eq_iff)

lemma scan_same_spec: "scan_same left right \<longleftrightarrow> left = right"
proof (cases "length left = length right")
  case False
  then show ?thesis by (auto simp: scan_same_def Let_def)
next
  case True
  note w = overlapping_reads [OF True, where 'a = 128] overlapping_reads [OF True, where 'a = 64]
    overlapping_reads [OF True, where 'a = 32] overlapping_reads [OF True, where 'a = 16]
  consider "length left > 32" | "length left \<le> 32 \<and> length left \<ge> 2" | "length left < 2" by linarith
  then show ?thesis
  proof cases
    case 1
    then show ?thesis using True by (simp add: scan_same_def)
  next
    case 2
    then show ?thesis using True w by (simp add: scan_same_def Let_def)
  next
    case 3
    then show ?thesis using True by (cases left; cases right) (auto simp: scan_same_def)
  qed
qed

lemma fold_and: "fold (\<lambda>x held. held AND f x) xs (m :: 'a::len word) AND y = fold (\<lambda>x held. held AND f x) xs (m AND y)"
  by (induction xs arbitrary: m) (simp_all add: ac_simps)

lemma bit_fold_and: "bit (fold (\<lambda>x held. held AND f x) xs (m :: 'a::len word)) n \<longleftrightarrow> bit m n \<and> (\<forall>x \<in> set xs. bit (f x) n)"
  by (induction xs arbitrary: m) (auto simp: bit_simps)

text \<open>For a mask of one bit, which every caller passes, the answer is the conjunction of the marks.\<close>

lemma all_in_class_spec:
  assumes "n < 8"
  shows "all_in_class octets table (2 ^ n) \<longleftrightarrow> (\<forall>b \<in> set octets. bit (table b) n)"
proof -
  let ?f = "\<lambda>chunk. table (chunk ! 0) AND table (chunk ! 1) AND table (chunk ! 2) AND table (chunk ! 3) AND
             table (chunk ! 4) AND table (chunk ! 5) AND table (chunk ! 6) AND table (chunk ! 7)"
  let ?held = "fold (\<lambda>octet held. held AND table octet) (chunks_remainder LANES octets)
      (fold (\<lambda>chunk held. held AND ?f chunk) (chunks_exact LANES octets) (2 ^ n))"
  have chunk: "bit (?f c) n \<longleftrightarrow> (\<forall>b \<in> set c. bit (table b) n)" if "length c = 8" for c
  proof -
    have "(\<forall>b \<in> set c. bit (table b) n) \<longleftrightarrow> (\<forall>i \<in> set [0..<8]. bit (table (c ! i)) n)"
      using that by (auto simp: set_conv_nth)
    then show ?thesis by (simp add: bit_and_iff upt_rec numeral_eq_Suc)
  qed
  have held: "bit ?held k \<longleftrightarrow> bit (2 ^ n :: octet) k \<and>
      (\<forall>c \<in> set (chunks_exact LANES octets). bit (?f c) k) \<and>
      (\<forall>b \<in> set (chunks_remainder LANES octets). bit (table b) k)" for k
    by (simp only: bit_fold_and) blast
  have "set octets = set (concat (chunks_exact LANES octets) @ chunks_remainder LANES octets)"
    by (simp add: concat_chunks_exact LANES_def)
  then have "(\<forall>b \<in> set octets. bit (table b) n) \<longleftrightarrow>
      (\<forall>c \<in> set (chunks_exact LANES octets). bit (?f c) n) \<and>
      (\<forall>b \<in> set (chunks_remainder LANES octets). bit (table b) n)"
    using chunks_exact_length [of LANES octets] chunk by (auto simp: LANES_def)
  moreover have "?held AND 2 ^ n \<noteq> 0 \<longleftrightarrow> bit ?held n"
    by (simp only: and_exp_eq_0_iff_not_bit not_not)
  moreover have "bit (2 ^ n :: octet) n" using assms by (simp add: bit_exp_iff possible_bit_def)
  ultimately show ?thesis unfolding all_in_class_def Let_def using held by blast
qed

subsection \<open>Properties\<close>

text \<open>The word-at-a-time search answers the first position of the needle, and \<open>None\<close> where
  it does not occur, for a haystack of any length.\<close>

lemma find_first: "scan_find haystack needle = position (\<lambda>octet. octet = needle) haystack"
  by (rule scan_find_spec)

text \<open>The copy writes the whole source over the front of the destination and nothing else, and
  panics exactly where the destination is the shorter one.\<close>

lemma copy_exact:
  "scan_copy destination source =
     (if length source \<le> length destination
      then Some (source @ drop (length source) destination) else None)"
  by (rule scan_copy_spec)

text \<open>The comparison by overlapping words decides equality of slices.\<close>

lemma same_equal: "scan_same left right \<longleftrightarrow> left = right"
  by (rule scan_same_spec)

text \<open>The classification of a field value sets \<open>VALUE_CONTROL\<close> exactly where some octet is a
  control character other than a tab, \<open>VALUE_OBS_TEXT\<close> exactly where some octet is above ASCII,
  and \<open>is_field_value\<close> accepts exactly the values with no such control character.\<close>

lemma field_value_classes:
  "classify_field_value octets =
     (if \<exists>b \<in> set octets. is_control b then VALUE_CONTROL else 0) OR
     (if \<exists>b \<in> set octets. b \<ge> 0x80 then VALUE_OBS_TEXT else 0) \<and>
   is_field_value octets = (\<not> (\<exists>b \<in> set octets. is_control b))"
  by (simp add: classify_field_value_spec is_field_value_spec)

text \<open>\<open>all_visible\<close> holds exactly where every octet is above the space and not \<open>DEL\<close>.\<close>

lemma visible_exact: "all_visible octets = (\<not> (\<exists>b \<in> set octets. \<not> is_visible b))"
  by (simp add: all_visible_spec)

text \<open>The table scan with a one-bit mask holds exactly where the table sets that bit for every
  octet, however the octets fall into words.\<close>

lemma in_class_exact:
  "n < 8 \<Longrightarrow> all_in_class octets table (2 ^ n) = (\<not> (\<exists>b \<in> set octets. \<not> bit (table b) n))"
  by (simp add: all_in_class_spec)

lemma in_class_exact_witness: "all_in_class (ascii ''abc'') (\<lambda>b. b) (2 ^ 5) = True"
  by (subst in_class_exact) (simp_all add: bit_simps)

end
