(* ===== verification/Codec.thy ===== *)
theory Codec
  imports Prelude
begin

section \<open>The interfaces of the codecs\<close>

text \<open>
  Two contracts the wire formats share. \<open>octet_codec\<close> is a codec of whole strings whose decoder
  accepts exactly the encodings (base64, Huffman). \<open>prefix_codec\<close> is a codec whose decoder reads
  one value off the front of its input and says how many octets it took (integers, string
  literals, frames); \<open>'p\<close> is what both ends know beforehand, such as the width of a prefix.
  Each is interpreted on the model's definitions in the theory that provides them.
\<close>

text \<open>\<open>Result::ok\<close>.\<close>

definition ok_of :: "'e + 'a \<Rightarrow> 'a option" where
  "ok_of r = (case r of Inl e \<Rightarrow> None | Inr a \<Rightarrow> Some a)"

lemma ok_of_simps [simp]: "ok_of (Inl e) = None" "ok_of (Inr a) = Some a"
  by (simp_all add: ok_of_def)

lemma ok_of_Some_iff [simp]: "ok_of r = Some a \<longleftrightarrow> r = Inr a"
  by (cases r) simp_all

locale octet_codec =
  fixes enc :: "'a \<Rightarrow> bytes"
    and dec :: "bytes \<Rightarrow> 'a option"
  assumes dec_enc: "dec (enc x) = Some x"
    and enc_dec: "dec s = Some x \<Longrightarrow> enc x = s"
begin

lemma dec_iff: "dec s = Some x \<longleftrightarrow> s = enc x"
  using dec_enc enc_dec by blast

lemma enc_inj: "enc x = enc y \<longleftrightarrow> x = y"
  by (metis dec_enc option.inject)

lemma dec_inj: "dec s = Some x \<Longrightarrow> dec t = Some x \<Longrightarrow> s = t"
  by (simp add: dec_iff)

end

locale prefix_codec =
  fixes wf :: "'p \<Rightarrow> 'a \<Rightarrow> bool"
    and enc :: "'p \<Rightarrow> 'a \<Rightarrow> bytes"
    and dec :: "'p \<Rightarrow> bytes \<Rightarrow> (nat \<times> 'a) option"
  assumes dec_enc: "wf p x \<Longrightarrow> dec p (enc p x @ rest) = Some (length (enc p x), x)"
    and enc_nonempty: "wf p x \<Longrightarrow> enc p x \<noteq> []"
begin

lemma enc_prefix:
  assumes "wf p x" "wf p y" "enc p x @ r = enc p y @ s"
  shows "x = y \<and> r = s"
proof -
  have "Some (length (enc p x), x) = Some (length (enc p y), y)"
    using dec_enc [OF assms(1), of r] dec_enc [OF assms(2), of s] assms(3) by simp
  with assms(3) show ?thesis by simp
qed

lemma enc_inj: "wf p x \<Longrightarrow> wf p y \<Longrightarrow> enc p x = enc p y \<longleftrightarrow> x = y"
  by (metis enc_prefix)

text \<open>A stream of values has one reading.\<close>

lemma concat_inj:
  assumes "\<forall>x\<in>set xs. wf p x" "\<forall>y\<in>set ys. wf p y" "concat (map (enc p) xs) = concat (map (enc p) ys)"
  shows "xs = ys"
  using assms
proof (induction xs arbitrary: ys)
  case Nil
  then show ?case by (cases ys) (simp_all add: enc_nonempty)
next
  case (Cons x xs)
  have "enc p x \<noteq> []" by (rule enc_nonempty) (simp add: Cons.prems(1))
  then have "ys \<noteq> []" using Cons.prems(3) by (cases ys) simp_all
  then obtain y zs where ys: "ys = y # zs" by (cases ys) simp_all
  have "x = y \<and> concat (map (enc p) xs) = concat (map (enc p) zs)"
  proof (rule enc_prefix)
    show "wf p x" using Cons.prems(1) by simp
    show "wf p y" using Cons.prems(2) ys by simp
    show "enc p x @ concat (map (enc p) xs) = enc p y @ concat (map (enc p) zs)" using Cons.prems(3) ys by simp
  qed
  then show ?case using Cons.IH [of zs] Cons.prems(1,2) ys by simp
qed

end

end
