(* ===== verification/Base64.thy ===== *)
theory Base64
  imports Codec
begin

section \<open>Strict base64 (src/src/helpers/base64.rs)\<close>

text \<open>
  \<open>helpers::base64\<close>: the alphabet, the reverse table built by the \<open>const\<close> block, the
  encoder over groups of three octets and the strict decoder with its error cases. The main
  lemmas: decoding an encoding gives the octets back, and what decodes at all is exactly the
  encoding of what it decodes to, so that a \<open>Sec-WebSocket-Key\<close> has one spelling.
\<close>

subsection \<open>The codec\<close>

definition ALPHABET :: bytes where
  "ALPHABET = ascii ''ABCDEFGHIJKLMNOPQRSTUVWXYZabcdefghijklmnopqrstuvwxyz0123456789+/''"

definition PAD :: octet where "PAD = 0x3d"

datatype b64_error = InvalidLength nat | InvalidSymbol octet | InvalidPadding

definition INVALID :: octet where "INVALID = 0xff"

definition VALUES :: "octet \<Rightarrow> octet" where
  "VALUES = fold (\<lambda>index values. values(ALPHABET ! index := word_of_nat index)) [0..<64] (\<lambda>_. INVALID)"

definition b64_symbol :: "octet \<Rightarrow> octet" where
  "b64_symbol v = ALPHABET ! unat (v AND 0x3f)"

definition symbol_value :: "octet \<Rightarrow> octet option" where
  "symbol_value s = (if VALUES s = INVALID then None else Some (VALUES s))"

definition b64_encoded_len :: "bytes \<Rightarrow> nat" where
  "b64_encoded_len input = (length input + 2) div 3 * 4"

text \<open>One whole grp of three octets, and the one or two octets left at the end.\<close>

definition encode_group :: "bytes \<Rightarrow> bytes" where
  "encode_group grp =
     (let packed = push_bit 16 (ucast (grp ! 0)) OR push_bit 8 (ucast (grp ! 1)) OR ucast (grp ! 2) :: u32
      in [b64_symbol (ucast (drop_bit 18 packed)), b64_symbol (ucast (drop_bit 12 packed)),
          b64_symbol (ucast (drop_bit 6 packed)), b64_symbol (ucast packed)])"

definition encode_rest :: "bytes \<Rightarrow> bytes" where
  "encode_rest rest =
     (if rest = [] then []
      else let packed = push_bit 16 (ucast (rest ! 0)) OR
                        push_bit 8 (ucast (case get_at rest 1 of None \<Rightarrow> 0 | Some b \<Rightarrow> b)) :: u32
        in [b64_symbol (ucast (drop_bit 18 packed)), b64_symbol (ucast (drop_bit 12 packed)),
            if length rest > 1 then b64_symbol (ucast (drop_bit 6 packed)) else PAD, PAD])"

definition b64_encode :: "bytes \<Rightarrow> bytes" where
  "b64_encode input =
     concat (map encode_group (chunks_exact 3 input)) @ encode_rest (chunks_remainder 3 input)"

fun sextets_from :: "u32 \<Rightarrow> bytes \<Rightarrow> b64_error + u32" where
  "sextets_from packed [] = Inr packed"
| "sextets_from packed (s # grp) =
     (if VALUES s = INVALID then Inl (InvalidSymbol s)
      else sextets_from (push_bit 6 packed OR ucast (VALUES s)) grp)"

definition sextets :: "bytes \<Rightarrow> b64_error + u32" where
  "sextets grp = sextets_from 0 grp"

definition decode_group :: "bytes \<Rightarrow> b64_error + bytes" where
  "decode_group grp =
     (case sextets grp of
        Inr packed \<Rightarrow> Inr [ucast (drop_bit 16 packed), ucast (drop_bit 8 packed), ucast packed]
      | Inl e \<Rightarrow> Inl (if PAD \<in> set grp then InvalidPadding else e))"

fun decode_groups :: "bytes list \<Rightarrow> b64_error + bytes" where
  "decode_groups [] = Inr []"
| "decode_groups (grp # groups) =
     res_bind (decode_group grp) (\<lambda>out. res_bind (decode_groups groups) (\<lambda>rest. Inr (out @ rest)))"

definition decode_last :: "bytes \<Rightarrow> b64_error + bytes" where
  "decode_last last4 =
     (let padding = length (filter (\<lambda>s. s = PAD) last4) in
      if padding > 2 \<or> PAD \<in> set (take (4 - padding) last4) then Inl InvalidPadding
      else res_bind (sextets (take (4 - padding) last4)) (\<lambda>packed.
        let packed = push_bit (6 * padding) packed in
        if packed AND (push_bit (8 * padding) 1 - 1) \<noteq> 0 then Inl InvalidPadding
        else Inr ([ucast (drop_bit 16 packed)] @
                  (if padding < 2 then [ucast (drop_bit 8 packed)] else []) @
                  (if padding < 1 then [ucast packed] else []))))"

definition b64_decode :: "bytes \<Rightarrow> b64_error + bytes" where
  "b64_decode input =
     (if length input mod 4 \<noteq> 0 then Inl (InvalidLength (length input))
      else if input = [] then Inr []
      else res_bind (decode_groups (chunks_exact 4 (take (length input - 4) input))) (\<lambda>out.
             res_bind (decode_last (drop (length input - 4) input)) (\<lambda>tail. Inr (out @ tail))))"

subsection \<open>The tables are inverse to each other\<close>

lemma length_ALPHABET: "length ALPHABET = 64"
  by (simp add: ALPHABET_def)

lemma distinct_ALPHABET: "distinct ALPHABET"
  by code_simp

lemma PAD_ALPHABET: "PAD \<notin> set ALPHABET"
  by code_simp

lemma fold_upd:
  "distinct xs \<Longrightarrow> n \<le> length xs \<Longrightarrow>
   fold (\<lambda>i f. f(xs ! i := g i)) [0..<n] z s =
     (if s \<in> set (take n xs) then g (the (position (\<lambda>x. x = s) xs)) else z s)"
proof (induction n)
  case (Suc n)
  then have n: "n < length xs" by simp
  have pos: "position (\<lambda>x. x = xs ! n) xs = Some n"
    using n Suc.prems(1) by (intro position_SomeI) (auto simp: nth_eq_iff_index_eq)
  show ?case
    using Suc n pos by (auto simp: take_Suc_conv_app_nth)
qed simp

lemma VALUES_eq: "VALUES s = (if s \<in> set ALPHABET then word_of_nat (the (position (\<lambda>x. x = s) ALPHABET)) else INVALID)"
  by (simp add: VALUES_def fold_upd distinct_ALPHABET length_ALPHABET)

lemma VALUES_nth:
  assumes "i < 64"
  shows "VALUES (ALPHABET ! i) = word_of_nat i"
proof -
  have "position (\<lambda>x. x = ALPHABET ! i) ALPHABET = Some i"
    using assms distinct_ALPHABET length_ALPHABET
    by (intro position_SomeI) (auto simp: nth_eq_iff_index_eq)
  then show ?thesis using assms length_ALPHABET by (simp add: VALUES_eq)
qed

lemma sextet_less: "unat (v AND 0x3f :: octet) < 64"
proof -
  have "unat (v AND 0x3f) \<le> unat (0x3f :: octet)"
    by (rule word_and_le1 [THEN word_le_nat_alt [THEN iffD1]])
  then show ?thesis by simp
qed

lemma VALUES_symbol: "VALUES (b64_symbol v) = v AND 0x3f"
  by (simp add: b64_symbol_def VALUES_nth sextet_less)

lemma and_3f: "(v AND 0x3f :: 'a::len word) = take_bit 6 v"
  by (simp add: take_bit_eq_mask mask_eq_exp_minus_1)

lemma symbol_VALUES:
  assumes "VALUES s \<noteq> INVALID"
  shows "b64_symbol (VALUES s) = s" "take_bit 6 (VALUES s) = VALUES s"
proof -
  have "s \<in> set ALPHABET" using assms by (auto simp: VALUES_eq split: if_splits)
  then obtain i where i: "i < 64" "s = ALPHABET ! i" by (auto simp: in_set_conv_nth length_ALPHABET)
  have "unat (word_of_nat i :: octet) = i" using i(1) by (simp add: unat_of_nat)
  moreover have "take_bit 6 (word_of_nat i :: octet) = word_of_nat i"
    using i(1) by (simp only: take_bit_of_nat) (simp add: take_bit_nat_eq_self)
  ultimately show "b64_symbol (VALUES s) = s" "take_bit 6 (VALUES s) = VALUES s"
    using i by (simp_all add: VALUES_nth b64_symbol_def and_3f)
qed

lemma VALUES_PAD: "VALUES PAD = INVALID"
  using PAD_ALPHABET by (simp add: VALUES_eq)

lemma symbol_valid: "VALUES (b64_symbol v) \<noteq> INVALID"
  unfolding VALUES_symbol using sextet_less [of v] by (auto simp: INVALID_def)

lemma symbol_not_PAD: "b64_symbol v \<noteq> PAD"
  using symbol_valid [of v] VALUES_PAD by auto

lemma symbol_take: "b64_symbol (take_bit 6 v) = b64_symbol v"
  by (simp add: b64_symbol_def and_3f)

subsection \<open>One group\<close>

lemma VALUES_symbol_take: "VALUES (b64_symbol v) = take_bit 6 v" "take_bit 6 v \<noteq> INVALID"
  using VALUES_symbol [of v] symbol_valid [of v] by (simp_all add: and_3f)

lemma sextets_symbols:
  "sextets [b64_symbol a, b64_symbol b] =
     Inr (push_bit 6 (ucast (take_bit 6 a)) OR ucast (take_bit 6 b))"
  "sextets [b64_symbol a, b64_symbol b, b64_symbol c] =
     Inr (push_bit 6 (push_bit 6 (ucast (take_bit 6 a)) OR ucast (take_bit 6 b)) OR ucast (take_bit 6 c))"
  "sextets [b64_symbol a, b64_symbol b, b64_symbol c, b64_symbol d] =
     Inr (push_bit 6 (push_bit 6 (push_bit 6 (ucast (take_bit 6 a)) OR ucast (take_bit 6 b)) OR
       ucast (take_bit 6 c)) OR ucast (take_bit 6 d))"
  by (simp_all add: sextets_def VALUES_symbol_take)

lemma encode_rest_simps:
  "encode_rest [] = []"
  "encode_rest [x] = [b64_symbol (drop_bit 2 x), b64_symbol (push_bit 4 x), PAD, PAD]"
  "encode_rest [x, y] = [b64_symbol (drop_bit 2 x), b64_symbol (push_bit 4 x OR drop_bit 4 y),
     b64_symbol (push_bit 2 y), PAD]"
proof -
  have "ucast (drop_bit 18 (push_bit 16 (ucast x) :: u32)) = drop_bit 2 x"
    "ucast (drop_bit 12 (push_bit 16 (ucast x) :: u32)) = push_bit 4 x"
    "ucast (drop_bit 18 (push_bit 16 (ucast x) OR push_bit 8 (ucast y) :: u32)) = drop_bit 2 x"
    "ucast (drop_bit 12 (push_bit 16 (ucast x) OR push_bit 8 (ucast y) :: u32)) = push_bit 4 x OR drop_bit 4 y"
    "ucast (drop_bit 6 (push_bit 16 (ucast x) OR push_bit 8 (ucast y) :: u32)) = push_bit 2 y"
    by (simp_all add: octet_bits bit_simps)
  then show "encode_rest [] = []"
    "encode_rest [x] = [b64_symbol (drop_bit 2 x), b64_symbol (push_bit 4 x), PAD, PAD]"
    "encode_rest [x, y] = [b64_symbol (drop_bit 2 x), b64_symbol (push_bit 4 x OR drop_bit 4 y),
       b64_symbol (push_bit 2 y), PAD]"
    by (simp_all add: encode_rest_def get_at_def Let_def)
qed

lemma encode_group_simps:
  "encode_group [x, y, z] = [b64_symbol (drop_bit 2 x), b64_symbol (push_bit 4 x OR drop_bit 4 y),
     b64_symbol (push_bit 2 y OR drop_bit 6 z), b64_symbol z]"
proof -
  let ?p = "push_bit 16 (ucast x) OR push_bit 8 (ucast y) OR ucast z :: u32"
  have "ucast (drop_bit 18 ?p) = drop_bit 2 x" "ucast (drop_bit 12 ?p) = push_bit 4 x OR drop_bit 4 y"
    "ucast (drop_bit 6 ?p) = push_bit 2 y OR drop_bit 6 z" "ucast ?p = z"
    by (simp_all add: octet_bits bit_simps)
  then show ?thesis by (simp add: encode_group_def Let_def)
qed

text \<open>
  Four sextets hold three octets; what the shifts of the decoder read out of the packed word,
  without the packing.
\<close>

lemma quad_octets:
  "ucast (drop_bit 16 (push_bit 6 (push_bit 6 (push_bit 6 (ucast (take_bit 6 a)) OR ucast (take_bit 6 b)) OR
     ucast (take_bit 6 c)) OR ucast (take_bit 6 d) :: u32)) = (push_bit 2 a OR drop_bit 4 (take_bit 6 b) :: octet)"
  "ucast (drop_bit 8 (push_bit 6 (push_bit 6 (push_bit 6 (ucast (take_bit 6 a)) OR ucast (take_bit 6 b)) OR
     ucast (take_bit 6 c)) OR ucast (take_bit 6 d) :: u32)) = (push_bit 4 b OR drop_bit 2 (take_bit 6 c) :: octet)"
  "ucast (push_bit 6 (push_bit 6 (push_bit 6 (ucast (take_bit 6 a)) OR ucast (take_bit 6 b)) OR
     ucast (take_bit 6 c)) OR ucast (take_bit 6 d) :: u32) = (push_bit 6 c OR take_bit 6 d :: octet)"
  for a b c d :: octet
  by (simp_all add: octet_bits bit_simps flip: numeral_2_eq_2)

lemmas quad_octets_flat = quad_octets [simplified]
  quad_octets [where d = 0, simplified] quad_octets [where d = 0 and c = 0, simplified]

lemma nonzero_bits:
  "push_bit 6 (push_bit 6 (push_bit 6 (ucast (take_bit 6 a)) OR ucast (take_bit 6 b)) OR
     ucast (take_bit 6 c)) AND 0xff = (0 :: u32) \<longleftrightarrow> take_bit 2 c = 0"
  "push_bit 12 (push_bit 6 (ucast (take_bit 6 a)) OR ucast (take_bit 6 b)) AND 0xffff = (0 :: u32) \<longleftrightarrow> take_bit 4 b = 0"
  for a b c :: octet
proof -
  have masks: "(w AND 0xff :: u32) = take_bit 8 w" "(w AND 0xffff :: u32) = take_bit 16 w" for w
    by (simp_all add: take_bit_eq_mask mask_eq_exp_minus_1)
  have "take_bit 8 (push_bit 6 (push_bit 6 (push_bit 6 (ucast (take_bit 6 a)) OR ucast (take_bit 6 b)) OR
      ucast (take_bit 6 c)) :: u32) = push_bit 6 (ucast (take_bit 2 c))"
    by (simp add: u32_bits bit_simps flip: numeral_2_eq_2)
  moreover have "take_bit 16 (push_bit 12 (push_bit 6 (ucast (take_bit 6 a)) OR ucast (take_bit 6 b)) :: u32) =
      push_bit 12 (ucast (take_bit 4 b))"
    by (simp add: u32_bits bit_simps flip: numeral_2_eq_2)
  moreover have "push_bit 6 (ucast (take_bit 2 c)) = (0 :: u32) \<longleftrightarrow> take_bit 2 c = 0"
    by (simp add: u32_bits octet_bits bit_simps flip: numeral_2_eq_2)
  moreover have "push_bit 12 (ucast (take_bit 4 b)) = (0 :: u32) \<longleftrightarrow> take_bit 4 b = 0"
    by (simp add: u32_bits octet_bits bit_simps flip: numeral_2_eq_2)
  ultimately show
    "push_bit 6 (push_bit 6 (push_bit 6 (ucast (take_bit 6 a)) OR ucast (take_bit 6 b)) OR
       ucast (take_bit 6 c)) AND 0xff = (0 :: u32) \<longleftrightarrow> take_bit 2 c = 0"
    "push_bit 12 (push_bit 6 (ucast (take_bit 6 a)) OR ucast (take_bit 6 b)) AND 0xffff = (0 :: u32) \<longleftrightarrow> take_bit 4 b = 0"
    by (simp_all only: masks)
qed

lemmas nonzero_bits_flat = nonzero_bits [simplified]

lemma decode_group_symbols:
  "decode_group [b64_symbol a, b64_symbol b, b64_symbol c, b64_symbol d] =
     Inr [push_bit 2 a OR drop_bit 4 (take_bit 6 b), push_bit 4 b OR drop_bit 2 (take_bit 6 c),
          push_bit 6 c OR take_bit 6 d]"
  by (simp add: decode_group_def sextets_symbols quad_octets_flat)

lemma decode_last_symbols:
  "decode_last [b64_symbol a, b64_symbol b, b64_symbol c, b64_symbol d] =
     Inr [push_bit 2 a OR drop_bit 4 (take_bit 6 b), push_bit 4 b OR drop_bit 2 (take_bit 6 c),
          push_bit 6 c OR take_bit 6 d]"
  "decode_last [b64_symbol a, b64_symbol b, b64_symbol c, PAD] =
     (if take_bit 2 c \<noteq> 0 then Inl InvalidPadding
      else Inr [push_bit 2 a OR drop_bit 4 (take_bit 6 b), push_bit 4 b OR drop_bit 2 (take_bit 6 c)])"
  "decode_last [b64_symbol a, b64_symbol b, PAD, PAD] =
     (if take_bit 4 b \<noteq> 0 then Inl InvalidPadding else Inr [push_bit 2 a OR drop_bit 4 (take_bit 6 b)])"
  by (simp_all add: decode_last_def symbol_not_PAD symbol_not_PAD [symmetric] sextets_symbols
      quad_octets_flat nonzero_bits_flat Let_def)

subsection \<open>Groups decode to what they encode\<close>

lemma decode_encode_group: "decode_group (encode_group [x, y, z]) = Inr [x, y, z]"
  and decode_last_group: "decode_last (encode_group [x, y, z]) = Inr [x, y, z]"
  unfolding encode_group_simps decode_group_symbols decode_last_symbols
  by (simp_all add: octet_bits bit_simps flip: numeral_2_eq_2)

lemma decode_last_rest:
  "decode_last (encode_rest [x]) = Inr [x]"
  "decode_last (encode_rest [x, y]) = Inr [x, y]"
  unfolding encode_rest_simps decode_last_symbols
  by (simp_all add: octet_bits bit_simps flip: numeral_2_eq_2)

lemma four_octets: "length xs = 4 \<Longrightarrow> \<exists>a b c d. xs = [a, b, c, d]"
  by (auto simp: length_Suc_conv eval_nat_numeral)

lemma sextets_InrD: "sextets_from p xs = Inr q \<Longrightarrow> \<forall>x \<in> set xs. VALUES x \<noteq> INVALID"
  by (induction p xs rule: sextets_from.induct) (auto split: if_splits)

lemma valid_symbol: "VALUES s \<noteq> INVALID \<Longrightarrow> \<exists>v. s = b64_symbol v \<and> take_bit 6 v = v"
  using symbol_VALUES by metis

lemma symbol_cong: "take_bit 6 u = take_bit 6 v \<Longrightarrow> b64_symbol u = b64_symbol v"
  by (metis symbol_take)

text \<open>The octets a group stands for spell the same sextets again.\<close>

lemma respelled:
  "b64_symbol (drop_bit 2 (push_bit 2 a OR drop_bit 4 (take_bit 6 b))) = b64_symbol a"
  "b64_symbol (push_bit 4 (push_bit 2 a OR drop_bit 4 (take_bit 6 b)) OR
     drop_bit 4 (push_bit 4 b OR drop_bit 2 (take_bit 6 c))) = b64_symbol b"
  "b64_symbol (push_bit 2 (push_bit 4 b OR drop_bit 2 (take_bit 6 c)) OR
     drop_bit 6 (push_bit 6 c OR take_bit 6 d)) = b64_symbol c"
  "b64_symbol (push_bit 6 c OR take_bit 6 d) = b64_symbol d"
  by (rule symbol_cong; simp add: octet_bits bit_simps flip: numeral_2_eq_2)+

lemma respelled_padded:
  "take_bit 2 c = 0 \<Longrightarrow> b64_symbol (push_bit 2 (push_bit 4 b OR drop_bit 2 (take_bit 6 c))) = b64_symbol c"
  "take_bit 4 b = 0 \<Longrightarrow> b64_symbol (push_bit 4 (push_bit 2 a OR drop_bit 4 (take_bit 6 b))) = b64_symbol b"
  by (rule symbol_cong; simp add: octet_bits bit_simps flip: numeral_2_eq_2)+

text \<open>What a group decodes to encodes back to that group: nothing is written two ways.\<close>

lemma encode_decode_group:
  assumes "length g = 4" "decode_group g = Inr out"
  shows "length out = 3 \<and> encode_group out = g"
proof -
  obtain s1 s2 s3 s4 where g: "g = [s1, s2, s3, s4]" using four_octets [OF assms(1)] by blast
  have "\<forall>x \<in> set g. VALUES x \<noteq> INVALID"
    using assms(2) sextets_InrD [of 0 g] by (auto simp: decode_group_def sextets_def split: sum.splits)
  then obtain a b c d where v: "s1 = b64_symbol a" "s2 = b64_symbol b" "s3 = b64_symbol c" "s4 = b64_symbol d"
    using valid_symbol by (simp add: g) metis
  from assms(2) have "out = [push_bit 2 a OR drop_bit 4 (take_bit 6 b),
      push_bit 4 b OR drop_bit 2 (take_bit 6 c), push_bit 6 c OR take_bit 6 d]"
    by (simp add: g v decode_group_symbols)
  then show ?thesis unfolding g v by (simp only: encode_group_simps respelled) simp
qed

lemma decode_lastD:
  assumes "length g = 4" "decode_last g = Inr out"
  shows "(\<exists>a b c d. g = [b64_symbol a, b64_symbol b, b64_symbol c, b64_symbol d]) \<or>
     (\<exists>a b c. g = [b64_symbol a, b64_symbol b, b64_symbol c, PAD]) \<or>
     (\<exists>a b. g = [b64_symbol a, b64_symbol b, PAD, PAD])"
proof -
  obtain s1 s2 s3 s4 where g: "g = [s1, s2, s3, s4]" using four_octets [OF assms(1)] by blast
  let ?padding = "length (filter (\<lambda>s. s = PAD) g)"
  from assms(2) have p: "?padding \<le> 2" "PAD \<notin> set (take (4 - ?padding) g)"
    and valid: "\<forall>x \<in> set (take (4 - ?padding) g). VALUES x \<noteq> INVALID"
    using sextets_InrD [of 0 "take (4 - ?padding) g"]
    by (auto simp: decode_last_def sextets_def Let_def res_bind_Inr_iff not_less split: if_splits)
  from p have "PAD \<notin> {s1, s2} \<and> (s3 = PAD \<longrightarrow> s4 = PAD)"
    by (auto simp: g split: if_splits)
  with valid have v: "VALUES s1 \<noteq> INVALID" "VALUES s2 \<noteq> INVALID"
    "s3 \<noteq> PAD \<Longrightarrow> VALUES s3 \<noteq> INVALID" "s4 \<noteq> PAD \<Longrightarrow> VALUES s4 \<noteq> INVALID" "s3 = PAD \<Longrightarrow> s4 = PAD"
    by (auto simp: g split: if_splits)
  show ?thesis
    using v valid_symbol [OF v(1)] valid_symbol [OF v(2)] valid_symbol [of s3] valid_symbol [of s4]
    unfolding g by (cases "s3 = PAD"; cases "s4 = PAD") auto
qed

lemma b64_encode_short:
  "b64_encode [] = []"
  "b64_encode [x] = encode_rest [x]"
  "b64_encode [x, y] = encode_rest [x, y]"
  "b64_encode [x, y, z] = encode_group [x, y, z]"
  by (simp_all add: b64_encode_def chunks_exact.simps chunks_remainder_def encode_rest_simps)

lemma encode_decode_last:
  assumes "length g = 4" "decode_last g = Inr out"
  shows "0 < length out \<and> length out \<le> 3 \<and> b64_encode out = g"
  using decode_lastD [OF assms]
proof (elim disjE exE)
  fix a b c d assume g: "g = [b64_symbol a, b64_symbol b, b64_symbol c, b64_symbol d]"
  with assms(2) have "out = [push_bit 2 a OR drop_bit 4 (take_bit 6 b),
      push_bit 4 b OR drop_bit 2 (take_bit 6 c), push_bit 6 c OR take_bit 6 d]"
    by (simp add: decode_last_symbols)
  then have "length out = 3 \<and> b64_encode out = g" unfolding g
    by (simp only: b64_encode_short encode_group_simps respelled) simp
  then show ?thesis by simp
next
  fix a b c assume g: "g = [b64_symbol a, b64_symbol b, b64_symbol c, PAD]"
  with assms(2) have "out = [push_bit 2 a OR drop_bit 4 (take_bit 6 b), push_bit 4 b OR drop_bit 2 (take_bit 6 c)]"
    and "take_bit 2 c = 0"
    by (auto simp: decode_last_symbols split: if_splits)
  then have "length out = 2 \<and> b64_encode out = g" unfolding g
    by (simp only: b64_encode_short encode_rest_simps respelled respelled_padded) simp
  then show ?thesis by simp
next
  fix a b assume g: "g = [b64_symbol a, b64_symbol b, PAD, PAD]"
  with assms(2) have "out = [push_bit 2 a OR drop_bit 4 (take_bit 6 b)]" and "take_bit 4 b = 0"
    by (auto simp: decode_last_symbols split: if_splits)
  then have "length out = 1 \<and> b64_encode out = g" unfolding g
    by (simp only: b64_encode_short encode_rest_simps respelled respelled_padded) simp
  then show ?thesis by simp
qed

subsection \<open>Whole strings\<close>

lemma three_octets: "length xs = 3 \<Longrightarrow> \<exists>a b c. xs = [a, b, c]"
  by (auto simp: length_Suc_conv eval_nat_numeral)

lemmas triples_induct = chunks_induct [of 3, OF zero_less_numeral, case_names short chunk]
lemmas quads_induct = chunks_induct [of 4, OF zero_less_numeral, case_names short chunk]

lemma b64_encode_append:
  "length xs = 3 \<Longrightarrow> b64_encode (xs @ ys) = encode_group xs @ b64_encode ys"
  by (simp add: b64_encode_def chunks_exact_append chunks_remainder_append)

lemma length_encode_group: "length (encode_group xs) = 4"
  by (simp add: encode_group_def Let_def)

lemma length_encode_rest: "length xs < 3 \<Longrightarrow> length (encode_rest xs) = (if xs = [] then 0 else 4)"
  by (simp add: encode_rest_def Let_def)

lemma length_b64_encode: "length (b64_encode xs) = b64_encoded_len xs"
proof (induction xs rule: triples_induct)
  case (short xs)
  then show ?case
    by (cases xs) (auto simp: b64_encode_def length_encode_rest b64_encoded_len_def div_eq_dividend_iff)
next
  case (chunk ys zs)
  then show ?case
    by (simp add: b64_encode_append length_encode_group b64_encoded_len_def) presburger
qed

lemma b64_decode_append:
  assumes "length g = 4" "rest \<noteq> []" "length rest mod 4 = 0"
  shows "b64_decode (g @ rest) = res_bind (decode_group g) (\<lambda>out. res_bind (b64_decode rest) (\<lambda>tl. Inr (out @ tl)))"
proof -
  have "4 \<le> length rest" using assms(2,3) by (cases "length rest < 4") auto
  moreover have "(4 + length rest) mod 4 = 0" using assms(3) by presburger
  ultimately show ?thesis using assms
    by (cases "decode_group g"; cases "decode_groups (chunks_exact 4 (take (length rest - 4) rest))")
      (auto simp: b64_decode_def chunks_exact_append res_bind_def split: sum.splits)
qed

lemma b64_decode_last: "length g = 4 \<Longrightarrow> b64_decode g = decode_last g"
  by (cases "decode_last g") (auto simp: b64_decode_def)

lemma b64_encode_Nil_iff: "b64_encode xs = [] \<longleftrightarrow> xs = []"
  using length_b64_encode [of xs] by (cases xs) (auto simp: b64_encoded_len_def b64_encode_short)

lemma short_cases: "length xs < 3 \<Longrightarrow> xs = [] \<or> (\<exists>x. xs = [x]) \<or> (\<exists>x y. xs = [x, y])"
  by (cases xs; cases "tl xs") auto

lemma b64_decode_encode: "b64_decode (b64_encode xs) = Inr xs"
proof (induction xs rule: triples_induct)
  case (short xs)
  have "length (encode_rest [x]) = 4" "length (encode_rest [x, y]) = 4" for x y
    by (simp_all add: encode_rest_simps)
  with short_cases [OF short] show ?case
    by (auto simp: b64_encode_short b64_decode_last decode_last_rest) (simp add: b64_decode_def)
next
  case (chunk ys zs)
  obtain x y z where ys: "ys = [x, y, z]" using three_octets [OF chunk(1)] by blast
  show ?case
  proof (cases "zs = []")
    case True
    then show ?thesis
      using length_encode_group [of ys] by (simp add: ys b64_encode_short b64_decode_last decode_last_group)
  next
    case False
    have "length (b64_encode zs) mod 4 = 0" by (simp add: length_b64_encode b64_encoded_len_def)
    with False chunk show ?thesis
      using length_encode_group [of ys]
      by (simp add: b64_encode_append b64_decode_append b64_encode_Nil_iff) (simp add: ys decode_encode_group)
  qed
qed

lemma b64_encode_decode: "b64_decode s = Inr xs \<Longrightarrow> b64_encode xs = s"
proof (induction s arbitrary: xs rule: quads_induct)
  case (short s)
  then show ?case by (cases s) (auto simp: b64_decode_def b64_encode_short split: if_splits)
next
  case (chunk g rest)
  show ?case
  proof (cases "rest = []")
    case True
    with chunk show ?thesis using encode_decode_last by (simp add: b64_decode_last)
  next
    case False
    have "length rest mod 4 = 0"
      using chunk.prems chunk(1) by (auto simp: b64_decode_def split: if_splits)
    with False chunk.prems chunk(1) obtain out tl' where
      "decode_group g = Inr out" "b64_decode rest = Inr tl'" "xs = out @ tl'"
      by (auto simp: b64_decode_append res_bind_Inr_iff)
    with chunk encode_decode_group [OF chunk(1)] show ?thesis by (simp add: b64_encode_append)
  qed
qed

interpretation base64: octet_codec b64_encode "\<lambda>s. ok_of (b64_decode s)"
  by unfold_locales (simp_all add: b64_decode_encode b64_encode_decode)

subsection \<open>Properties\<close>

text \<open>C13: decoding accepts exactly what encoding writes, and answers what was encoded: the codec
  round-trips, and no two texts decode to the same octets.\<close>

theorem base64_exact: "b64_decode s = Inr x \<longleftrightarrow> s = b64_encode x"
  using base64.dec_iff by simp

text \<open>An encoding is as long as \<open>encoded_len\<close> says.\<close>

lemma base64_length: "length (b64_encode x) = b64_encoded_len x"
  by (rule length_b64_encode)

end
