(* ===== verification/Sha1.thy ===== *)
theory Sha1
  imports Prelude
begin

section \<open>SHA-1 (src/src/helpers/sha1.rs)\<close>

text \<open>
  The streaming hash of \<open>helpers::sha1\<close>: a partial block, whole blocks compressed where they
  lie, a rolling window of sixteen schedule words, and the padding written by \<open>finish\<close>. The
  second half states SHA-1 as the standard does (an eighty-word schedule, the round functions
  in their textbook form, the message padded as a whole) and proves the two equal, whatever
  pieces the message is fed in.
\<close>

subsection \<open>The hash\<close>

definition BLOCK_SIZE :: nat where "BLOCK_SIZE = 64"
definition DIGEST_SIZE :: nat where "DIGEST_SIZE = 20"

type_synonym five = "u32 \<times> u32 \<times> u32 \<times> u32 \<times> u32"

definition INITIAL_STATE :: five where
  "INITIAL_STATE = (0x67452301, 0xEFCDAB89, 0x98BADCFE, 0x10325476, 0xC3D2E1F0)"

definition CONSTANTS :: "u32 list" where
  "CONSTANTS = [0x5A827999, 0x6ED9EBA1, 0x8F1BBCDC, 0xCA62C1D6]"

definition STAGE_ROUNDS :: nat where "STAGE_ROUNDS = 20"
definition SCHEDULE :: nat where "SCHEDULE = 16"

record sha1 =
  sha_state :: five
  sha_block :: bytes
  sha_filled :: nat
  sha_length :: u64

definition sha1_new :: sha1 where
  "sha1_new = \<lparr>sha_state = INITIAL_STATE, sha_block = replicate BLOCK_SIZE 0, sha_filled = 0, sha_length = 0\<rparr>"

definition extend :: "u32 list \<Rightarrow> nat \<Rightarrow> u32 list \<times> u32" where
  "extend words r =
     (if r < SCHEDULE then (words, words ! r)
      else let slot = r mod SCHEDULE;
               extended = word_rotl 1 (words ! ((r + 13) mod SCHEDULE) XOR words ! ((r + 8) mod SCHEDULE) XOR
                            words ! ((r + 2) mod SCHEDULE) XOR words ! slot)
           in (words[slot := extended], extended))"

definition mixed :: "nat \<Rightarrow> u32 \<Rightarrow> u32 \<Rightarrow> u32 \<Rightarrow> u32" where
  "mixed stage b c d =
     (if stage = 0 then d XOR (b AND (c XOR d))
      else if stage = 2 then (b AND c) OR (d AND (b OR c))
      else b XOR c XOR d)"

definition sha_round :: "five \<Rightarrow> nat \<Rightarrow> u32 \<Rightarrow> five" where
  "sha_round = (\<lambda>(a, b, c, d, e) stage word.
     (word_rotl 5 a + mixed stage b c d + e + word + CONSTANTS ! stage, a, word_rotl 30 b, c, d))"

definition block_words :: "bytes \<Rightarrow> u32 list" where
  "block_words block = map (\<lambda>index. from_be_bytes
     [block ! (index * 4), block ! (index * 4 + 1), block ! (index * 4 + 2), block ! (index * 4 + 3)]) [0..<SCHEDULE]"

definition run_stage :: "nat \<Rightarrow> five \<times> u32 list \<Rightarrow> five \<times> u32 list" where
  "run_stage stage = fold (\<lambda>r (state, words).
     let (words, word) = extend words r in (sha_round state stage word, words))
       [stage * STAGE_ROUNDS..<(stage + 1) * STAGE_ROUNDS]"

definition add_five :: "five \<Rightarrow> five \<Rightarrow> five" where
  "add_five = (\<lambda>(a, b, c, d, e) (a', b', c', d', e'). (a + a', b + b', c + c', d + d', e + e'))"

definition compress :: "five \<Rightarrow> bytes \<Rightarrow> five" where
  "compress held block =
     (let (state, words) = fold run_stage [0..<length CONSTANTS] (held, block_words block)
      in add_five held state)"

text \<open>The two halves of \<open>update\<close>: the whole blocks, and the block already begun.\<close>

definition update_blocks :: "sha1 \<Rightarrow> bytes \<Rightarrow> sha1" where
  "update_blocks h input =
     (let state = fold (\<lambda>block state. compress state block) (chunks_exact BLOCK_SIZE input) (sha_state h);
          rest = chunks_remainder BLOCK_SIZE input
      in h\<lparr>sha_state := state, sha_block := blit (sha_block h) 0 rest, sha_filled := length rest\<rparr>)"

definition sha1_update :: "sha1 \<Rightarrow> bytes \<Rightarrow> sha1" where
  "sha1_update h input =
     (let h = h\<lparr>sha_length := sha_length h + word_of_nat (length input) * 8\<rparr> in
      if sha_filled h > 0 then
        (let taken = min (BLOCK_SIZE - sha_filled h) (length input);
             h = h\<lparr>sha_block := blit (sha_block h) (sha_filled h) (take taken input),
                   sha_filled := sha_filled h + taken\<rparr>;
             input = drop taken input
         in if sha_filled h < BLOCK_SIZE then h
            else update_blocks (h\<lparr>sha_state := compress (sha_state h) (sha_block h), sha_filled := 0\<rparr>) input)
      else update_blocks h input)"

definition sha_padding :: "nat \<Rightarrow> u64 \<Rightarrow> bytes" where
  "sha_padding filled len =
     (let zeroes = (BLOCK_SIZE + BLOCK_SIZE - 8 - (filled + 1) mod BLOCK_SIZE) mod BLOCK_SIZE;
          ends = 1 + zeroes;
          padding = (replicate (BLOCK_SIZE * 2) 0)[0 := 0x80]
      in take (ends + 8) (blit padding ends (to_be_bytes len)))"

definition digest_of :: "five \<Rightarrow> bytes" where
  "digest_of = (\<lambda>(a, b, c, d, e). concat (map to_be_bytes [a, b, c, d, e]))"

definition sha1_finish :: "sha1 \<Rightarrow> bytes" where
  "sha1_finish h = digest_of (sha_state (sha1_update h (sha_padding (sha_filled h) (sha_length h))))"

definition sha1 :: "bytes \<Rightarrow> bytes" where
  "sha1 input = sha1_finish (sha1_update sha1_new input)"

subsection \<open>The standard\<close>

function schedule :: "u32 list \<Rightarrow> nat \<Rightarrow> u32" where
  "schedule ws t = (if t < 16 then ws ! t
     else word_rotl 1 (schedule ws (t - 3) XOR schedule ws (t - 8) XOR schedule ws (t - 14) XOR schedule ws (t - 16)))"
  by pat_completeness auto
termination by (relation "measure snd") auto

declare schedule.simps [simp del]

definition std_mix :: "nat \<Rightarrow> u32 \<Rightarrow> u32 \<Rightarrow> u32 \<Rightarrow> u32" where
  "std_mix t b c d =
     (if t < 20 then (b AND c) OR (NOT b AND d)
      else if 40 \<le> t \<and> t < 60 then (b AND c) OR (b AND d) OR (c AND d)
      else b XOR c XOR d)"

definition std_round :: "u32 list \<Rightarrow> nat \<Rightarrow> five \<Rightarrow> five" where
  "std_round ws t = (\<lambda>(a, b, c, d, e).
     (word_rotl 5 a + std_mix t b c d + e + schedule ws t + CONSTANTS ! (t div 20), a, word_rotl 30 b, c, d))"

definition std_compress :: "five \<Rightarrow> bytes \<Rightarrow> five" where
  "std_compress held block = add_five held (fold (std_round (block_words block)) [0..<80] held)"

definition std_padded :: "bytes \<Rightarrow> bytes" where
  "std_padded m = m @ [0x80] @ replicate ((119 - length m mod 64) mod 64) 0 @ to_be_bytes (word_of_nat (8 * length m) :: u64)"

definition std_sha1 :: "bytes \<Rightarrow> bytes" where
  "std_sha1 m = digest_of (fold (\<lambda>block state. std_compress state block) (chunks_exact 64 (std_padded m)) INITIAL_STATE)"

subsection \<open>Compression\<close>

lemma mixed_std: "t < 80 \<Longrightarrow> mixed (t div 20) b c d = std_mix t b c d"
proof -
  assume "t < 80"
  have "t div 20 = 0 \<longleftrightarrow> t < 20" by (intro iffI; linarith)
  moreover have "t div 20 = 2 \<longleftrightarrow> 40 \<le> t \<and> t < 60" by (intro iffI conjI; linarith)
  moreover have "d XOR (b AND (c XOR d)) = (b AND c) OR (NOT b AND d)"
    "(b AND c) OR (d AND (b OR c)) = (b AND c) OR (b AND d) OR (c AND d)"
    by (rule bit_word_eqI; auto simp: bit_simps)+
  ultimately show ?thesis by (simp add: mixed_def std_mix_def)
qed

text \<open>The window holds, for each residue, the latest schedule word of that residue.\<close>

definition window :: "u32 list \<Rightarrow> nat \<Rightarrow> u32 list \<Rightarrow> bool" where
  "window ws t words \<longleftrightarrow> length words = 16 \<and>
     (\<forall>j. j < max 16 t \<and> max 16 t \<le> j + 16 \<longrightarrow> words ! (j mod 16) = schedule ws j)"

lemma extend_window:
  assumes "window ws t words"
  shows "snd (extend words t) = schedule ws t" "window ws (Suc t) (fst (extend words t))"
proof -
  have w: "length words = 16" "j < max 16 t \<Longrightarrow> max 16 t \<le> j + 16 \<Longrightarrow> words ! (j mod 16) = schedule ws j" for j
    using assms by (auto simp: window_def)
  show latest: "snd (extend words t) = schedule ws t"
  proof (cases "t < 16")
    case True
    then show ?thesis using w(2) [of t] by (simp add: extend_def SCHEDULE_def)
  next
    case False
    then have "t + 13 = (t - 3) + 16" "t + 8 = (t - 8) + 16" "t + 2 = (t - 14) + 16" "t = (t - 16) + 16"
      by linarith+
    then have "(t + 13) mod 16 = (t - 3) mod 16" "(t + 8) mod 16 = (t - 8) mod 16"
      "(t + 2) mod 16 = (t - 14) mod 16" "t mod 16 = (t - 16) mod 16"
      by (metis mod_add_self2)+
    then show ?thesis
      using False w(2) [of "t - 3"] w(2) [of "t - 8"] w(2) [of "t - 14"] w(2) [of "t - 16"]
      by (simp add: extend_def SCHEDULE_def Let_def schedule.simps [of ws t])
  qed
  show "window ws (Suc t) (fst (extend words t))"
  proof (cases "t < 16")
    case True
    then have "max 16 t = 16" "max 16 (Suc t) = 16" by simp_all
    with True assms show ?thesis by (simp add: window_def extend_def SCHEDULE_def)
  next
    case False
    then have ext: "extend words t = (words[t mod 16 := schedule ws t], schedule ws t)"
      using latest by (auto simp: extend_def SCHEDULE_def Let_def)
    have "words[t mod 16 := schedule ws t] ! (j mod 16) = schedule ws j" if "j < Suc t" "Suc t \<le> j + 16" for j
    proof (cases "j = t")
      case True
      then show ?thesis using w(1) by simp
    next
      case j: False
      with that have "0 < t - j" "t - j < 16" "t = j + (t - j)" by linarith+
      then have "j mod 16 \<noteq> t mod 16"
        by (metis add_diff_cancel_left' mod_eq_dvd_iff_nat dvd_imp_le le_add1 not_less)
      with that j False show ?thesis using w(2) [of j] by simp
    qed
    then show ?thesis using w(1) False by (simp add: window_def ext)
  qed
qed

lemma schedule_start: "window ws t ws" if "length ws = 16" "t \<le> 16"
  using that by (auto simp: window_def schedule.simps max_def)

definition one_round :: "nat \<Rightarrow> five \<times> u32 list \<Rightarrow> five \<times> u32 list" where
  "one_round r = (\<lambda>(state, words).
     let (words, word) = extend words r in (sha_round state (r div 20) word, words))"

lemma run_stage_rounds: "run_stage stage = fold one_round [stage * 20..<(stage + 1) * 20]"
proof -
  have "r div 20 = stage" if "r \<in> set [stage * 20..<(stage + 1) * 20]" for r
    using that by (intro div_nat_eqI) auto
  then show ?thesis
    unfolding run_stage_def STAGE_ROUNDS_def by (intro ext fold_cong) (auto simp: one_round_def)
qed

lemma run_stages: "fold run_stage [0..<4] = fold one_round [0..<80]"
proof -
  have "[0..<80] = [0..<20] @ [20..<40] @ [40..<60] @ [60..<(80::nat)]"
    using upt_add_eq_append [of 0 20 60] upt_add_eq_append [of 20 40 40] upt_add_eq_append [of 40 60 20] by simp
  moreover have "[0..<4] = [0, 1, 2, 3::nat]" by (simp add: upt_rec)
  ultimately show ?thesis by (simp only: run_stage_rounds fold.simps fold_append) (simp add: comp_assoc)
qed

lemma rounds_window:
  "n \<le> 80 \<Longrightarrow> length ws = 16 \<Longrightarrow>
   fst (fold one_round [0..<n] (held, ws)) = fold (std_round ws) [0..<n] held \<and>
   window ws n (snd (fold one_round [0..<n] (held, ws)))"
proof (induction n)
  case 0
  then show ?case by (simp add: schedule_start)
next
  case (Suc n)
  obtain state words where f: "fold one_round [0..<n] (held, ws) = (state, words)" by (cases "fold one_round [0..<n] (held, ws)")
  with Suc have w: "window ws n words" and state: "state = fold (std_round ws) [0..<n] held" by auto
  obtain a b c d e where abc: "state = (a, b, c, d, e)" by (cases state)
  have "one_round n (state, words) = (std_round ws n state, fst (extend words n))"
    using extend_window(1) [OF w] Suc.prems(1)
    by (cases "extend words n") (simp add: one_round_def abc sha_round_def std_round_def mixed_std)
  then show ?case using extend_window(2) [OF w] f state by simp
qed

lemma compress_std: "compress held block = std_compress held block"
proof -
  have "length (block_words block) = 16" by (simp add: block_words_def SCHEDULE_def)
  then have "fst (fold one_round [0..<80] (held, block_words block)) = fold (std_round (block_words block)) [0..<80] held"
    using rounds_window [of 80] by simp
  moreover have "length CONSTANTS = 4" by (simp add: CONSTANTS_def)
  ultimately show ?thesis
    unfolding compress_def std_compress_def by (simp only: run_stages split_beta Let_def)
qed

subsection \<open>Streaming\<close>

text \<open>What the hash holds after the octets \<open>m\<close>, in whatever pieces they came.\<close>

definition hashed :: "bytes \<Rightarrow> sha1 \<Rightarrow> bool" where
  "hashed m h \<longleftrightarrow>
     sha_state h = fold (\<lambda>block state. compress state block) (chunks_exact 64 m) INITIAL_STATE \<and>
     length (sha_block h) = 64 \<and>
     take (sha_filled h) (sha_block h) = chunks_remainder 64 m \<and>
     sha_filled h = length m mod 64 \<and>
     sha_length h = word_of_nat (8 * length m)"

lemma hashed_new: "hashed [] sha1_new"
  by (simp add: hashed_def sha1_new_def BLOCK_SIZE_def)

lemma chunks_split:
  assumes "0 < n"
  shows "chunks_exact n (m @ x) = chunks_exact n m @ chunks_exact n (chunks_remainder n m @ x) \<and>
    chunks_remainder n (m @ x) = chunks_remainder n (chunks_remainder n m @ x)"
  using assms
proof (induction m rule: chunks_induct)
  case (chunk ys zs)
  with assms show ?case by (simp add: chunks_exact_append chunks_remainder_append)
qed simp

lemma hashed_blocks:
  assumes "hashed m h'" "length m mod 64 = 0" "length (sha_block h) = 64"
    "sha_state h = sha_state h'" "sha_length h = word_of_nat (8 * (length m + length x))"
  shows "hashed (m @ x) (update_blocks h x)"
proof -
  have m: "chunks_remainder 64 m = []" using assms(2) by (simp add: chunks_remainder_def)
  have "length (chunks_remainder 64 x) \<le> 64" by (simp add: length_simps)
  moreover have "(length m + length x) mod 64 = length x mod 64"
    using assms(2) by (metis add_cancel_left_left mod_add_left_eq)
  ultimately show ?thesis
    using assms chunks_split [of 64 m x] m
    by (simp add: hashed_def update_blocks_def Let_def BLOCK_SIZE_def blit_def length_simps)
qed

theorem hashed_update:
  assumes "hashed m h"
  shows "hashed (m @ x) (sha1_update h x)"
proof -
  have h: "length (sha_block h) = 64" "take (sha_filled h) (sha_block h) = chunks_remainder 64 m"
    "sha_filled h = length m mod 64" "sha_length h = word_of_nat (8 * length m)"
    "sha_state h = fold (\<lambda>block state. compress state block) (chunks_exact 64 m) INITIAL_STATE"
    using assms by (auto simp: hashed_def)
  have f: "sha_filled h < 64" using h(3) by simp
  have len: "sha_length h + word_of_nat (length x) * 8 = word_of_nat (8 * (length m + length x))"
    by (simp add: h(4) algebra_simps)
  show ?thesis
  proof (cases "sha_filled h = 0")
    case True
    then have "sha1_update h x = update_blocks (h\<lparr>sha_length := word_of_nat (8 * (length m + length x))\<rparr>) x"
      using len by (simp add: sha1_update_def mult.commute)
    then show ?thesis using True h by (simp add: hashed_blocks [OF assms])
  next
    case False
    let ?taken = "min (64 - sha_filled h) (length x)"
    let ?block = "blit (sha_block h) (sha_filled h) (take ?taken x)"
    have lb: "length ?block = 64" using h(1) f by (simp add: length_simps)
    have tb: "take (sha_filled h + ?taken) ?block = chunks_remainder 64 m @ take ?taken x"
      using h(1-3) f by (simp add: blit_def length_simps)
    show ?thesis
    proof (cases "length x < 64 - sha_filled h")
      case True
      have small: "length (chunks_remainder 64 m @ x) < 64" using True h(3) by (simp add: length_simps)
      have "(length m + length x) mod 64 = sha_filled h + length x"
        using True h(3) by (metis add.commute less_diff_conv mod_add_left_eq mod_less)
      moreover have "sha1_update h x = h\<lparr>sha_length := word_of_nat (8 * (length m + length x)),
          sha_block := ?block, sha_filled := sha_filled h + length x\<rparr>"
        using True False len by (simp add: sha1_update_def BLOCK_SIZE_def Let_def mult.commute)
      ultimately show ?thesis
        using h True tb lb small chunks_split [of 64 m x] by (simp add: hashed_def)
    next
      case full: False
      let ?n = "64 - sha_filled h"
      have block: "?block = chunks_remainder 64 m @ take ?n x" using tb lb full f by simp
      have len64: "length (chunks_remainder 64 m @ take ?n x) = 64"
        using h(3) f full by (simp add: length_simps)
      have upd: "sha1_update h x = update_blocks (h\<lparr>sha_length := word_of_nat (8 * (length m + length x)),
          sha_block := ?block, sha_state := compress (sha_state h) ?block, sha_filled := 0\<rparr>) (drop ?n x)"
        using full False len f by (simp add: sha1_update_def BLOCK_SIZE_def Let_def mult.commute)
      let ?h = "h\<lparr>sha_length := word_of_nat (8 * (length m + ?n)),
          sha_block := ?block, sha_state := compress (sha_state h) ?block, sha_filled := 0\<rparr>"
      have "length m = 64 * (length m div 64) + sha_filled h" using h(3) by simp
      then have "length m + (64 - sha_filled h) = 64 * (length m div 64 + 1)" using f by simp
      then have "(length m + (64 - sha_filled h)) mod 64 = 0" by (metis mod_mult_self1_is_0)
      then have mod0: "length (m @ take ?n x) mod 64 = 0"
        using h(3) full by (simp add: min_def)
      have chunks: "chunks_exact 64 (m @ take ?n x) = chunks_exact 64 m @ [?block]"
        using chunks_split [of 64 m "take ?n x"] chunks_exact_append [of 64 "chunks_remainder 64 m @ take ?n x" "[]"] len64 block
        by simp
      have piece: "hashed (m @ take ?n x) ?h"
        using h(1,5) lb chunks mod0 full by (simp add: hashed_def chunks_remainder_def)
      have len_mx: "length (m @ take ?n x) + length (drop ?n x) = length m + length x" using full by simp
      have "hashed ((m @ take ?n x) @ drop ?n x) (sha1_update h x)"
        unfolding upd by (rule hashed_blocks [OF piece mod0]) (simp_all only: len_mx, simp_all add: lb)
      then show ?thesis by simp
    qed
  qed
qed

lemma sha_padding_std:
  assumes "filled < 64"
  shows "sha_padding filled len = [0x80] @ replicate ((119 - filled) mod 64) 0 @ to_be_bytes len"
proof -
  have z: "(64 + 64 - 8 - (filled + 1) mod 64) mod 64 = (119 - filled) mod 64"
  proof (cases "filled = 63")
    case False
    then have "filled + 1 < 64" using assms by simp
    then show ?thesis by simp
  qed simp
  let ?z = "(119 - filled) mod 64"
  have zl: "?z < 64" by simp
  have "(replicate 128 0)[0 := 0x80] = (0x80 :: octet) # replicate 127 0"
    by (simp add: numeral_eq_Suc)
  moreover have "length (to_be_bytes len) = 8" by (simp add: length_simps)
  ultimately show ?thesis
    using zl by (simp add: sha_padding_def BLOCK_SIZE_def z [simplified] Let_def blit_def min_def)
qed

lemma std_padded_mod: "length (std_padded m) mod 64 = 0"
proof -
  have *: "(r + 9 + (119 - r) mod 64) mod 64 = 0" if "r < 64" for r :: nat
  proof (cases "r < 56")
    case True
    then have "(119 - r) mod 64 = 55 - r" by (simp add: mod_if)
    with True show ?thesis by simp
  next
    case False
    with that show ?thesis by simp
  qed
  have "length (std_padded m) = length m + 9 + (119 - length m mod 64) mod 64"
    by (simp add: std_padded_def length_simps)
  also have "\<dots> mod 64 = (length m mod 64 + 9 + (119 - length m mod 64) mod 64) mod 64"
    by (metis (no_types, opaque_lifting) add.assoc mod_add_left_eq)
  finally show ?thesis using * [of "length m mod 64"] by simp
qed

lemma sha1_finish_std:
  assumes "hashed m h"
  shows "sha1_finish h = std_sha1 m"
proof -
  have "sha_padding (sha_filled h) (sha_length h) =
      [0x80] @ replicate ((119 - length m mod 64) mod 64) 0 @ to_be_bytes (word_of_nat (8 * length m) :: u64)"
    using assms by (simp add: sha_padding_std hashed_def)
  then have "m @ sha_padding (sha_filled h) (sha_length h) = std_padded m"
    by (simp add: std_padded_def)
  then have "hashed (std_padded m) (sha1_update h (sha_padding (sha_filled h) (sha_length h)))"
    using hashed_update [OF assms] by metis
  then show ?thesis
    by (simp add: sha1_finish_def std_sha1_def hashed_def compress_std)
qed

lemma hashed_updates: "hashed m h \<Longrightarrow> hashed (m @ concat parts) (fold (\<lambda>part h. sha1_update h part) parts h)"
proof (induction parts arbitrary: m h)
  case (Cons part parts)
  then have "hashed (m @ part) (sha1_update h part)" by (intro hashed_update)
  from Cons.IH [OF this] show ?case by simp
qed simp

lemma sha1_pieces_std:
  "sha1_finish (fold (\<lambda>part h. sha1_update h part) parts sha1_new) = std_sha1 (concat parts)"
  using sha1_finish_std [OF hashed_updates [OF hashed_new]] by simp

lemma sha1_std: "sha1 m = std_sha1 m"
  using sha1_pieces_std [of "[m]"] by (simp add: sha1_def)

lemma length_digest: "length (sha1 m) = DIGEST_SIZE"
  by (simp add: sha1_def sha1_finish_def digest_of_def DIGEST_SIZE_def length_simps split: prod.split)

subsection \<open>Properties\<close>

text \<open>C30: hashing a message in pieces, however it is cut, answers the digest FIPS 180-1 defines for
  the whole message: the window of sixteen words, the buffered block and the padding agree with
  the eighty-word schedule over the padded message.\<close>

theorem digest_standard:
  "sha1_finish (fold (\<lambda>part h. sha1_update h part) parts sha1_new) = std_sha1 (concat parts)"
  by (rule sha1_pieces_std)

end
