(* ===== verification/Huffman_Table.thy ===== *)
theory Huffman_Table
  imports Prelude
begin

section \<open>The Huffman code (src/src/helpers/huffman.rs)\<close>

text \<open>
  The code table HPACK and QPACK share: the code word of each octet, and of \<open>EOS\<close> last.
  A code word is held right-aligned in a \<open>u32\<close> next to its length in bits.
\<close>

datatype huff_symbol = Symbol (sym_code: u32) (sym_length: nat)

definition EOS :: nat where "EOS = 256"

text \<open>The table in two halves, the octets below \<open>0x80\<close> first.\<close>

definition TABLE_ascii :: "huff_symbol list" where
  "TABLE_ascii = [
     Symbol 0x1ff8 13, Symbol 0x7fffd8 23, Symbol 0xfffffe2 28, Symbol 0xfffffe3 28,
     Symbol 0xfffffe4 28, Symbol 0xfffffe5 28, Symbol 0xfffffe6 28, Symbol 0xfffffe7 28,
     Symbol 0xfffffe8 28, Symbol 0xffffea 24, Symbol 0x3ffffffc 30, Symbol 0xfffffe9 28,
     Symbol 0xfffffea 28, Symbol 0x3ffffffd 30, Symbol 0xfffffeb 28, Symbol 0xfffffec 28,
     Symbol 0xfffffed 28, Symbol 0xfffffee 28, Symbol 0xfffffef 28, Symbol 0xffffff0 28,
     Symbol 0xffffff1 28, Symbol 0xffffff2 28, Symbol 0x3ffffffe 30, Symbol 0xffffff3 28,
     Symbol 0xffffff4 28, Symbol 0xffffff5 28, Symbol 0xffffff6 28, Symbol 0xffffff7 28,
     Symbol 0xffffff8 28, Symbol 0xffffff9 28, Symbol 0xffffffa 28, Symbol 0xffffffb 28,
     Symbol 0x14 6, Symbol 0x3f8 10, Symbol 0x3f9 10, Symbol 0xffa 12, Symbol 0x1ff9 13,
     Symbol 0x15 6, Symbol 0xf8 8, Symbol 0x7fa 11, Symbol 0x3fa 10, Symbol 0x3fb 10,
     Symbol 0xf9 8, Symbol 0x7fb 11, Symbol 0xfa 8, Symbol 0x16 6, Symbol 0x17 6, Symbol 0x18 6,
     Symbol 0x0 5, Symbol 0x1 5, Symbol 0x2 5, Symbol 0x19 6, Symbol 0x1a 6, Symbol 0x1b 6,
     Symbol 0x1c 6, Symbol 0x1d 6, Symbol 0x1e 6, Symbol 0x1f 6, Symbol 0x5c 7, Symbol 0xfb 8,
     Symbol 0x7ffc 15, Symbol 0x20 6, Symbol 0xffb 12, Symbol 0x3fc 10, Symbol 0x1ffa 13,
     Symbol 0x21 6, Symbol 0x5d 7, Symbol 0x5e 7, Symbol 0x5f 7, Symbol 0x60 7, Symbol 0x61 7,
     Symbol 0x62 7, Symbol 0x63 7, Symbol 0x64 7, Symbol 0x65 7, Symbol 0x66 7, Symbol 0x67 7,
     Symbol 0x68 7, Symbol 0x69 7, Symbol 0x6a 7, Symbol 0x6b 7, Symbol 0x6c 7, Symbol 0x6d 7,
     Symbol 0x6e 7, Symbol 0x6f 7, Symbol 0x70 7, Symbol 0x71 7, Symbol 0x72 7, Symbol 0xfc 8,
     Symbol 0x73 7, Symbol 0xfd 8, Symbol 0x1ffb 13, Symbol 0x7fff0 19, Symbol 0x1ffc 13,
     Symbol 0x3ffc 14, Symbol 0x22 6, Symbol 0x7ffd 15, Symbol 0x3 5, Symbol 0x23 6, Symbol 0x4 5,
     Symbol 0x24 6, Symbol 0x5 5, Symbol 0x25 6, Symbol 0x26 6, Symbol 0x27 6, Symbol 0x6 5,
     Symbol 0x74 7, Symbol 0x75 7, Symbol 0x28 6, Symbol 0x29 6, Symbol 0x2a 6, Symbol 0x7 5,
     Symbol 0x2b 6, Symbol 0x76 7, Symbol 0x2c 6, Symbol 0x8 5, Symbol 0x9 5, Symbol 0x2d 6,
     Symbol 0x77 7, Symbol 0x78 7, Symbol 0x79 7, Symbol 0x7a 7, Symbol 0x7b 7, Symbol 0x7ffe 15,
     Symbol 0x7fc 11, Symbol 0x3ffd 14, Symbol 0x1ffd 13, Symbol 0xffffffc 28]"

definition TABLE_high :: "huff_symbol list" where
  "TABLE_high = [
     Symbol 0xfffe6 20, Symbol 0x3fffd2 22, Symbol 0xfffe7 20, Symbol 0xfffe8 20,
     Symbol 0x3fffd3 22, Symbol 0x3fffd4 22, Symbol 0x3fffd5 22, Symbol 0x7fffd9 23,
     Symbol 0x3fffd6 22, Symbol 0x7fffda 23, Symbol 0x7fffdb 23, Symbol 0x7fffdc 23,
     Symbol 0x7fffdd 23, Symbol 0x7fffde 23, Symbol 0xffffeb 24, Symbol 0x7fffdf 23,
     Symbol 0xffffec 24, Symbol 0xffffed 24, Symbol 0x3fffd7 22, Symbol 0x7fffe0 23,
     Symbol 0xffffee 24, Symbol 0x7fffe1 23, Symbol 0x7fffe2 23, Symbol 0x7fffe3 23,
     Symbol 0x7fffe4 23, Symbol 0x1fffdc 21, Symbol 0x3fffd8 22, Symbol 0x7fffe5 23,
     Symbol 0x3fffd9 22, Symbol 0x7fffe6 23, Symbol 0x7fffe7 23, Symbol 0xffffef 24,
     Symbol 0x3fffda 22, Symbol 0x1fffdd 21, Symbol 0xfffe9 20, Symbol 0x3fffdb 22,
     Symbol 0x3fffdc 22, Symbol 0x7fffe8 23, Symbol 0x7fffe9 23, Symbol 0x1fffde 21,
     Symbol 0x7fffea 23, Symbol 0x3fffdd 22, Symbol 0x3fffde 22, Symbol 0xfffff0 24,
     Symbol 0x1fffdf 21, Symbol 0x3fffdf 22, Symbol 0x7fffeb 23, Symbol 0x7fffec 23,
     Symbol 0x1fffe0 21, Symbol 0x1fffe1 21, Symbol 0x3fffe0 22, Symbol 0x1fffe2 21,
     Symbol 0x7fffed 23, Symbol 0x3fffe1 22, Symbol 0x7fffee 23, Symbol 0x7fffef 23,
     Symbol 0xfffea 20, Symbol 0x3fffe2 22, Symbol 0x3fffe3 22, Symbol 0x3fffe4 22,
     Symbol 0x7ffff0 23, Symbol 0x3fffe5 22, Symbol 0x3fffe6 22, Symbol 0x7ffff1 23,
     Symbol 0x3ffffe0 26, Symbol 0x3ffffe1 26, Symbol 0xfffeb 20, Symbol 0x7fff1 19,
     Symbol 0x3fffe7 22, Symbol 0x7ffff2 23, Symbol 0x3fffe8 22, Symbol 0x1ffffec 25,
     Symbol 0x3ffffe2 26, Symbol 0x3ffffe3 26, Symbol 0x3ffffe4 26, Symbol 0x7ffffde 27,
     Symbol 0x7ffffdf 27, Symbol 0x3ffffe5 26, Symbol 0xfffff1 24, Symbol 0x1ffffed 25,
     Symbol 0x7fff2 19, Symbol 0x1fffe3 21, Symbol 0x3ffffe6 26, Symbol 0x7ffffe0 27,
     Symbol 0x7ffffe1 27, Symbol 0x3ffffe7 26, Symbol 0x7ffffe2 27, Symbol 0xfffff2 24,
     Symbol 0x1fffe4 21, Symbol 0x1fffe5 21, Symbol 0x3ffffe8 26, Symbol 0x3ffffe9 26,
     Symbol 0xffffffd 28, Symbol 0x7ffffe3 27, Symbol 0x7ffffe4 27, Symbol 0x7ffffe5 27,
     Symbol 0xfffec 20, Symbol 0xfffff3 24, Symbol 0xfffed 20, Symbol 0x1fffe6 21,
     Symbol 0x3fffe9 22, Symbol 0x1fffe7 21, Symbol 0x1fffe8 21, Symbol 0x7ffff3 23,
     Symbol 0x3fffea 22, Symbol 0x3fffeb 22, Symbol 0x1ffffee 25, Symbol 0x1ffffef 25,
     Symbol 0xfffff4 24, Symbol 0xfffff5 24, Symbol 0x3ffffea 26, Symbol 0x7ffff4 23,
     Symbol 0x3ffffeb 26, Symbol 0x7ffffe6 27, Symbol 0x3ffffec 26, Symbol 0x3ffffed 26,
     Symbol 0x7ffffe7 27, Symbol 0x7ffffe8 27, Symbol 0x7ffffe9 27, Symbol 0x7ffffea 27,
     Symbol 0x7ffffeb 27, Symbol 0xffffffe 28, Symbol 0x7ffffec 27, Symbol 0x7ffffed 27,
     Symbol 0x7ffffee 27, Symbol 0x7ffffef 27, Symbol 0x7fffff0 27, Symbol 0x3ffffee 26,
     Symbol 0x3fffffff 30]"

definition TABLE :: "huff_symbol list" where
  "TABLE = TABLE_ascii @ TABLE_high"

definition LENGTHS :: "nat list" where
  "LENGTHS = map (\<lambda>v. sym_length (TABLE ! v)) [0..<257]"

lemma length_TABLE: "length TABLE = 257"
  by (simp add: TABLE_def TABLE_ascii_def TABLE_high_def)

lemma LENGTHS_map: "LENGTHS = map sym_length TABLE"
  by (rule nth_equalityI) (simp_all add: LENGTHS_def length_TABLE)

end
