(* ===== verification/Huffman_Canonical.thy ===== *)
theory Huffman_Canonical
  imports Huffman_Table
begin

section \<open>The canonical form of the Huffman code (src/src/helpers/huffman.rs)\<close>

text \<open>
  \<open>Canonical::new\<close> and its lookups \<open>long\<close> and \<open>symbol\<close>. What the lookups answer is specified
  by \<open>spells\<close>: a window spells the symbol whose code word its top bits are. The code words
  tile the windows, so each window spells exactly one symbol, and every lookup finds it.
\<close>

subsection \<open>Model\<close>

record canonical =
  can_fast :: "u16 list"
  can_limit :: "u64 list"
  can_base :: "u32 list"
  can_offset :: "u16 list"
  can_symbols :: "u16 list"
  can_pairs :: "u32 list"

definition FAST_BITS :: nat where "FAST_BITS = 8"
definition FAST_SIZE :: nat where "FAST_SIZE = 2 ^ FAST_BITS"
definition MAX_BITS :: nat where "MAX_BITS = 30"
definition PAIR_BITS :: nat where "PAIR_BITS = 12"
definition PAIR_SIZE :: nat where "PAIR_SIZE = 2 ^ PAIR_BITS"
definition PAIR_MOST :: nat where "PAIR_MOST = PAIR_BITS div 5"

definition code_counts :: "huff_symbol list \<Rightarrow> u16 list" where
  "code_counts table =
     fold (\<lambda>v count. let n = sym_length (table ! v) in count[n := count ! n + 1])
       [0..<257] (replicate (MAX_BITS + 1) 0)"

text \<open>One turn of the loop over the lengths: \<open>code\<close>, \<open>index\<close>, and the three arrays.\<close>

type_synonym ranges = "u32 \<times> u16 \<times> u32 list \<times> u16 list \<times> u64 list"

definition range_step :: "u16 list \<Rightarrow> nat \<Rightarrow> ranges \<Rightarrow> ranges" where
  "range_step count n = (\<lambda>(code, index, base, offset, limit).
     let code = push_bit 1 code;
         held = count ! n
     in (code + ucast held, index + held, base[n := code], offset[n := index],
         limit[n := if held = 0 then limit ! (n - 1)
                    else push_bit (64 - n) (ucast (code + ucast held - 1)) OR drop_bit n (- 1)]))"

definition code_ranges :: "u16 list \<Rightarrow> ranges" where
  "code_ranges count = fold (range_step count) [1..<MAX_BITS + 1]
     (0, 0, replicate (MAX_BITS + 1) 0, replicate (MAX_BITS + 1) 0, replicate (MAX_BITS + 1) 0)"

definition place_symbol ::
  "huff_symbol list \<Rightarrow> u16 list \<Rightarrow> nat \<Rightarrow> u16 list \<times> u16 list \<Rightarrow> u16 list \<times> u16 list" where
  "place_symbol table offset v = (\<lambda>(symbols, filled).
     let n = sym_length (table ! v)
     in (symbols[unat (offset ! n + filled ! n) := word_of_nat v], filled[n := filled ! n + 1]))"

definition code_symbols :: "huff_symbol list \<Rightarrow> u16 list \<Rightarrow> u16 list" where
  "code_symbols table offset =
     fst (fold (place_symbol table offset) [0..<257]
       (replicate 257 0, replicate (MAX_BITS + 1) 0))"

definition spread_symbol :: "huff_symbol list \<Rightarrow> nat \<Rightarrow> u16 list \<Rightarrow> u16 list" where
  "spread_symbol table v fast = (let n = sym_length (table ! v) in
     if n \<le> FAST_BITS then
       let first = unat (sym_code (table ! v)) * 2 ^ (FAST_BITS - n) in
       fold (\<lambda>slot fast. fast[first + slot := push_bit 8 (word_of_nat v) OR word_of_nat n])
         [0..<2 ^ (FAST_BITS - n)] fast
     else fast)"

definition code_fast :: "huff_symbol list \<Rightarrow> u16 list" where
  "code_fast table = fold (spread_symbol table) [0..<257] (replicate FAST_SIZE 0)"

text \<open>\<open>while length < MAX_BITS && window > limit[length] { length += 1 }\<close>\<close>

function reach :: "u64 list \<Rightarrow> u64 \<Rightarrow> nat \<Rightarrow> nat" where
  "reach limit window n =
     (if n < MAX_BITS \<and> limit ! n < window then reach limit window (n + 1) else n)"
  by pat_completeness auto
termination by (relation "measure (\<lambda>(limit, window, n). MAX_BITS - n)") auto

declare reach.simps [simp del]

text \<open>
  One entry of \<open>pairs\<close>: at most \<open>PAIR_MOST\<close> turns, each reading one more code word out of
  the window. The state is the window, the bits used, the symbols counted and held.
\<close>

function (sequential) pair_loop ::
  "u16 list \<Rightarrow> u64 list \<Rightarrow> u32 list \<Rightarrow> u16 list \<Rightarrow> u16 list \<Rightarrow>
   nat \<Rightarrow> u64 \<Rightarrow> nat \<Rightarrow> nat \<Rightarrow> u32 list \<Rightarrow> nat \<times> nat \<times> u32 list" where
  "pair_loop fast limit base offset symbols 0 window used count held = (used, count, held)"
| "pair_loop fast limit base offset symbols (Suc turns) window used count held =
    (let entry = fast ! unat (drop_bit (64 - FAST_BITS) window);
         short = entry AND 0xff;
         n = reach limit window (if short = 0 then FAST_BITS + 1 else unat short)
     in if PAIR_BITS < used + n then (used, count, held)
        else
          let code = ucast (drop_bit (64 - n) window) :: u32;
              held = held[count := ucast (symbols ! (unat (offset ! n) + unat (code - base ! n)))]
          in pair_loop fast limit base offset symbols turns (push_bit n window) (used + n) (count + 1) held)"
  by pat_completeness auto
termination
  by (relation "measure (\<lambda>(fast, limit, base, offset, symbols, turns, window, used, count, held). turns)") auto

definition pair_entry ::
  "u16 list \<Rightarrow> u64 list \<Rightarrow> u32 list \<Rightarrow> u16 list \<Rightarrow> u16 list \<Rightarrow> nat \<Rightarrow> u32" where
  "pair_entry fast limit base offset symbols index =
     (let (used, count, held) = pair_loop fast limit base offset symbols PAIR_MOST
            (push_bit (64 - PAIR_BITS) (word_of_nat index)) 0 0 [0, 0]
      in if 0 < count
         then word_of_nat used OR push_bit 8 (word_of_nat count)
           OR push_bit 16 (held ! 0) OR push_bit 24 (held ! 1)
         else 0)"

definition canonical_new :: "huff_symbol list \<Rightarrow> canonical" where
  "canonical_new table =
     (let (code, index, base, offset, limit) = code_ranges (code_counts table);
          symbols = code_symbols table offset;
          fast = code_fast table
      in \<lparr> can_fast = fast, can_limit = limit, can_base = base, can_offset = offset,
           can_symbols = symbols,
           can_pairs = map (pair_entry fast limit base offset symbols) [0..<PAIR_SIZE] \<rparr>)"

definition CANONICAL :: canonical where
  "CANONICAL = canonical_new TABLE"

definition long_symbol :: "canonical \<Rightarrow> u64 \<Rightarrow> u16 \<times> nat" where
  "long_symbol codes window =
     (let n = reach (can_limit codes) window (FAST_BITS + 1);
          code = ucast (drop_bit (64 - n) window) :: u32;
          index = unat (can_offset codes ! n) + unat (code - can_base codes ! n)
      in (can_symbols codes ! index, n))"

definition symbol_of :: "canonical \<Rightarrow> u64 \<Rightarrow> u16 \<times> nat" where
  "symbol_of codes window =
     (let entry = can_fast codes ! unat (drop_bit (64 - FAST_BITS) window);
          short = entry AND 0xff
      in if short = 0 then long_symbol codes window else (drop_bit 8 entry, unat short))"

lemmas canonical_sizes = FAST_BITS_def FAST_SIZE_def MAX_BITS_def PAIR_BITS_def PAIR_SIZE_def PAIR_MOST_def

subsection \<open>The ranges of the lengths\<close>

text \<open>
  How many code words each length has, the first of them, and where its symbols begin in
  canonical order. \<open>high\<close> bounds the windows a length covers.
\<close>

definition CNT :: "int list" where
  "CNT = [0,0,0,0,0,10,26,32,6,0,5,3,2,6,2,3,0,0,0,3,8,13,26,29,12,4,15,19,29,0,4]"

definition FIRST :: "int list" where
  "FIRST = [0,0,0,0,0,0,20,92,248,508,1016,2042,4090,8184,16380,32764,65534,131068,262136,524272,
    1048550,2097116,4194258,8388568,16777194,33554412,67108832,134217694,268435426,536870910,
    1073741820]"

definition START :: "int list" where
  "START = [0,0,0,0,0,0,10,36,68,74,74,79,82,84,90,92,95,95,95,95,98,106,119,145,174,186,190,205,
    224,253,253]"

definition high :: "nat \<Rightarrow> int" where
  "high n = (FIRST ! n + CNT ! n) * 2 ^ (64 - n)"

abbreviation code_len :: "nat \<Rightarrow> nat" where "code_len v \<equiv> sym_length (TABLE ! v)"
abbreviation code_num :: "nat \<Rightarrow> int" where "code_num v \<equiv> uint (sym_code (TABLE ! v))"

text \<open>The rank of a symbol: how many symbols before it have a code word of its length.\<close>

definition rank :: "nat \<Rightarrow> nat" where
  "rank v = length (filter (\<lambda>s. sym_length s = code_len v) (take v TABLE))"

text \<open>
  The code is canonical: walking the table, each code word is the next one of its length.
\<close>

primrec canon_from :: "int list \<Rightarrow> huff_symbol list \<Rightarrow> int list option" where
  "canon_from filled [] = Some filled"
| "canon_from filled (s # ss) = (let n = sym_length s in
     if 5 \<le> n \<and> n \<le> 30 \<and> uint (sym_code s) = FIRST ! n + filled ! n
     then canon_from (filled[n := filled ! n + 1]) ss else None)"

lemma canon_TABLE: "canon_from (replicate 31 0) TABLE = Some CNT"
  by code_simp

lemma canon_fromD:
  assumes "canon_from filled ss = Some out" "length filled = 31"
  shows "\<forall>s\<in>set ss. 5 \<le> sym_length s \<and> sym_length s \<le> 30"
    and "v < length ss \<Longrightarrow> uint (sym_code (ss ! v)) = FIRST ! sym_length (ss ! v) + filled ! sym_length (ss ! v)
      + int (length (filter (\<lambda>s. sym_length s = sym_length (ss ! v)) (take v ss)))"
    and "n < 31 \<Longrightarrow> out ! n = filled ! n + int (length (filter (\<lambda>s. sym_length s = n) ss))"
  using assms
proof (induction ss arbitrary: filled v)
  case (Cons s ss)
  { case 1 with Cons.IH(1) show ?case by (fastforce simp: Let_def split: if_splits) }
  { case 2 then show ?case
    proof (cases v)
      case (Suc u)
      with 2 Cons.IH(2) [of u "filled[sym_length s := filled ! sym_length s + 1]"] show ?thesis
        by (auto simp: Let_def nth_list_update split: if_splits)
    qed (auto simp: Let_def split: if_splits) }
  { case 3 with Cons.IH(3) [of "filled[sym_length s := filled ! sym_length s + 1]"] show ?case
      by (auto simp: Let_def nth_list_update split: if_splits) }
qed simp_all

lemma code_len_bounds [simp]:
  assumes "v < 257"
  shows "5 \<le> code_len v" "code_len v \<le> 30" "code_len v < 31"
proof -
  have "TABLE ! v \<in> set TABLE" using assms by (simp add: length_TABLE)
  then have "5 \<le> code_len v \<and> code_len v \<le> 30" using canon_fromD(1) [OF canon_TABLE] by simp
  then show "5 \<le> code_len v" "code_len v \<le> 30" "code_len v < 31" by simp_all
qed

lemma code_num_rank: "v < 257 \<Longrightarrow> code_num v = FIRST ! code_len v + int (rank v)"
  using canon_fromD(2) [OF canon_TABLE, of v] by (simp add: rank_def length_TABLE)

lemma CNT_count: "n < 31 \<Longrightarrow> CNT ! n = int (length (filter (\<lambda>s. sym_length s = n) TABLE))"
  using canon_fromD(3) [OF canon_TABLE, of n] by simp

lemma rank_less: "v < 257 \<Longrightarrow> int (rank v) < CNT ! code_len v"
proof -
  assume v: "v < 257"
  then have "TABLE = take v TABLE @ TABLE ! v # drop (Suc v) TABLE"
    by (simp add: length_TABLE id_take_nth_drop)
  then have "filter (\<lambda>s. sym_length s = code_len v) TABLE = filter (\<lambda>s. sym_length s = code_len v) (take v TABLE)
      @ TABLE ! v # filter (\<lambda>s. sym_length s = code_len v) (drop (Suc v) TABLE)"
    by (metis (mono_tags, lifting) filter.simps(2) filter_append)
  with v show ?thesis by (simp add: rank_def CNT_count)
qed

lemma rank_Suc_mono:
  assumes "u < v" "v < 257" "code_len u = code_len v"
  shows "rank u < rank v"
proof -
  have "take v TABLE = take u TABLE @ TABLE ! u # drop (Suc u) (take v TABLE)"
    using assms id_take_nth_drop [of u "take v TABLE"] by (simp add: length_TABLE min_def)
  then have "filter (\<lambda>s. sym_length s = code_len v) (take v TABLE) = filter (\<lambda>s. sym_length s = code_len v) (take u TABLE)
      @ TABLE ! u # filter (\<lambda>s. sym_length s = code_len v) (drop (Suc u) (take v TABLE))"
    using assms(3) by (metis (mono_tags, lifting) filter.simps(2) filter_append)
  then show ?thesis using assms(3) by (simp add: rank_def)
qed

lemma rank_inj: "u < 257 \<Longrightarrow> v < 257 \<Longrightarrow> code_len u = code_len v \<Longrightarrow> rank u = rank v \<Longrightarrow> u = v"
  using rank_Suc_mono [of u v] rank_Suc_mono [of v u] by (cases u v rule: linorder_cases) auto

text \<open>Every rank below the count of a length is taken.\<close>

lemma rank_onto:
  assumes "n < 31" "0 \<le> k" "k < CNT ! n"
  obtains v where "v < 257" "code_len v = n" "int (rank v) = k"
proof -
  have ex: "j < length (filter P xs) \<Longrightarrow> \<exists>v<length xs. P (xs ! v) \<and> length (filter P (take v xs)) = j"
    for j P and xs :: "huff_symbol list"
  proof (induction xs arbitrary: j)
    case (Cons x xs)
    show ?case
    proof (cases "P x \<and> j = 0")
      case False
      with Cons.prems have "(if P x then j - 1 else j) < length (filter P xs)" by auto
      from Cons.IH [OF this] obtain v where "v < length xs" "P (xs ! v)"
        "length (filter P (take v xs)) = (if P x then j - 1 else j)" by blast
      with False show ?thesis by (intro exI [of _ "Suc v"]) (auto split: if_splits)
    qed (rule exI [of _ 0], simp)
  qed simp
  have "nat k < length (filter (\<lambda>s. sym_length s = n) TABLE)" using assms by (simp add: CNT_count)
  from ex [OF this] obtain v where "v < 257" "code_len v = n"
    "length (filter (\<lambda>s. sym_length s = n) (take v TABLE)) = nat k" by (auto simp: length_TABLE)
  then show ?thesis using assms(2) by (intro that [of v]) (simp_all add: rank_def)
qed

text \<open>A loop over the indices of the table is a loop over its entries.\<close>

lemma fold_index_take:
  "n \<le> length xs \<Longrightarrow> fold (\<lambda>i. f (xs ! i)) [0..<n] s = fold f (take n xs) s"
  by (induction n) (simp_all add: take_Suc_conv_app_nth)

lemma count_fold:
  assumes "n < length c" "\<forall>s\<in>set xs. sym_length s < length c"
  shows "fold (\<lambda>s count. count[sym_length s := count ! sym_length s + 1]) xs c ! n
    = (c ! n + word_of_nat (length (filter (\<lambda>s. sym_length s = n) xs)) :: u16)"
  using assms by (induction xs arbitrary: c) (auto simp: nth_list_update)

lemma length_count_fold:
  "length (fold (\<lambda>s count. count[sym_length s := count ! sym_length s + 1]) xs c) = length c"
  by (induction xs arbitrary: c) auto

lemma code_counts_TABLE: "code_counts TABLE = map word_of_int CNT"
proof -
  have take: "take 257 TABLE = TABLE" by (simp add: length_TABLE)
  have eq: "code_counts TABLE = fold (\<lambda>s count. count[sym_length s := count ! sym_length s + 1]) TABLE (replicate 31 0)"
    unfolding code_counts_def Let_def canonical_sizes
    using fold_index_take [of 257 TABLE "\<lambda>s count. count[sym_length s := count ! sym_length s + 1]"]
    by (simp add: length_TABLE take)
  have CNT: "length CNT = 31" by (simp add: CNT_def)
  show ?thesis
  proof (rule nth_equalityI, goal_cases)
    case 1
    then show ?case by (simp add: eq length_count_fold CNT)
  next
    case (2 n)
    then have "n < 31" by (simp add: eq length_count_fold)
    moreover have "\<forall>s\<in>set TABLE. sym_length s < 31" using canon_fromD(1) [OF canon_TABLE] by fastforce
    ultimately show ?case by (simp add: eq count_fold CNT CNT_count)
  qed
qed

lemma code_ranges_values:
  "case code_ranges (map word_of_int CNT) of (code, index, base, offset, limit) \<Rightarrow>
     base = map word_of_int FIRST \<and> offset = map word_of_int START \<and> length limit = 31 \<and>
     list_all (\<lambda>n. uint (limit ! n) + 1 = high n) [5..<31]"
  by code_simp

text \<open>The ranges follow one another without a gap and end at the top.\<close>

lemma ranges_values:
  "list_all (\<lambda>n. FIRST ! n * 2 ^ (64 - n) = high (n - 1) \<and> 0 \<le> FIRST ! n \<and> 0 \<le> CNT ! n \<and>
     FIRST ! n + CNT ! n \<le> 2 ^ n \<and> 0 \<le> START ! n \<and> START ! n + CNT ! n \<le> 257) [1..<31]"
  "list_all (\<lambda>n. list_all (\<lambda>m. START ! n + CNT ! n \<le> START ! m) [n + 1..<31]) [0..<31]"
  "high 0 = 0" "high 30 = 2 ^ 64"
  by code_simp+

end
