(* ===== verification/Huffman_Spells.thy ===== *)
theory Huffman_Spells
  imports Huffman_Canonical
begin

section \<open>Every lookup finds the code word\<close>

text \<open>
  \<open>spells w v\<close>: the top bits of the window \<open>w\<close> are the code word of symbol \<open>v\<close>. Each window
  spells exactly one symbol, and \<open>long\<close>, \<open>symbol\<close> and \<open>pairs\<close> answer that symbol.
\<close>

definition spells :: "u64 \<Rightarrow> nat \<Rightarrow> bool" where
  "spells w v \<longleftrightarrow> v < 257 \<and> uint w div 2 ^ (64 - code_len v) = code_num v"

subsection \<open>The windows are tiled\<close>

lemma ranges:
  assumes "1 \<le> n" "n \<le> 30"
  shows "FIRST ! n * 2 ^ (64 - n) = high (n - 1)" "0 \<le> FIRST ! n" "0 \<le> CNT ! n"
    "FIRST ! n + CNT ! n \<le> 2 ^ n" "0 \<le> START ! n" "START ! n + CNT ! n \<le> 257"
  using ranges_values(1) assms by (simp_all add: list_all_iff)

lemma START_mono: "m < n \<Longrightarrow> n < 31 \<Longrightarrow> START ! m + CNT ! m \<le> START ! n"
  using ranges_values(2) by (simp add: list_all_iff)

lemma high_step: "1 \<le> n \<Longrightarrow> n \<le> 30 \<Longrightarrow> high (n - 1) \<le> high n"
proof -
  assume n: "1 \<le> n" "n \<le> 30"
  have "FIRST ! n * 2 ^ (64 - n) \<le> (FIRST ! n + CNT ! n) * 2 ^ (64 - n)"
    using ranges(3) [OF n] by (intro mult_right_mono) auto
  then show ?thesis using ranges(1) [OF n] by (simp add: high_def)
qed

lemma high_mono: "m \<le> n \<Longrightarrow> n \<le> 30 \<Longrightarrow> high m \<le> high n"
proof (induction n rule: dec_induct)
  case (step n)
  then show ?case using high_step [of "Suc n"] by simp
qed simp

lemma div_less_iff:
  fixes q :: int
  assumes "0 < q"
  shows "a div q < f \<longleftrightarrow> a < f * q"
proof
  have eq: "a = a div q * q + a mod q" "0 \<le> a mod q" "a mod q < q" using assms by simp_all
  show "a < f * q" if "a div q < f"
  proof -
    have "(a div q + 1) * q \<le> f * q" using that assms by (intro mult_right_mono) auto
    then have "a div q * q + q \<le> f * q" by (simp add: distrib_right)
    then show ?thesis using eq by linarith
  qed
  show "a div q < f" if "a < f * q"
  proof (rule ccontr)
    assume "\<not> a div q < f"
    then have "f * q \<le> a div q * q" using assms by (intro mult_right_mono) auto
    with that eq show False by linarith
  qed
qed

lemma le_div_iff: "0 < q \<Longrightarrow> f \<le> a div q \<longleftrightarrow> f * q \<le> a" for q :: int
  using div_less_iff [of q a f] by (simp add: not_less [symmetric])

text \<open>A window spells a symbol exactly when it lies in the range of its length.\<close>

lemma spells_range:
  assumes "spells w v"
  shows "high (code_len v - 1) \<le> uint w" "uint w < high (code_len v)"
proof -
  let ?n = "code_len v" and ?q = "2 ^ (64 - code_len v) :: int"
  have v: "v < 257" and num: "uint w div ?q = code_num v" using assms by (auto simp: spells_def)
  have n: "1 \<le> ?n" "?n \<le> 30" using code_len_bounds [OF v] by auto
  have "FIRST ! ?n \<le> code_num v" "code_num v + 1 \<le> FIRST ! ?n + CNT ! ?n"
    using code_num_rank [OF v] rank_less [OF v] by simp_all
  moreover have "code_num v * ?q \<le> uint w" "uint w < (code_num v + 1) * ?q"
    using le_div_iff [of ?q "code_num v" "uint w"] div_less_iff [of ?q "uint w" "code_num v + 1"] num by simp_all
  ultimately have "FIRST ! ?n * ?q \<le> uint w" "uint w < (FIRST ! ?n + CNT ! ?n) * ?q"
    by (meson order_trans less_le_trans mult_right_mono zero_le_numeral zero_le_power)+
  then show "high (?n - 1) \<le> uint w" "uint w < high ?n" using ranges(1) [OF n] by (simp_all add: high_def)
qed

lemma range_spells:
  assumes "1 \<le> n" "n \<le> 30" "high (n - 1) \<le> uint w" "uint w < high n"
  obtains v where "spells w v" "code_len v = n" "int (rank v) = uint w div 2 ^ (64 - n) - FIRST ! n"
proof -
  let ?q = "2 ^ (64 - n) :: int"
  have "FIRST ! n * ?q \<le> uint w" "uint w < (FIRST ! n + CNT ! n) * ?q"
    using assms ranges(1) [of n] by (simp_all add: high_def)
  then have "FIRST ! n \<le> uint w div ?q" "uint w div ?q < FIRST ! n + CNT ! n"
    by (simp_all add: le_div_iff div_less_iff)
  then obtain v where "v < 257" "code_len v = n" "int (rank v) = uint w div ?q - FIRST ! n"
    using assms rank_onto [of n "uint w div ?q - FIRST ! n"] by auto
  then show ?thesis by (intro that [of v]) (simp_all add: spells_def code_num_rank)
qed

lemma spells_exists: "\<exists>v. spells w v"
proof -
  have top: "uint w < high 30" using uint_lt2p [of w] by (simp add: ranges_values(4))
  define n where "n = (LEAST n. uint w < high n)"
  have n: "uint w < high n" "n \<le> 30" and least: "\<And>m. m < n \<Longrightarrow> \<not> uint w < high m"
    unfolding n_def using top by (auto intro: LeastI Least_le dest: not_less_Least)
  moreover have "n \<noteq> 0" using n by (metis ranges_values(3) uint_0_iff uint_ge_0 not_le)
  ultimately show ?thesis using range_spells [of n w] by (metis One_nat_def Suc_leI diff_less neq0_conv not_le zero_less_one)
qed

lemma spells_len:
  assumes "spells w v" "m < code_len v"
  shows "high m \<le> uint w"
proof -
  have "v < 257" using assms(1) by (simp add: spells_def)
  then have "high m \<le> high (code_len v - 1)" using assms(2) code_len_bounds(2) [of v]
    by (intro high_mono) linarith+
  then show ?thesis using spells_range(1) [OF assms(1)] by simp
qed

lemma spells_unique: "spells w u \<Longrightarrow> spells w v \<Longrightarrow> u = v"
proof (rule ccontr)
  assume uv: "spells w u" "spells w v" "u \<noteq> v"
  have "code_len u = code_len v"
    using spells_len [OF uv(1), of "code_len v"] spells_len [OF uv(2), of "code_len u"]
      spells_range(2) [OF uv(1)] spells_range(2) [OF uv(2)] by linarith
  moreover have "rank u = rank v" using uv code_num_rank [of u] code_num_rank [of v] \<open>code_len u = code_len v\<close>
    by (auto simp: spells_def)
  ultimately show False using uv rank_inj [of u v] by (auto simp: spells_def)
qed

subsection \<open>The arrays\<close>

text \<open>The place of a symbol in canonical order.\<close>

definition place :: "nat \<Rightarrow> nat" where
  "place v = nat (START ! code_len v) + rank v"

lemma START_nonneg: "n < 31 \<Longrightarrow> 0 \<le> START ! n"
  using ranges(5) [of n] by (cases n) (auto simp: START_def)

lemma place_int: "v < 257 \<Longrightarrow> int (place v) = START ! code_len v + int (rank v)"
  using START_nonneg [of "code_len v"] by (simp add: place_def)

lemma place_less:
  assumes "v < 257"
  shows "place v < 257"
proof -
  have "START ! code_len v + CNT ! code_len v \<le> 257" using code_len_bounds [OF assms] by (intro ranges) auto
  then show ?thesis using rank_less [OF assms] place_int [OF assms] by linarith
qed

lemma place_inj:
  assumes "u < 257" "v < 257" "place u = place v"
  shows "u = v"
proof -
  have "\<not> code_len x < code_len y" if "x < 257" "y < 257" "place x = place y" for x y
  proof
    assume "code_len x < code_len y"
    then have "START ! code_len x + CNT ! code_len x \<le> START ! code_len y"
      using that by (intro START_mono) auto
    then show False using that place_int [of x] place_int [of y] rank_less [of x] by linarith
  qed
  then have "code_len u = code_len v" using assms by (metis linorder_neqE_nat)
  then show ?thesis using assms rank_inj [of u v] by (simp add: place_def)
qed

lemma length_ranges [simp]: "length CNT = 31" "length FIRST = 31" "length START = 31"
  by (simp_all add: CNT_def FIRST_def START_def)

lemma place_symbol_fold:
  assumes "m \<le> 257"
  shows "case fold (place_symbol TABLE (map word_of_int START)) [0..<m] (replicate 257 0, replicate 31 0) of
    (symbols, filled) \<Rightarrow> length symbols = 257 \<and> length filled = 31 \<and>
      (\<forall>n<31. filled ! n = word_of_nat (length (filter (\<lambda>s. sym_length s = n) (take m TABLE)))) \<and>
      (\<forall>v<m. symbols ! place v = word_of_nat v)"
  using assms
proof (induction m)
  case (Suc m)
  obtain symbols filled where fold:
    "fold (place_symbol TABLE (map word_of_int START)) [0..<m] (replicate 257 0, replicate 31 0) = (symbols, filled)"
    by fastforce
  have len: "length symbols = 257" "length filled = 31"
    and filled: "\<And>n. n < 31 \<Longrightarrow> filled ! n = word_of_nat (length (filter (\<lambda>s. sym_length s = n) (take m TABLE)))"
    and symbols: "\<And>v. v < m \<Longrightarrow> symbols ! place v = word_of_nat v"
    using Suc by (auto simp: fold)
  have m: "m < 257" and take: "take (Suc m) TABLE = take m TABLE @ [TABLE ! m]"
    using Suc.prems by (simp_all add: length_TABLE take_Suc_conv_app_nth)
  have "map word_of_int START ! code_len m + filled ! code_len m = (word_of_nat (place m) :: u16)"
    using m START_nonneg [of "code_len m"] by (simp add: filled place_def rank_def)
  then have at: "unat (map word_of_int START ! code_len m + filled ! code_len m) = place m"
    using place_less [OF m] by (simp add: unat_of_nat)
  have other: "place v \<noteq> place m" if "v < m" for v using place_inj [of v m] that m by force
  have fold': "fold (place_symbol TABLE (map word_of_int START)) [0..<Suc m] (replicate 257 0, replicate 31 0) =
    (symbols[place m := word_of_nat m], filled[code_len m := filled ! code_len m + 1])"
    using fold at by (simp add: place_symbol_def [of _ _ m] Let_def)
  show ?case unfolding fold'
    using m len by (auto simp: other [symmetric] filled symbols take place_less nth_list_update less_Suc_eq)
qed simp

lemma code_symbols_place:
  assumes "v < 257"
  shows "code_symbols TABLE (map word_of_int START) ! place v = word_of_nat v"
  using place_symbol_fold [of 257] assms by (auto simp: code_symbols_def canonical_sizes split: prod.splits)

lemma CANONICAL_fields:
  "can_base CANONICAL = map word_of_int FIRST"
  "can_offset CANONICAL = map word_of_int START"
  "can_symbols CANONICAL = code_symbols TABLE (map word_of_int START)"
  "can_fast CANONICAL = code_fast TABLE"
  "can_pairs CANONICAL = map (pair_entry (can_fast CANONICAL) (can_limit CANONICAL) (can_base CANONICAL)
     (can_offset CANONICAL) (can_symbols CANONICAL)) [0..<PAIR_SIZE]"
  using code_ranges_values
  by (auto simp: CANONICAL_def canonical_new_def code_counts_TABLE Let_def split: prod.splits)

lemma CANONICAL_limit:
  assumes "5 \<le> n" "n \<le> 30"
  shows "uint (can_limit CANONICAL ! n) + 1 = high n"
proof -
  obtain code index base offset limit where c: "code_ranges (map word_of_int CNT) = (code, index, base, offset, limit)"
    by (metis prod.exhaust)
  then have "list_all (\<lambda>n. uint (limit ! n) + 1 = high n) [5..<31]" using code_ranges_values by simp
  then have "\<forall>n\<in>{5..<31}. uint (limit ! n) + 1 = high n" unfolding list_all_iff set_upt .
  moreover have "n \<in> {5..<31}" using assms by auto
  ultimately have "uint (limit ! n) + 1 = high n" by blast
  then show ?thesis by (simp add: CANONICAL_def canonical_new_def code_counts_TABLE c Let_def)
qed

subsection \<open>The lookups\<close>

lemma above_limit:
  assumes "5 \<le> n" "n \<le> 30"
  shows "can_limit CANONICAL ! n < w \<longleftrightarrow> high n \<le> uint w"
  using CANONICAL_limit [OF assms] unfolding word_less_def by linarith

text \<open>The walk over the limits stops at the length of the code word, from any shorter one.\<close>

lemma reach_spells:
  assumes "spells w v" "5 \<le> n" "n \<le> code_len v"
  shows "reach (can_limit CANONICAL) w n = code_len v"
  using assms(2,3)
proof (induction "code_len v - n" arbitrary: n)
  case 0
  have "code_len v \<le> 30" using assms(1) by (simp add: spells_def)
  then have "\<not> can_limit CANONICAL ! code_len v < w"
    using 0 spells_range(2) [OF assms(1)] by (subst above_limit) auto
  moreover have "n = code_len v" using 0 by simp
  ultimately show ?case by (subst reach.simps) simp
next
  case (Suc k)
  have "code_len v \<le> 30" using assms(1) by (simp add: spells_def)
  moreover have "high n \<le> uint w" using Suc by (intro spells_len [OF assms(1)]) auto
  moreover have "reach (can_limit CANONICAL) w (n + 1) = code_len v" using Suc by (intro Suc.hyps(1)) auto
  ultimately show ?case using Suc by (subst reach.simps) (simp add: above_limit canonical_sizes)
qed

lemma uint_drop: "uint (drop_bit k w) = uint w div 2 ^ k" for w :: "'a::len word"
proof -
  have "take_bit LENGTH('a) (uint w) = uint w" by (simp add: take_bit_int_eq_self_iff)
  then show ?thesis by (subst unsigned_drop_bit_eq) (simp only: drop_bit_eq_div)
qed

lemma spells_index:
  assumes "spells w v"
  shows "can_symbols CANONICAL ! (unat (can_offset CANONICAL ! code_len v)
    + unat (ucast (drop_bit (64 - code_len v) w) - can_base CANONICAL ! code_len v :: u32)) = word_of_nat v"
proof -
  let ?n = "code_len v"
  have v: "v < 257" and num: "uint w div 2 ^ (64 - ?n) = code_num v" using assms by (auto simp: spells_def)
  have "uint (drop_bit (64 - ?n) w) = code_num v"
    using num by (simp add: uint_drop)
  then have "(ucast (drop_bit (64 - ?n) w) :: u32) = word_of_int (code_num v)"
    by (metis ucast_eq)
  then have "ucast (drop_bit (64 - ?n) w) - can_base CANONICAL ! ?n = (word_of_nat (rank v) :: u32)"
    using v by (simp add: CANONICAL_fields code_num_rank)
  moreover have "rank v < 257" using place_less [OF v] by (simp add: place_def)
  moreover have "unat (word_of_int (START ! ?n) :: u16) = nat (START ! ?n)"
    using v place_less [OF v] START_nonneg [of ?n] place_int [OF v]
    by (simp add: unat_eq_nat_uint uint_word_of_int_eq take_bit_int_eq_self)
  ultimately show ?thesis using v code_symbols_place [OF v]
    by (simp add: CANONICAL_fields unat_of_nat place_def)
qed

lemma long_spells:
  assumes "spells w v" "FAST_BITS < code_len v"
  shows "long_symbol CANONICAL w = (word_of_nat v, code_len v)"
  using reach_spells [OF assms(1), of "FAST_BITS + 1"] spells_index [OF assms(1)] assms(2)
  by (simp add: long_symbol_def canonical_sizes Let_def)

text \<open>What \<open>spells\<close> says, bit by bit.\<close>

lemma code_num_less:
  assumes "v < 257"
  shows "code_num v < 2 ^ code_len v"
proof -
  have "FIRST ! code_len v + CNT ! code_len v \<le> 2 ^ code_len v"
    using code_len_bounds [OF assms] by (intro ranges) auto
  then show ?thesis using code_num_rank [OF assms] rank_less [OF assms] by linarith
qed

lemma code_bit_high:
  assumes "v < 257" "code_len v \<le> i"
  shows "\<not> bit (sym_code (TABLE ! v)) i"
proof -
  have "(2 :: int) ^ code_len v \<le> 2 ^ i" using assms(2) by (rule power_increasing) simp
  then have "code_num v < 2 ^ i" using code_num_less [OF assms(1)] by linarith
  then have "code_num v div 2 ^ i = 0" by simp
  then have "\<not> bit (code_num v) i" by (simp add: bit_iff_odd)
  then show ?thesis using bit_imp_le_length [of "sym_code (TABLE ! v)" i] by (auto simp: bit_uint_iff)
qed

lemma uint_widen: "uint (ucast c :: u64) = uint (c :: u32)"
  by (simp add: uint_up_ucast is_up)

lemma spells_drop:
  "spells w v \<longleftrightarrow> v < 257 \<and> drop_bit (64 - code_len v) w = ucast (sym_code (TABLE ! v))"
  unfolding spells_def uint_drop [symmetric] by (metis word_uint_eq_iff uint_widen)

lemma all_less_reverse: "(\<forall>j<n. P j) \<longleftrightarrow> (\<forall>i<n. P (n - 1 - i))" for n :: nat
proof -
  have "j < n \<Longrightarrow> P j" if "\<forall>i<n. P (n - 1 - i)" for j
    using that [rule_format, of "n - 1 - j"] by simp
  then show ?thesis by auto
qed

lemma spells_bits:
  "spells w v \<longleftrightarrow> v < 257 \<and>
     (\<forall>i<code_len v. bit w (63 - i) \<longleftrightarrow> bit (sym_code (TABLE ! v)) (code_len v - 1 - i))"
proof (cases "v < 257")
  case True
  let ?n = "code_len v" and ?c = "sym_code (TABLE ! v)"
  have n: "5 \<le> ?n" "?n \<le> 30" using True by simp_all
  have same: "bit w (64 - ?n + j) \<longleftrightarrow> bit ?c j" if "?n \<le> j" for j
    using n that code_bit_high [OF True that] bit_imp_le_length [of w "64 - ?n + j"] by auto
  have len: "?n \<le> 64" using n by simp
  have "drop_bit (64 - ?n) w = ucast ?c \<longleftrightarrow> (\<forall>j<64. bit w (64 - ?n + j) \<longleftrightarrow> bit ?c j)"
    by (auto simp: bit_eq_iff bit_simps dest: bit_imp_le_length)
  also have "\<dots> \<longleftrightarrow> (\<forall>j<?n. bit w (64 - ?n + j) \<longleftrightarrow> bit ?c j)"
    by (meson same less_le_trans not_le len)
  also have "\<dots> \<longleftrightarrow> (\<forall>i<?n. bit w (63 - i) \<longleftrightarrow> bit ?c (?n - 1 - i))"
  proof -
    have "64 - ?n + (?n - 1 - i) = 63 - i" if "i < ?n" for i using n that by simp
    then show ?thesis by (subst all_less_reverse) auto
  qed
  finally show ?thesis using True by (simp add: spells_drop)
qed (simp add: spells_def)

text \<open>Windows that agree on their top \<open>m\<close> bits spell the same symbol when it fits those.\<close>

definition agree :: "nat \<Rightarrow> u64 \<Rightarrow> u64 \<Rightarrow> bool" where
  "agree m a b \<longleftrightarrow> (\<forall>i<m. bit a (63 - i) \<longleftrightarrow> bit b (63 - i))"

lemma spells_agree: "agree m a b \<Longrightarrow> code_len v \<le> m \<Longrightarrow> spells a v \<longleftrightarrow> spells b v"
  by (auto simp: spells_bits agree_def)

lemma agree_push:
  assumes "agree m a b" "n \<le> m" "m \<le> 64"
  shows "agree (m - n) (push_bit n a) (push_bit n b)"
  unfolding agree_def
proof safe
  fix i assume i: "i < m - n"
  then have "63 - i - n = 63 - (i + n)" "i + n < m" by simp_all
  then have "bit a (63 - i - n) = bit b (63 - i - n)" using assms(1) by (simp add: agree_def)
  then show "bit (push_bit n a) (63 - i) \<Longrightarrow> bit (push_bit n b) (63 - i)"
    "bit (push_bit n b) (63 - i) \<Longrightarrow> bit (push_bit n a) (63 - i)" by (simp_all add: bit_simps)
qed

lemma agree_top: "m \<le> 64 \<Longrightarrow> agree m (push_bit (64 - m) (drop_bit (64 - m) w)) w"
  by (auto simp: agree_def bit_simps)

subsection \<open>The lookup of short code words\<close>

definition covers :: "nat \<Rightarrow> nat \<Rightarrow> bool" where
  "covers v p \<longleftrightarrow> code_len v \<le> 8 \<and> p div 2 ^ (8 - code_len v) = unat (sym_code (TABLE ! v))"

definition fast_entry :: "nat \<Rightarrow> u16" where
  "fast_entry v = push_bit 8 (word_of_nat v) OR word_of_nat (code_len v)"

lemma fold_fill:
  assumes "p < length xs"
  shows "length (fold (\<lambda>slot xs. xs[a + slot := x]) [0..<k] xs) = length xs \<and>
     fold (\<lambda>slot xs. xs[a + slot := x]) [0..<k] xs ! p = (if a \<le> p \<and> p < a + k then x else xs ! p)"
proof (induction k)
  case (Suc k)
  then show ?case using assms by (cases "p = a + k") (auto simp: less_Suc_eq)
qed (use assms in auto)

lemma nat_div_eq_iff: "0 < q \<Longrightarrow> p div q = c \<longleftrightarrow> c * q \<le> p \<and> p < c * q + q" for p q c :: nat
  using less_eq_div_iff_mult_less_eq [of q c p] div_less_iff_less_mult [of q p "c + 1"] by auto

lemma spread_symbol_at:
  assumes "length fast = 256" "p < 256"
  shows "spread_symbol TABLE v fast ! p = (if covers v p then fast_entry v else fast ! p)"
    and "length (spread_symbol TABLE v fast) = 256"
proof -
  let ?q = "2 ^ (8 - code_len v) :: nat" and ?c = "unat (sym_code (TABLE ! v))"
  have "?c * ?q \<le> p \<and> p < ?c * ?q + ?q \<longleftrightarrow> p div ?q = ?c" by (subst nat_div_eq_iff) auto
  then show "spread_symbol TABLE v fast ! p = (if covers v p then fast_entry v else fast ! p)"
    using assms fold_fill [of p fast "?c * ?q" "fast_entry v" ?q]
    by (auto simp: spread_symbol_def covers_def fast_entry_def canonical_sizes Let_def)
  show "length (spread_symbol TABLE v fast) = 256"
    using assms fold_fill [of p fast "?c * ?q" "fast_entry v" ?q]
    by (auto simp: spread_symbol_def fast_entry_def canonical_sizes Let_def)
qed

lemma fast_fold:
  assumes "p < 256"
  shows "length (fold (spread_symbol TABLE) [0..<m] (replicate 256 0)) = 256 \<and>
    ((\<forall>v<m. \<not> covers v p) \<and> fold (spread_symbol TABLE) [0..<m] (replicate 256 0) ! p = 0 \<or>
     (\<exists>v<m. covers v p \<and> fold (spread_symbol TABLE) [0..<m] (replicate 256 0) ! p = fast_entry v))"
  using assms by (induction m) (auto simp: spread_symbol_at less_Suc_eq)

lemma covers_spells:
  assumes "v < 257"
  shows "covers v (unat (drop_bit 56 w)) \<longleftrightarrow> code_len v \<le> 8 \<and> spells w v"
proof -
  have "unat (drop_bit 56 w) div 2 ^ (8 - code_len v) = unat (drop_bit (64 - code_len v) w)" if "code_len v \<le> 8"
  proof -
    have "drop_bit (64 - code_len v) w = drop_bit (8 - code_len v) (drop_bit 56 w)"
      using that by (simp only: drop_bit_drop_bit) simp
    then show ?thesis by (simp only: unat_drop_bit_eq) (simp only: drop_bit_eq_div)
  qed
  moreover have "unat (ucast c :: u64) = unat c" for c :: u32 by (simp only: unat_eq_nat_uint uint_widen)
  moreover have "x = y \<longleftrightarrow> unat x = unat y" for x y :: u64 by (rule word_unat_eq_iff)
  ultimately have "covers v (unat (drop_bit 56 w)) \<longleftrightarrow>
      code_len v \<le> 8 \<and> drop_bit (64 - code_len v) w = ucast (sym_code (TABLE ! v))"
    unfolding covers_def by metis
  then show ?thesis using assms unfolding spells_drop by blast
qed

lemma code_len_EOS: "code_len EOS = 30"
  by (simp add: EOS_def TABLE_def TABLE_ascii_def TABLE_high_def)

lemma code_len_short: "v < 257 \<Longrightarrow> code_len v < 30 \<Longrightarrow> v < 256"
  using code_len_EOS by (cases "v = 256") (auto simp: EOS_def)

text \<open>A table entry packs octets; each is read back.\<close>

lemma low_octet: "(0xff :: u16) = mask 8" by (simp add: mask_eq_decr_exp)

lemma pack_u16:
  fixes a b :: octet
  shows "drop_bit 8 (push_bit 8 (ucast a) OR ucast b) = (ucast a :: u16)"
    "(push_bit 8 (ucast a) OR ucast b) AND 0xff = (ucast b :: u16)"
  unfolding low_octet by (rule bit_word_eqI; auto simp: bit_simps dest: bit_imp_le_length)+

lemma octet_of_nat:
  assumes "n < 256"
  shows "(word_of_nat n :: u16) = ucast (word_of_nat n :: octet)"
    "(word_of_nat n :: u32) = ucast (word_of_nat n :: octet)"
proof -
  have "unat (word_of_nat n :: octet) = n" using assms by (simp add: unat_of_nat)
  then show "(word_of_nat n :: u16) = ucast (word_of_nat n :: octet)"
    "(word_of_nat n :: u32) = ucast (word_of_nat n :: octet)" by (metis of_nat_unat)+
qed

lemma fast_entry_parts:
  assumes "v < 257" "code_len v \<le> 8"
  shows "drop_bit 8 (fast_entry v) = word_of_nat v" "fast_entry v AND 0xff = word_of_nat (code_len v)"
    "unat (fast_entry v AND 0xff) = code_len v" "fast_entry v AND 0xff \<noteq> 0"
proof -
  have v: "v < 256" using assms by (intro code_len_short) auto
  show "drop_bit 8 (fast_entry v) = word_of_nat v" "fast_entry v AND 0xff = word_of_nat (code_len v)"
    using v assms unfolding fast_entry_def by (simp_all only: octet_of_nat pack_u16)
  then show "unat (fast_entry v AND 0xff) = code_len v" using assms by (simp add: unat_of_nat)
  then show "fast_entry v AND 0xff \<noteq> 0" using code_len_bounds(1) [OF assms(1)] by (metis not_numeral_le_zero unsigned_0)
qed

lemma drop_to_octet: "unat (drop_bit 56 (w :: u64)) < 256"
proof -
  have "unat w < 2 ^ LENGTH(64)" by (rule unsigned_less)
  then have "unat w div 2 ^ 56 < 256" by (intro less_mult_imp_div_less) simp
  then show ?thesis by (subst unat_drop_bit_eq) (simp only: drop_bit_eq_div)
qed

lemma fast_spells:
  assumes "spells w v"
  shows "can_fast CANONICAL ! unat (drop_bit 56 w) = (if code_len v \<le> 8 then fast_entry v else 0)"
proof -
  have v: "v < 257" using assms by (simp add: spells_def)
  have p: "unat (drop_bit 56 w) < 256"
    by (rule drop_to_octet)
  have unique: "u = v" if "u < 257" "covers u (unat (drop_bit 56 w))" for u
    using that assms covers_spells spells_unique by blast
  let ?x = "can_fast CANONICAL ! unat (drop_bit 56 w)"
  have x: "?x = fold (spread_symbol TABLE) [0..<257] (replicate 256 0) ! unat (drop_bit 56 w)"
    by (simp only: CANONICAL_fields code_fast_def canonical_sizes) simp
  have short: "code_len v \<le> 8 \<longleftrightarrow> covers v (unat (drop_bit 56 w))" using v assms by (simp only: covers_spells simp_thms)
  from fast_fold [OF p, of 257]
  consider "\<forall>u<257. \<not> covers u (unat (drop_bit 56 w))" "?x = 0"
    | u where "u < 257" "covers u (unat (drop_bit 56 w))" "?x = fast_entry u" unfolding x by blast
  then show ?thesis
  proof cases
    case 1
    then show ?thesis using short v by simp
  next
    case 2
    then show ?thesis using short unique [of u] by simp
  qed
qed

lemma symbol_spells:
  assumes "spells w v"
  shows "symbol_of CANONICAL w = (word_of_nat v, code_len v)"
proof (cases "code_len v \<le> 8")
  case True
  have "v < 257" using assms by (simp add: spells_def)
  note parts = fast_entry_parts [OF this True]
  show ?thesis using fast_spells [OF assms] True parts(3,4)
    by (simp add: symbol_of_def Let_def canonical_sizes parts(1))
next
  case False
  then show ?thesis using fast_spells [OF assms] long_spells [OF assms]
    by (simp add: symbol_of_def Let_def canonical_sizes)
qed

subsection \<open>The lookup of pairs\<close>

definition pair_pack :: "nat \<Rightarrow> nat \<Rightarrow> octet \<Rightarrow> octet \<Rightarrow> u32" where
  "pair_pack used count a b =
     word_of_nat used OR push_bit 8 (word_of_nat count) OR push_bit 16 (ucast a) OR push_bit 24 (ucast b)"

declare pair_loop.simps(2) [simp del]

text \<open>The length one turn of \<open>pair_loop\<close> arrives at, and the symbol it reads.\<close>

lemma pair_turn:
  assumes "spells w v"
  shows "reach (can_limit CANONICAL) w
      (if can_fast CANONICAL ! unat (drop_bit (64 - FAST_BITS) w) AND 0xff = 0 then FAST_BITS + 1
       else unat (can_fast CANONICAL ! unat (drop_bit (64 - FAST_BITS) w) AND 0xff)) = code_len v"
proof (cases "code_len v \<le> 8")
  case True
  have "v < 257" using assms by (simp add: spells_def)
  note parts = fast_entry_parts [OF this True]
  show ?thesis using fast_spells [OF assms] True parts(3,4) reach_spells [OF assms, of "code_len v"] \<open>v < 257\<close>
    by (simp add: canonical_sizes)
next
  case False
  then show ?thesis using fast_spells [OF assms] reach_spells [OF assms, of 9]
    by (simp add: canonical_sizes)
qed

abbreviation canonical_loop :: "nat \<Rightarrow> u64 \<Rightarrow> nat \<Rightarrow> nat \<Rightarrow> u32 list \<Rightarrow> nat \<times> nat \<times> u32 list" where
  "canonical_loop \<equiv> pair_loop (can_fast CANONICAL) (can_limit CANONICAL) (can_base CANONICAL)
     (can_offset CANONICAL) (can_symbols CANONICAL)"

lemma pair_loop_spells:
  assumes "spells w v"
  shows "canonical_loop (Suc turns) w used count held =
    (if PAIR_BITS < used + code_len v then (used, count, held)
     else canonical_loop turns (push_bit (code_len v) w) (used + code_len v) (count + 1)
            (held[count := ucast (word_of_nat v :: u16)]))"
  unfolding pair_loop.simps Let_def pair_turn [OF assms] spells_index [OF assms] by (rule refl)

lemma pairs_spell:
  fixes w :: u64
  defines "entry \<equiv> can_pairs CANONICAL ! unat (drop_bit 52 w)"
  obtains (none) v where "spells w v" "PAIR_BITS < code_len v" "entry = 0"
    | (one) v where "spells w v" "v < 256" "code_len v \<le> PAIR_BITS"
        "entry = pair_pack (code_len v) 1 (word_of_nat v) 0"
    | (two) u v where "spells w u" "u < 256" "spells (push_bit (code_len u) w) v" "v < 256"
        "code_len u + code_len v \<le> PAIR_BITS"
        "entry = pair_pack (code_len u + code_len v) 2 (word_of_nat u) (word_of_nat v)"
proof -
  have "unat w < 2 ^ LENGTH(64)" by (rule unsigned_less)
  then have "unat w div 2 ^ 52 < 4096" by (intro less_mult_imp_div_less) simp
  then have "unat (drop_bit 52 w) < 4096" by (subst unat_drop_bit_eq) (simp only: drop_bit_eq_div)
  then have entry: "entry = pair_entry (can_fast CANONICAL) (can_limit CANONICAL) (can_base CANONICAL)
      (can_offset CANONICAL) (can_symbols CANONICAL) (unat (drop_bit 52 w))"
    unfolding entry_def by (subst CANONICAL_fields) (simp add: canonical_sizes)
  define x where "x = push_bit 52 (drop_bit 52 w)"
  have agree: "agree 12 x w" using agree_top [of 12 w] by (simp add: x_def)
  obtain u where u: "spells x u" using spells_exists by blast
  have u257: "u < 257" using u by (simp add: spells_def)
  have widen: "(ucast (word_of_nat n :: u16) :: u32) = ucast (word_of_nat n :: octet)" if "n < 256" for n
  proof -
    have "unat (word_of_nat n :: u16) = n" using that by (simp add: unat_of_nat)
    then show ?thesis using octet_of_nat(2) [OF that] by (metis of_nat_unat)
  qed
  have start: "push_bit (64 - PAIR_BITS) (word_of_nat (unat (drop_bit 52 w))) = x"
    by (simp add: x_def canonical_sizes)
  have most: "PAIR_MOST = Suc (Suc 0)" by (simp add: PAIR_MOST_def PAIR_BITS_def)
  show thesis
  proof (cases "12 < code_len u")
    case True
    obtain v where v: "spells w v" using spells_exists by blast
    have "12 < code_len v"
      using True u v agree spells_agree [of 12 x w v] spells_unique [of x u v] by (cases "code_len v \<le> 12") auto
    moreover have "canonical_loop PAIR_MOST x 0 0 [0, 0] = (0, 0, [0, 0])"
      using True by (simp add: most pair_loop_spells [OF u] PAIR_BITS_def)
    then have "entry = 0" unfolding entry pair_entry_def start by simp
    ultimately show ?thesis using v none by (simp add: PAIR_BITS_def)
  next
    case False
    then have wu: "spells w u" "u < 256" using u agree spells_agree [of 12 x w u] code_len_short [OF u257] by auto
    define y where "y = push_bit (code_len u) x"
    obtain v where v: "spells y v" using spells_exists by blast
    have v257: "v < 257" using v by (simp add: spells_def)
    have loop: "canonical_loop PAIR_MOST x 0 0 [0, 0] = (if 12 < code_len u + code_len v
        then (code_len u, 1, [ucast (word_of_nat u :: octet), 0])
        else (code_len u + code_len v, 2, [ucast (word_of_nat u :: octet), ucast (word_of_nat v :: octet)]))"
      using False pair_loop_spells [OF u] pair_loop_spells [OF v, folded y_def] wu(2) code_len_short [OF v257]
      by (simp add: most PAIR_BITS_def widen flip: y_def)
    show ?thesis
    proof (cases "12 < code_len u + code_len v")
      case True
      then have "entry = pair_pack (code_len u) 1 (word_of_nat u) 0"
        unfolding entry pair_entry_def start by (simp add: loop pair_pack_def)
      with wu False show ?thesis by (intro one) (auto simp: PAIR_BITS_def)
    next
      case inside: False
      have "agree (12 - code_len u) y (push_bit (code_len u) w)"
        using agree_push [OF agree, of "code_len u"] False by (simp add: y_def)
      then have "spells (push_bit (code_len u) w) v" using v inside by (subst spells_agree [symmetric]) auto
      moreover have "entry = pair_pack (code_len u + code_len v) 2 (word_of_nat u) (word_of_nat v)"
        unfolding entry pair_entry_def start using inside by (simp add: loop pair_pack_def)
      moreover have "v < 256" using inside code_len_short [OF v257] by auto
      ultimately show ?thesis using wu inside by (intro two) (auto simp: PAIR_BITS_def)
    qed
  qed
qed

end
