(* ===== verification/Huffman.thy ===== *)
theory Huffman
  imports Huffman_Spells Codec
begin

section \<open>Huffman strings (src/src/helpers/huffman.rs)\<close>

text \<open>
  The encoder, which packs code words into a 64-bit accumulator, and the decoder, which reads
  them back out of a 64-bit window. The decoder writes through a raw pointer into room it
  reserved; a write past the room and a \<open>take\<close> of more bits than the window holds are the
  \<open>debug_assert\<close>s of the source, and the value \<open>None\<close> here.
\<close>

datatype huff_error = InvalidPadding | UnknownSymbol

subsection \<open>The window over the input\<close>

record bits =
  bt_input :: bytes
  bt_window :: u64
  bt_held :: nat

definition WIDTH :: nat where "WIDTH = 64"

definition bits_new :: "bytes \<Rightarrow> bits" where
  "bits_new input = \<lparr> bt_input = input, bt_window = 0, bt_held = 0 \<rparr>"

text \<open>\<open>u64::MAX.checked_shr(held).unwrap_or(0)\<close>\<close>

definition ones_below :: "nat \<Rightarrow> u64" where
  "ones_below held = (if held < 64 then drop_bit held (- 1) else 0)"

definition bits_mask :: "bits \<Rightarrow> u64" where
  "bits_mask b = NOT (ones_below (bt_held b))"

fun fill_octets :: "bits \<Rightarrow> bytes \<Rightarrow> bits" where
  "fill_octets b [] = b"
| "fill_octets b (octet # rest) =
    (if bt_held b \<le> WIDTH - 8 then
       fill_octets \<lparr> bt_input = rest,
         bt_window = bt_window b OR push_bit (WIDTH - 8 - bt_held b) (ucast octet),
         bt_held = bt_held b + 8 \<rparr> rest
     else b)"

definition bits_fill :: "bits \<Rightarrow> bits" where
  "bits_fill b =
     (let b = b\<lparr> bt_window := bt_window b AND bits_mask b \<rparr>
      in if 8 \<le> length (bt_input b) \<and> bt_held b \<le> WIDTH - 8 then
           let octets = take 8 (bt_input b);
               taken = (WIDTH - bt_held b) div 8
           in \<lparr> bt_input = drop taken (bt_input b),
                bt_window = bt_window b OR drop_bit (bt_held b) (from_be_bytes octets),
                bt_held = bt_held b + taken * 8 \<rparr>
         else fill_octets b (bt_input b))"

definition bits_take :: "nat \<Rightarrow> bits \<Rightarrow> bits option" where
  "bits_take n b = (if n \<le> bt_held b
     then Some (b\<lparr> bt_window := push_bit n (bt_window b), bt_held := bt_held b - n \<rparr>) else None)"

definition bits_padded :: "bits \<Rightarrow> u64" where
  "bits_padded b = bt_window b OR ones_below (bt_held b)"

definition is_padding :: "bits \<Rightarrow> bool" where
  "is_padding b \<longleftrightarrow> bt_held b < 8 \<and> bt_window b AND bits_mask b = bits_mask b"

subsection \<open>Decoding\<close>

text \<open>The room reserved for the result, the cursor into it, and the octets or-ed together.\<close>

record huff_state =
  hs_bits :: bits
  hs_room :: bytes
  hs_written :: nat
  hs_seen :: octet

text \<open>
  One turn of a loop that read \<open>count\<close> symbols spelled in \<open>n\<close> bits: both octets are written
  where the lookup answered a pair, and the cursor moves by what it counted.
\<close>

definition write_symbols :: "bytes \<Rightarrow> nat \<Rightarrow> octet \<Rightarrow> nat \<Rightarrow> huff_state \<Rightarrow> huff_state option" where
  "write_symbols octets count seen n st =
     (if hs_written st + length octets \<le> length (hs_room st) then
        map_option (\<lambda>b. st\<lparr> hs_bits := b, hs_room := blit (hs_room st) (hs_written st) octets,
            hs_written := hs_written st + count, hs_seen := hs_seen st OR seen \<rparr>)
          (bits_take n (hs_bits st))
      else None)"

definition huff_step :: "huff_state \<Rightarrow> (huff_state + huff_state) option" where
  "huff_step st =
     (let window = bt_window (hs_bits st);
          entry = can_pairs CANONICAL ! unat (drop_bit (64 - PAIR_BITS) window);
          n = unat (ucast entry :: octet)
      in if n = 0 then
           let (symbol, n) = long_symbol CANONICAL window
           in if symbol = word_of_nat EOS then Some (Inl st)
              else map_option Inr (write_symbols [ucast symbol] 1 (ucast symbol) n st)
         else map_option Inr (write_symbols (to_le_bytes (ucast (drop_bit 16 entry) :: u16))
                (unat (ucast (drop_bit 8 entry) :: octet))
                (ucast (drop_bit 16 entry) OR ucast (drop_bit 24 entry)) n st))"

lemma bits_take_held: "bits_take n b = Some b' \<Longrightarrow> bt_held b' = bt_held b - n \<and> n \<le> bt_held b \<and> bt_input b' = bt_input b"
  by (auto simp: bits_take_def split: if_splits)

lemma write_symbols_held:
  "write_symbols octets count seen n st = Some st' \<Longrightarrow>
   bt_held (hs_bits st') = bt_held (hs_bits st) - n \<and> n \<le> bt_held (hs_bits st) \<and>
   bt_input (hs_bits st') = bt_input (hs_bits st)"
  by (auto simp: write_symbols_def split: if_splits dest: bits_take_held)

lemma reach_ge: "n \<le> reach limit window n"
proof (induction limit window n rule: reach.induct)
  case (1 limit window n)
  show ?case
  proof (cases "n < MAX_BITS \<and> limit ! n < window")
    case True
    then have "n + 1 \<le> reach limit window (n + 1)" using 1 by blast
    then show ?thesis using True by (subst reach.simps) simp
  next
    case False
    then show ?thesis by (subst reach.simps) auto
  qed
qed

lemma huff_step_held:
  assumes "huff_step st = Some (Inr st')"
  shows "bt_held (hs_bits st') < bt_held (hs_bits st)" "bt_input (hs_bits st') = bt_input (hs_bits st)"
proof -
  have "0 < snd (long_symbol codes window)" for codes window
    using reach_ge [of "FAST_BITS + 1" "can_limit codes" window] by (simp add: long_symbol_def Let_def)
  then show "bt_held (hs_bits st') < bt_held (hs_bits st)" "bt_input (hs_bits st') = bt_input (hs_bits st)"
    using assms by (auto simp: huff_step_def Let_def split: if_splits prod.splits dest!: write_symbols_held)
      (metis snd_conv gr_implies_not0 diff_less le_zero_eq not_gr_zero)+
qed

text \<open>\<open>while bits.held >= MAX_BITS\<close>: \<open>Inl\<close> where the end-of-string code was met.\<close>

function huff_inner :: "huff_state \<Rightarrow> (huff_state + huff_state) option" where
  "huff_inner st =
     (if MAX_BITS \<le> bt_held (hs_bits st) then
        case huff_step st of
          None \<Rightarrow> None
        | Some (Inl st) \<Rightarrow> Some (Inl st)
        | Some (Inr st) \<Rightarrow> huff_inner st
      else Some (Inr st))"
  by pat_completeness auto
termination by (relation "measure (\<lambda>st. bt_held (hs_bits st))") (auto simp: huff_step_held)

declare huff_inner.simps [simp del]

subsection \<open>Bit strings\<close>

text \<open>
  The bits of octets in the order they travel, the top and the low bits of a window, and the
  code word of a symbol.
\<close>

definition stream :: "bytes \<Rightarrow> bool list" where
  "stream bs = concat (map (\<lambda>b. map (\<lambda>i. bit b (7 - i)) [0..<8]) bs)"

definition top :: "nat \<Rightarrow> u64 \<Rightarrow> bool list" where
  "top n w = map (\<lambda>i. bit w (63 - i)) [0..<n]"

definition low :: "nat \<Rightarrow> 'a::len word \<Rightarrow> bool list" where
  "low n w = map (\<lambda>i. bit w (n - 1 - i)) [0..<n]"

definition code_bits :: "nat \<Rightarrow> bool list" where
  "code_bits v = low (code_len v) (sym_code (TABLE ! v))"

definition codes :: "bytes \<Rightarrow> bool list" where
  "codes bs = concat (map (\<lambda>b. code_bits (unat b)) bs)"

lemma length_bit_strings [simp]:
  "length (top n w) = n" "length (low n u) = n" "length (code_bits v) = code_len v"
  by (simp_all add: top_def low_def code_bits_def)

lemma stream_simps [simp]:
  "stream [] = []" "stream (b # bs) = map (\<lambda>i. bit b (7 - i)) [0..<8] @ stream bs"
  "stream (xs @ ys) = stream xs @ stream ys"
  by (simp_all add: stream_def)

lemma codes_simps [simp]:
  "codes [] = []" "codes (b # bs) = code_bits (unat b) @ codes bs" "codes (xs @ ys) = codes xs @ codes ys"
  by (simp_all add: codes_def)

lemma length_stream [simp]: "length (stream bs) = 8 * length bs"
  by (induction bs) auto

lemma nth_stream: "i < 8 * length bs \<Longrightarrow> stream bs ! i = bit (bs ! (i div 8)) (7 - i mod 8)"
proof (induction bs arbitrary: i)
  case (Cons b bs)
  show ?case
  proof (cases "i < 8")
    case False
    then have "i div 8 = Suc ((i - 8) div 8)" "i mod 8 = (i - 8) mod 8" by (simp_all add: le_div_geq le_mod_geq)
    with False Cons show ?thesis by (simp add: nth_append)
  qed (simp add: nth_append)
qed simp

lemma stream_inj: "stream xs = stream ys \<Longrightarrow> xs = ys"
proof (rule nth_equalityI)
  assume eq: "stream xs = stream ys"
  show len: "length xs = length ys" using arg_cong [OF eq, of length] by simp
  fix i assume i: "i < length xs"
  show "xs ! i = ys ! i"
  proof (rule bit_word_eqI)
    fix n assume n: "n < LENGTH(8)"
    have "stream xs ! (8 * i + (7 - n)) = stream ys ! (8 * i + (7 - n))" by (simp add: eq)
    then show "bit (xs ! i) n = bit (ys ! i) n" using i n len by (simp add: nth_stream)
  qed
qed

lemma spells_top: "spells w v \<longleftrightarrow> v < 257 \<and> top (code_len v) w = code_bits v"
  by (auto simp: spells_bits top_def code_bits_def low_def)

lemma take_top: "m \<le> n \<Longrightarrow> take m (top n w) = top m w"
  by (simp add: top_def take_map)

lemma drop_top: "n \<le> 64 \<Longrightarrow> drop m (top n w) = top (n - m) (push_bit m w)"
  by (rule nth_equalityI) (auto simp: top_def bit_simps, (metis diff_diff_add add.commute)+)

text \<open>What the window and the input still hold.\<close>

definition rest_bits :: "bits \<Rightarrow> bool list" where
  "rest_bits b = top (bt_held b) (bt_window b) @ stream (bt_input b)"

lemma length_rest_bits: "length (rest_bits b) = bt_held b + 8 * length (bt_input b)"
  by (simp add: rest_bits_def)

lemma bit_ones_below: "bit (ones_below h) i \<longleftrightarrow> i < 64 - h"
  by (auto simp: ones_below_def bit_simps)

lemma bits_take_rest:
  assumes "n \<le> bt_held b" "bt_held b \<le> 64"
  obtains b' where "bits_take n b = Some b'" "rest_bits b' = drop n (rest_bits b)" "bt_held b' = bt_held b - n"
    "bt_input b' = bt_input b"
  using assms by (auto simp: bits_take_def rest_bits_def drop_top)

lemma stream_from_be:
  assumes "length bs = 8"
  shows "i < 64 \<Longrightarrow> bit (from_be_bytes bs :: u64) (63 - i) = stream bs ! i"
proof -
  assume i: "i < 64"
  have "i = 8 * (i div 8) + i mod 8" "i mod 8 < 8" "i div 8 < 8" using i by (simp_all add: less_mult_imp_div_less)
  then have "63 - i = 8 * (7 - i div 8) + (7 - i mod 8)" by linarith
  moreover have "(8 * y + x) div 8 = y \<and> (8 * y + x) mod 8 = x" if "x < 8" for x y :: nat using that by simp
  moreover have "7 - i mod 8 < 8" by simp
  ultimately have "(63 - i) div 8 = 7 - i div 8" "(63 - i) mod 8 = 7 - i mod 8" by metis+
  moreover have "63 - i < 64" "7 - i div 8 < 8" "8 - Suc (7 - i div 8) = i div 8" using \<open>i div 8 < 8\<close> by linarith+
  ultimately show ?thesis using i assms by (simp add: from_be_bytes_def lane_simps nth_stream rev_nth)
qed

lemma top_split: "top (m + n) w = top m w @ top n (push_bit m w)" if "m + n \<le> 64"
  using take_top [of m "m + n" w] drop_top [of "m + n" m w] that by (metis add_diff_cancel_left' append_take_drop_id le_add1)

lemma fill_octets_rest:
  assumes "bt_held b \<le> 64" "bt_window b AND bits_mask b = bt_window b" "bt_input b = input"
  shows "rest_bits (fill_octets b input) = rest_bits b \<and> bt_held (fill_octets b input) \<le> 64 \<and>
    (bt_held (fill_octets b input) \<le> 56 \<longrightarrow> bt_input (fill_octets b input) = [])"
  using assms
proof (induction b input rule: fill_octets.induct)
  case (2 b octet rest)
  show ?case
  proof (cases "bt_held b \<le> WIDTH - 8")
    case True
    let ?h = "bt_held b" and ?w = "bt_window b OR push_bit (WIDTH - 8 - bt_held b) (ucast octet)"
    let ?b = "\<lparr> bt_input = rest, bt_window = ?w, bt_held = ?h + 8 \<rparr>"
    have h: "?h \<le> 56" using True by (simp add: WIDTH_def)
    have clear: "\<not> bit (bt_window b) i" if "i < 64 - ?h" for i
    proof -
      have "bit (bt_window b AND bits_mask b) i \<longleftrightarrow> bit (bt_window b) i" by (simp add: "2.prems"(2))
      with that show ?thesis by (simp add: bits_mask_def bit_simps bit_ones_below)
    qed
    have "top (?h + 8) ?w = top ?h (bt_window b) @ map (\<lambda>i. bit octet (7 - i)) [0..<8]"
    proof (rule nth_equalityI)
      fix i assume "i < length (top (?h + 8) ?w)"
      then have i: "i < ?h + 8" by simp
      show "top (?h + 8) ?w ! i = (top ?h (bt_window b) @ map (\<lambda>i. bit octet (7 - i)) [0..<8]) ! i"
      proof (cases "i < ?h")
        case True
        then have "8 \<le> 63 - i - (56 - ?h)" using h by linarith
        then show ?thesis using True h by (simp add: top_def nth_append bit_simps WIDTH_def)
      next
        case False
        then have "63 - i - (56 - ?h) = 7 - (i - ?h)" "63 - i < 64 - ?h" "56 - ?h \<le> 63 - i" "i - ?h < 8"
          "63 - i < 64" "7 + ?h - i < 64" using i h by linarith+
        then show ?thesis using False i clear by (simp add: top_def nth_append bit_simps WIDTH_def)
      qed
    qed simp
    then have "rest_bits ?b = rest_bits b" using "2.prems"(3) by (simp add: rest_bits_def)
    moreover have "?w AND bits_mask ?b = ?w"
      using clear h by (intro bit_word_eqI) (auto simp: bits_mask_def bit_simps bit_ones_below WIDTH_def)
    ultimately show ?thesis using True h "2.IH" by (simp add: WIDTH_def)
  next
    case False
    then show ?thesis using "2.prems" by (simp add: WIDTH_def)
  qed
qed simp

lemma masked:
  assumes "bt_held b \<le> 64"
  shows "rest_bits (b\<lparr> bt_window := bt_window b AND bits_mask b \<rparr>) = rest_bits b"
    and "i < 64 - bt_held b \<Longrightarrow> \<not> bit (bt_window b AND bits_mask b) i"
  using assms by (auto simp: rest_bits_def top_def bits_mask_def bit_simps bit_ones_below)

text \<open>Filling reads whole octets into the window, until it is full or the input is empty.\<close>

lemma bits_fill_rest:
  assumes "bt_held b \<le> 64"
  shows "rest_bits (bits_fill b) = rest_bits b" "bt_held (bits_fill b) \<le> 64"
    "bt_held (bits_fill b) \<le> 56 \<Longrightarrow> bt_input (bits_fill b) = []"
proof -
  let ?w = "bt_window b AND bits_mask b" and ?h = "bt_held b"
  let ?b = "b\<lparr> bt_window := ?w \<rparr>"
  have "rest_bits (bits_fill b) = rest_bits b \<and> bt_held (bits_fill b) \<le> 64 \<and>
    (bt_held (bits_fill b) \<le> 56 \<longrightarrow> bt_input (bits_fill b) = [])"
  proof (cases "8 \<le> length (bt_input b) \<and> ?h \<le> WIDTH - 8")
    case True
    let ?taken = "(64 - ?h) div 8" and ?eight = "take 8 (bt_input b)"
    let ?f = "?w OR drop_bit ?h (from_be_bytes ?eight)"
    have h: "?h \<le> 56" "length ?eight = 8" using True by (auto simp: WIDTH_def)
    have t: "?taken \<le> 8" "?h + 8 * ?taken \<le> 64" "56 < ?h + 8 * ?taken" using h by linarith+
    have fill: "bits_fill b = \<lparr> bt_input = drop ?taken (bt_input b), bt_window = ?f, bt_held = ?h + ?taken * 8 \<rparr>"
      using True by (simp add: bits_fill_def Let_def WIDTH_def)
    have "top (?h + 8 * ?taken) ?f = top ?h ?w @ stream (take ?taken (bt_input b))"
    proof (rule nth_equalityI)
      show "length (top (?h + 8 * ?taken) ?f) = length (top ?h ?w @ stream (take ?taken (bt_input b)))"
        using True t(1) by simp
      fix i assume "i < length (top (?h + 8 * ?taken) ?f)"
      then have i: "i < ?h + 8 * ?taken" by simp
      show "top (?h + 8 * ?taken) ?f ! i = (top ?h ?w @ stream (take ?taken (bt_input b))) ! i"
      proof (cases "i < ?h")
        case True
        then have "\<not> bit (from_be_bytes ?eight :: u64) (?h + (63 - i))" using t by (auto dest: bit_imp_le_length)
        then show ?thesis using True by (simp add: top_def nth_append bit_simps)
      next
        case False
        have "?h + (63 - i) = 63 - (i - ?h)" "63 - i < 64 - ?h" "i - ?h < 64" using False i t by linarith+
        then have "bit ?f (63 - i) = stream ?eight ! (i - ?h)"
          using masked(2) [OF assms, of "63 - i", unfolded bit_and_iff] stream_from_be [OF h(2), of "i - ?h"] False by (auto simp: bit_simps)
        also have "\<dots> = stream (take ?taken (bt_input b)) ! (i - ?h)"
        proof -
          have "(i - ?h) div 8 < ?taken" using False i by (intro less_mult_imp_div_less) (simp add: mult.commute)
          moreover have "length (take ?taken (bt_input b)) = ?taken" using True t(1) by simp
          moreover have "i - ?h < 8 * ?taken" using False i by linarith
          ultimately have "stream (take ?taken (bt_input b)) ! (i - ?h) = bit (bt_input b ! ((i - ?h) div 8)) (7 - (i - ?h) mod 8)"
            by (subst nth_stream) simp_all
          moreover have "stream ?eight ! (i - ?h) = bit (bt_input b ! ((i - ?h) div 8)) (7 - (i - ?h) mod 8)"
            using h(2) \<open>i - ?h < 64\<close> \<open>(i - ?h) div 8 < ?taken\<close> t(1) by (subst nth_stream) simp_all
          ultimately show ?thesis by simp
        qed
        finally show ?thesis using False i by (simp add: top_def nth_append)
      qed
    qed
    moreover have "stream (bt_input b) = stream (take ?taken (bt_input b)) @ stream (drop ?taken (bt_input b))"
      by (metis append_take_drop_id stream_simps(3))
    ultimately have "rest_bits (bits_fill b) = rest_bits ?b" by (simp add: fill rest_bits_def mult.commute)
    then show ?thesis using t masked(1) [OF assms] by (simp add: fill mult.commute)
  next
    case False
    have "?w AND bits_mask ?b = ?w" by (simp add: bits_mask_def and.assoc)
    then show ?thesis using False fill_octets_rest [of ?b "bt_input b"] masked(1) [OF assms] assms
      by (auto simp: bits_fill_def Let_def)
  qed
  then show "rest_bits (bits_fill b) = rest_bits b" "bt_held (bits_fill b) \<le> 64"
    "bt_held (bits_fill b) \<le> 56 \<Longrightarrow> bt_input (bits_fill b) = []" by auto
qed

subsection \<open>Termination of the decoder\<close>

lemma huff_inner_total:
  assumes "huff_inner st = Some (Inr st')"
  shows "bt_input (hs_bits st') = bt_input (hs_bits st)" "bt_held (hs_bits st') \<le> bt_held (hs_bits st)"
    "MAX_BITS \<le> bt_held (hs_bits st) \<Longrightarrow> bt_held (hs_bits st') < bt_held (hs_bits st)"
    "bt_held (hs_bits st') < MAX_BITS"
proof -
  have "huff_inner st = Some (Inr st') \<Longrightarrow> bt_input (hs_bits st') = bt_input (hs_bits st) \<and>
    bt_held (hs_bits st') \<le> bt_held (hs_bits st) \<and>
    (MAX_BITS \<le> bt_held (hs_bits st) \<longrightarrow> bt_held (hs_bits st') < bt_held (hs_bits st)) \<and>
    bt_held (hs_bits st') < MAX_BITS"
  proof (induction st rule: huff_inner.induct)
    case (1 st)
    show ?case
    proof (cases "MAX_BITS \<le> bt_held (hs_bits st)")
      case True
      with 1(2) obtain next_st where step: "huff_step st = Some (Inr next_st)" "huff_inner next_st = Some (Inr st')"
        by (subst (asm) huff_inner.simps) (auto split: option.splits sum.splits)
      then show ?thesis using 1(1) [OF True step(1) refl] huff_step_held [OF step(1)] by auto
    next
      case False
      then show ?thesis using 1(2) by (subst (asm) huff_inner.simps) auto
    qed
  qed
  with assms show "bt_input (hs_bits st') = bt_input (hs_bits st)" "bt_held (hs_bits st') \<le> bt_held (hs_bits st)"
    "MAX_BITS \<le> bt_held (hs_bits st) \<Longrightarrow> bt_held (hs_bits st') < bt_held (hs_bits st)"
    "bt_held (hs_bits st') < MAX_BITS" by auto
qed

lemma fill_octets_total:
  "bt_input b = input \<Longrightarrow>
   bt_held (fill_octets b input) + 8 * length (bt_input (fill_octets b input)) = bt_held b + 8 * length input \<and>
   (bt_held (fill_octets b input) \<le> 56 \<longrightarrow> bt_input (fill_octets b input) = [])"
proof (induction b input rule: fill_octets.induct)
  case (2 b octet rest)
  then show ?case by (cases "bt_held b \<le> WIDTH - 8") (simp_all add: WIDTH_def)
qed simp

lemma bits_fill_total:
  "bt_held (bits_fill b) + 8 * length (bt_input (bits_fill b)) = bt_held b + 8 * length (bt_input b)"
  "bt_held (bits_fill b) \<le> 56 \<Longrightarrow> bt_input (bits_fill b) = []"
proof -
  have t: "(64 - bt_held b) div 8 \<le> 8" by linarith
  have u: "bt_held b \<le> 56 \<Longrightarrow> 56 < bt_held b + (64 - bt_held b) div 8 * 8" by linarith
  show "bt_held (bits_fill b) + 8 * length (bt_input (bits_fill b)) = bt_held b + 8 * length (bt_input b)"
    "bt_held (bits_fill b) \<le> 56 \<Longrightarrow> bt_input (bits_fill b) = []"
    using t u fill_octets_total [of "b\<lparr>bt_window := bt_window b AND bits_mask b\<rparr>" "bt_input b"]
    by (auto simp: bits_fill_def Let_def WIDTH_def split: if_splits)
qed

function huff_outer :: "huff_state \<Rightarrow> (huff_state + huff_state) option" where
  "huff_outer st =
     (case huff_inner (st\<lparr> hs_bits := bits_fill (hs_bits st) \<rparr>) of
        None \<Rightarrow> None
      | Some (Inl st) \<Rightarrow> Some (Inl st)
      | Some (Inr st) \<Rightarrow> if bt_input (hs_bits st) = [] then Some (Inr st) else huff_outer st)"
  by pat_completeness auto
termination
proof (relation "measure (\<lambda>st. bt_held (hs_bits st) + 8 * length (bt_input (hs_bits st)))", goal_cases)
  case (2 st _ st')
  let ?b = "bits_fill (hs_bits st)"
  have inner: "huff_inner (st\<lparr>hs_bits := ?b\<rparr>) = Some (Inr st')" using 2 by simp
  have "56 < bt_held ?b" using huff_inner_total(1) [OF inner] bits_fill_total(2) [of "hs_bits st"] 2 by fastforce
  then show ?case using huff_inner_total [OF inner] bits_fill_total(1) [of "hs_bits st"]
    by (simp add: MAX_BITS_def)
qed simp

declare huff_outer.simps [simp del]

function huff_tail :: "huff_state \<Rightarrow> (huff_state + huff_state) option" where
  "huff_tail st =
     (if is_padding (hs_bits st) then Some (Inr st)
      else
        let (symbol, n) = symbol_of CANONICAL (bits_padded (hs_bits st))
        in if bt_held (hs_bits st) < n then Some (Inr st)
           else if symbol = word_of_nat EOS then Some (Inl st)
           else case write_symbols [ucast symbol] 1 (ucast symbol) n st of
               None \<Rightarrow> None
             | Some st \<Rightarrow> huff_tail st)"
  by pat_completeness auto
termination
proof (relation "measure (\<lambda>st. bt_held (hs_bits st))", goal_cases)
  case (2 st p symbol n st')
  obtain v where v: "spells (bits_padded (hs_bits st)) v" using spells_exists by blast
  then have "v < 257" by (simp add: spells_def)
  then have "5 \<le> code_len v" by simp
  then have "0 < n" using symbol_spells [OF v] 2 by auto
  with 2 show ?case by (auto dest!: write_symbols_held)
qed simp

declare huff_tail.simps [simp del]

definition decode_into_ascii :: "bytes \<Rightarrow> bytes \<Rightarrow> (bytes \<times> (huff_error + bool)) option" where
  "decode_into_ascii input out =
     (let st = \<lparr> hs_bits = bits_new input, hs_room = replicate (length input * 8 div 5 + PAIR_MOST) 0,
                 hs_written = 0, hs_seen = 0 \<rparr>
      in case huff_outer st of
           None \<Rightarrow> None
         | Some (Inl st) \<Rightarrow> Some (out @ take (hs_written st) (hs_room st), Inl InvalidPadding)
         | Some (Inr st) \<Rightarrow>
             (case huff_tail st of
                None \<Rightarrow> None
              | Some (Inl st) \<Rightarrow> Some (out @ take (hs_written st) (hs_room st), Inl InvalidPadding)
              | Some (Inr st) \<Rightarrow>
                  Some (out @ take (hs_written st) (hs_room st),
                    if is_padding (hs_bits st) then Inr (hs_seen st AND 0x80 = 0) else Inl InvalidPadding)))"

definition decode_into :: "bytes \<Rightarrow> bytes \<Rightarrow> (bytes \<times> (huff_error + unit)) option" where
  "decode_into input out =
     map_option (\<lambda>(out, r). (out, res_bind r (\<lambda>_. Inr ()))) (decode_into_ascii input out)"

definition huff_decode :: "bytes \<Rightarrow> (huff_error + bytes) option" where
  "huff_decode input =
     map_option (\<lambda>(out, r). res_bind r (\<lambda>_. Inr out)) (decode_into input [])"

subsection \<open>Encoding\<close>

definition encoded_len :: "bytes \<Rightarrow> nat" where
  "encoded_len input = (sum_list (map (\<lambda>b. LENGTHS ! unat b) input) + 7) div 8"

text \<open>The accumulator, how many of its low bits count, and the octets written.\<close>

definition encode_octet :: "octet \<Rightarrow> u64 \<times> nat \<times> bytes \<Rightarrow> u64 \<times> nat \<times> bytes" where
  "encode_octet byte = (\<lambda>(pending, bits, out).
     let s = TABLE ! unat byte;
         pending = push_bit (sym_length s) pending OR ucast (sym_code s);
         bits = bits + sym_length s
     in if 32 \<le> bits
        then (pending, bits - 32, out @ to_be_bytes (ucast (drop_bit (bits - 32) pending) :: u32))
        else (pending, bits, out))"

fun encode_drain :: "u64 \<Rightarrow> nat \<Rightarrow> bytes \<Rightarrow> bytes" where
  "encode_drain pending bits out =
     (if 8 \<le> bits then encode_drain pending (bits - 8) (out @ [ucast (drop_bit (bits - 8) pending)])
      else if 0 < bits then
        out @ [ucast (push_bit (8 - bits) pending OR (push_bit (8 - bits) 1 - 1))]
      else out)"

declare encode_drain.simps [simp del]

text \<open>The length passed to \<open>encode_sized\<close> only reserves, so it does not occur here.\<close>

definition encode_sized :: "bytes \<Rightarrow> bytes \<Rightarrow> bytes" where
  "encode_sized input out =
     (let (pending, bits, out) = fold encode_octet input (0, 0, out) in encode_drain pending bits out)"

definition encode_into :: "bytes \<Rightarrow> bytes \<Rightarrow> bytes" where
  "encode_into input out = encode_sized input out"

definition huff_encode :: "bytes \<Rightarrow> bytes" where
  "huff_encode input = encode_sized input []"

subsection \<open>What the decoder has read\<close>

text \<open>
  The octets written are those whose code words were read: the input is their code words,
  followed by what the window and the input still hold.
\<close>

definition huff_inv :: "bytes \<Rightarrow> huff_state \<Rightarrow> bool" where
  "huff_inv input st \<longleftrightarrow>
     bt_held (hs_bits st) \<le> 64 \<and>
     length (hs_room st) = length input * 8 div 5 + PAIR_MOST \<and>
     hs_written st \<le> length (hs_room st) \<and>
     stream input = codes (take (hs_written st) (hs_room st)) @ rest_bits (hs_bits st) \<and>
     (bit (hs_seen st) 7 \<longleftrightarrow> (\<exists>x\<in>set (take (hs_written st) (hs_room st)). bit x 7))"

lemma octet_less [simp]: "unat (b :: octet) < 256" "unat (b :: octet) < 257"
proof -
  have "unat b < 2 ^ LENGTH(8)" by (rule unsigned_less)
  then show "unat b < 256" "unat b < 257" by simp_all
qed

lemma length_codes: "5 * length bs \<le> length (codes bs)"
proof (induction bs)
  case (Cons b bs)
  have "5 \<le> code_len (unat b)" by simp
  with Cons show ?case by (simp add: algebra_simps del: code_len_bounds)
qed simp

lemma write_symbols_inv:
  assumes inv: "huff_inv input st"
    and rest: "rest_bits (hs_bits st) = codes xs @ t"
    and n: "n = length (codes xs)" "n \<le> bt_held (hs_bits st)"
    and octets: "take count octets = xs" "length xs = count" "length octets \<le> PAIR_MOST"
      "length octets = count \<or> length octets = PAIR_MOST"
    and seen: "bit seen 7 \<longleftrightarrow> (\<exists>x\<in>set xs. bit x 7)"
  obtains st' where "write_symbols octets count seen n st = Some st'" "huff_inv input st'"
    "rest_bits (hs_bits st') = t" "bt_input (hs_bits st') = bt_input (hs_bits st)"
proof -
  let ?w = "hs_written st" and ?r = "hs_room st"
  have held: "bt_held (hs_bits st) \<le> 64" and room: "length ?r = length input * 8 div 5 + PAIR_MOST"
    and stream: "stream input = codes (take ?w ?r) @ rest_bits (hs_bits st)" and w: "?w \<le> length ?r"
    using inv by (auto simp: huff_inv_def)
  obtain b where b: "bits_take n (hs_bits st) = Some b" "rest_bits b = t" "bt_held b = bt_held (hs_bits st) - n"
    "bt_input b = bt_input (hs_bits st)"
    using bits_take_rest [OF n(2) held] rest n(1) by (metis append_eq_conv_conj)
  have "5 * (?w + count) \<le> length (codes (take ?w ?r @ xs))"
    using length_codes [of "take ?w ?r @ xs"] w octets(2) by (simp add: min_absorb2 del: codes_simps)
  also have "\<dots> \<le> 8 * length input"
    using arg_cong [OF stream, of length] rest by simp
  finally have "?w + count \<le> length input * 8 div 5" by (simp add: less_eq_div_iff_mult_less_eq)
  moreover have c: "count \<le> length octets" using octets(1,2) by (metis length_take min.cobounded1)
  ultimately have fits: "?w + length octets \<le> length ?r" "?w + count \<le> length ?r"
    using octets(3,4) room by linarith+
  let ?st = "st\<lparr> hs_bits := b, hs_room := blit ?r ?w octets, hs_written := ?w + count, hs_seen := hs_seen st OR seen \<rparr>"
  have taken: "take (?w + count) (blit ?r ?w octets) = take ?w ?r @ xs"
    using w octets(1) c by (simp add: blit_def)
  have "write_symbols octets count seen n st = Some ?st" using fits(1) b(1) by (simp add: write_symbols_def)
  moreover have "huff_inv input ?st"
    using inv b held fits rest stream seen unfolding huff_inv_def
    by (auto simp: taken length_blit bit_simps)
  ultimately show ?thesis using that b(2,4) by simp
qed

lemma rest_top:
  assumes "spells (bt_window b) v" "code_len v \<le> bt_held b"
  shows "rest_bits b = code_bits v @ drop (code_len v) (rest_bits b)"
proof -
  have "take (code_len v) (rest_bits b) = code_bits v"
    using assms by (simp add: rest_bits_def take_top spells_top)
  then show ?thesis by (metis append_take_drop_id)
qed

lemma pair_pack_parts:
  assumes "used < 256" "count < 256"
  shows "unat (ucast (pair_pack used count a b) :: octet) = used"
    "unat (ucast (drop_bit 8 (pair_pack used count a b)) :: octet) = count"
    "to_le_bytes (ucast (drop_bit 16 (pair_pack used count a b)) :: u16) = [a, b]"
    "ucast (drop_bit 16 (pair_pack used count a b)) OR ucast (drop_bit 24 (pair_pack used count a b)) = a OR (b :: octet)"
proof -
  let ?u = "word_of_nat used :: octet" and ?c = "word_of_nat count :: octet"
  have pack: "pair_pack used count a b = ucast ?u OR push_bit 8 (ucast ?c) OR push_bit 16 (ucast a) OR push_bit 24 (ucast b)"
    using assms by (simp add: pair_pack_def octet_of_nat)
  have "ucast (pair_pack used count a b) = ?u" "ucast (drop_bit 8 (pair_pack used count a b)) = ?c"
    "ucast (drop_bit 16 (pair_pack used count a b)) = a" "ucast (drop_bit 24 (pair_pack used count a b)) = b"
    unfolding pack by (rule bit_word_eqI; auto simp: bit_simps)+
  moreover have "to_le_bytes (ucast (drop_bit 16 (pair_pack used count a b)) :: u16)
    = [ucast (drop_bit 16 (pair_pack used count a b)), ucast (drop_bit 24 (pair_pack used count a b))]"
    by (simp add: to_le_bytes_def upt_rec) (intro conjI bit_word_eqI; auto simp: bit_simps)
  ultimately show "unat (ucast (pair_pack used count a b) :: octet) = used"
    "unat (ucast (drop_bit 8 (pair_pack used count a b)) :: octet) = count"
    "to_le_bytes (ucast (drop_bit 16 (pair_pack used count a b)) :: u16) = [a, b]"
    "ucast (drop_bit 16 (pair_pack used count a b)) OR ucast (drop_bit 24 (pair_pack used count a b)) = a OR (b :: octet)"
    using assms by (simp_all add: unat_of_nat)
qed

lemma code_len_256: "code_len 256 = 30"
  using code_len_EOS by (simp add: EOS_def)

lemma symbol_is_EOS:
  assumes "v < 257"
  shows "(word_of_nat v :: u16) = word_of_nat EOS \<longleftrightarrow> v = 256"
proof -
  have "unat (word_of_nat v :: u16) = v" using assms by (simp add: unat_of_nat)
  moreover have "unat (word_of_nat EOS :: u16) = 256" by (simp add: EOS_def)
  ultimately show ?thesis by (metis EOS_def)
qed

lemma symbol_octet: "v < 256 \<Longrightarrow> ucast (word_of_nat v :: u16) = (word_of_nat v :: octet)"
proof -
  assume v: "v < 256"
  then have "unat (word_of_nat v :: u16) = v" by (simp add: unat_of_nat)
  then show ?thesis by (metis of_nat_unat)
qed

lemma unat_octet_of_nat: "v < 256 \<Longrightarrow> unat (word_of_nat v :: octet) = v"
  by (simp add: unat_of_nat)

subsection \<open>The decoder, turn by turn\<close>

lemma codes_single: "v < 256 \<Longrightarrow> codes [word_of_nat v] = code_bits v"
  by (simp add: unat_octet_of_nat)

text \<open>A turn that reads one symbol keeps the invariant and takes its code word off.\<close>

lemma write_one:
  assumes "huff_inv input st" "v < 256" "rest_bits (hs_bits st) = code_bits v @ t" "code_len v \<le> bt_held (hs_bits st)"
  obtains st' where "write_symbols [word_of_nat v] 1 (word_of_nat v) (code_len v) st = Some st'" "huff_inv input st'"
    "rest_bits (hs_bits st') = t" "bt_input (hs_bits st') = bt_input (hs_bits st)"
  using write_symbols_inv [OF assms(1), of "[word_of_nat v]" t "code_len v" 1 "[word_of_nat v]" "word_of_nat v"] assms
  by (auto simp: unat_octet_of_nat PAIR_MOST_def PAIR_BITS_def)

lemma huff_step_inv:
  assumes inv: "huff_inv input st" and held: "MAX_BITS \<le> bt_held (hs_bits st)"
  shows "(huff_step st = Some (Inl st) \<and> (\<exists>t. rest_bits (hs_bits st) = code_bits 256 @ t)) \<or>
    (\<exists>st'. huff_step st = Some (Inr st') \<and> huff_inv input st')"
proof -
  let ?b = "hs_bits st" and ?w = "bt_window (hs_bits st)"
  have held': "code_len v \<le> bt_held ?b" if "v < 257" for v
    using code_len_bounds(2) [OF that] held by (simp add: MAX_BITS_def)
  have index: "64 - PAIR_BITS = 52" by (simp add: PAIR_BITS_def)
  note step = huff_step_def [of st, unfolded Let_def index]
  show ?thesis
  proof (cases rule: pairs_spell [of ?w])
    case (none v)
    have v: "v < 257" using none(1) by (simp add: spells_def)
    have rest: "rest_bits ?b = code_bits v @ drop (code_len v) (rest_bits ?b)"
      using rest_top [OF none(1)] held' [OF v] by simp
    have long: "long_symbol CANONICAL ?w = (word_of_nat v, code_len v)"
      using none by (intro long_spells) (auto simp: PAIR_BITS_def FAST_BITS_def)
    show ?thesis
    proof (cases "v = 256")
      case True
      then show ?thesis using rest by (intro disjI1) (auto simp: step none(3) long EOS_def)
    next
      case False
      then have "v < 256" using v by simp
      then obtain st' where "write_symbols [word_of_nat v] 1 (word_of_nat v) (code_len v) st = Some st'" "huff_inv input st'"
        using write_one [OF inv _ rest held' [OF v]] by metis
      moreover have "(word_of_nat v :: u16) \<noteq> word_of_nat EOS" using False v by (simp add: symbol_is_EOS)
      ultimately show ?thesis using \<open>v < 256\<close> by (intro disjI2) (simp add: step none(3) long symbol_octet)
    qed
  next
    case (one v)
    have len: "code_len v < 256" "code_len v \<noteq> 0" "code_len v \<le> bt_held ?b"
      using code_len_bounds(1,2) [of v] one(2) held' [of v] by linarith+
    note parts = pair_pack_parts [OF len(1), of 1 "word_of_nat v" 0, folded one(4)]
    have rest: "rest_bits ?b = codes [word_of_nat v] @ drop (code_len v) (rest_bits ?b)"
      using rest_top [OF one(1) len(3)] one(2) by (simp only: codes_single)
    obtain st' where "write_symbols [word_of_nat v, 0] 1 (word_of_nat v) (code_len v) st = Some st'" "huff_inv input st'"
      using write_symbols_inv [OF inv rest, of "code_len v" 1 "[word_of_nat v, 0]" "word_of_nat v"] len one(2)
      by (auto simp: PAIR_MOST_def PAIR_BITS_def unat_octet_of_nat)
    then show ?thesis using len parts by (intro disjI2) (auto simp: step)
  next
    case (two u v)
    let ?n = "code_len u + code_len v"
    have len: "?n < 256" "?n \<noteq> 0" "?n \<le> bt_held ?b" "?n \<le> 64"
      using code_len_bounds(1) [of u] two(2,5) held unfolding PAIR_BITS_def MAX_BITS_def by linarith+
    note parts = pair_pack_parts [OF len(1), of 2 "word_of_nat u" "word_of_nat v", folded two(6)]
    have rest: "rest_bits ?b = codes [word_of_nat u, word_of_nat v] @ drop ?n (rest_bits ?b)"
    proof -
      have "take ?n (rest_bits ?b) = top (code_len u + code_len v) ?w"
        using len(3) by (simp add: rest_bits_def take_top)
      also have "\<dots> = code_bits u @ code_bits v"
        using two(1,3) len(4) by (subst top_split) (simp_all add: spells_top)
      finally have "take ?n (rest_bits ?b) = codes [word_of_nat u, word_of_nat v]"
        using two(2,4) by (simp add: unat_octet_of_nat)
      then show ?thesis by (metis append_take_drop_id)
    qed
    obtain st' where "write_symbols [word_of_nat u, word_of_nat v] 2 (word_of_nat u OR word_of_nat v) ?n st = Some st'"
      "huff_inv input st'"
      using write_symbols_inv [OF inv rest, of ?n
          2 "[word_of_nat u, word_of_nat v]" "word_of_nat u OR word_of_nat v"] len two(2,4)
      by (auto simp: PAIR_MOST_def PAIR_BITS_def unat_octet_of_nat bit_or_iff)
    then show ?thesis using len parts by (intro disjI2) (auto simp: step)
  qed
qed

lemma huff_inner_inv:
  assumes "huff_inv input st"
  shows "(\<exists>st' t. huff_inner st = Some (Inl st') \<and> huff_inv input st' \<and> rest_bits (hs_bits st') = code_bits 256 @ t) \<or>
    (\<exists>st'. huff_inner st = Some (Inr st') \<and> huff_inv input st')"
  using assms
proof (induction st rule: huff_inner.induct)
  case (1 st)
  show ?case
  proof (cases "MAX_BITS \<le> bt_held (hs_bits st)")
    case True
    from huff_step_inv [OF 1(2) True] show ?thesis
    proof (elim disjE exE conjE)
      fix t assume "huff_step st = Some (Inl st)" "rest_bits (hs_bits st) = code_bits 256 @ t"
      then show ?thesis using True 1(2) by (intro disjI1) (subst huff_inner.simps, simp)
    next
      fix st' assume st': "huff_step st = Some (Inr st')" "huff_inv input st'"
      then show ?thesis using 1(1) [OF True st'(1) refl st'(2)] True by (subst (1 2) huff_inner.simps) simp
    qed
  next
    case False
    then show ?thesis using 1(2) by (intro disjI2) (subst huff_inner.simps, simp)
  qed
qed

lemma bits_fill_inv: "huff_inv input st \<Longrightarrow> huff_inv input (st\<lparr> hs_bits := bits_fill (hs_bits st) \<rparr>)"
  using bits_fill_rest [of "hs_bits st"] by (auto simp: huff_inv_def)

lemma huff_outer_inv:
  assumes "huff_inv input st"
  shows "(\<exists>st' t. huff_outer st = Some (Inl st') \<and> huff_inv input st' \<and> rest_bits (hs_bits st') = code_bits 256 @ t) \<or>
    (\<exists>st'. huff_outer st = Some (Inr st') \<and> huff_inv input st' \<and> bt_input (hs_bits st') = [])"
  using assms
proof (induction st rule: huff_outer.induct)
  case (1 st)
  let ?st = "st\<lparr> hs_bits := bits_fill (hs_bits st) \<rparr>"
  from huff_inner_inv [OF bits_fill_inv [OF 1(2)]] show ?case
  proof (elim disjE exE conjE)
    fix st' t assume "huff_inner ?st = Some (Inl st')" "huff_inv input st'" "rest_bits (hs_bits st') = code_bits 256 @ t"
    then show ?thesis by (intro disjI1) (subst huff_outer.simps, simp)
  next
    fix st' assume st': "huff_inner ?st = Some (Inr st')" "huff_inv input st'"
    show ?thesis
    proof (cases "bt_input (hs_bits st') = []")
      case True
      then show ?thesis using st' by (intro disjI2) (subst huff_outer.simps, simp)
    next
      case False
      then show ?thesis using 1(1) [OF st'(1) refl False st'(2)] st'(1) by (subst (1 2) huff_outer.simps) simp
    qed
  qed
qed

lemma is_padding_iff:
  assumes "bt_input b = []" "bt_held b \<le> 64"
  shows "is_padding b \<longleftrightarrow> length (rest_bits b) < 8 \<and> rest_bits b = replicate (length (rest_bits b)) True"
proof -
  have "bt_window b AND bits_mask b = bits_mask b \<longleftrightarrow> (\<forall>j<64. 64 - bt_held b \<le> j \<longrightarrow> bit (bt_window b) j)"
    by (auto simp: bit_eq_iff bit_simps bits_mask_def bit_ones_below)
  also have "\<dots> \<longleftrightarrow> (\<forall>i<bt_held b. bit (bt_window b) (63 - i))"
  proof safe
    fix i assume "\<forall>j<64. 64 - bt_held b \<le> j \<longrightarrow> bit (bt_window b) j" "i < bt_held b"
    moreover have "63 - i < 64" "64 - bt_held b \<le> 63 - i" using \<open>i < bt_held b\<close> assms(2) by linarith+
    ultimately show "bit (bt_window b) (63 - i)" by blast
  next
    fix j :: nat assume h: "\<forall>i<bt_held b. bit (bt_window b) (63 - i)" "j < 64" "64 - bt_held b \<le> j"
    then have "63 - j < bt_held b" "63 - (63 - j) = j" by linarith+
    then show "bit (bt_window b) j" using h(1) by metis
  qed
  also have "\<dots> \<longleftrightarrow> top (bt_held b) (bt_window b) = replicate (bt_held b) True"
    by (auto simp: top_def list_eq_iff_nth_eq)
  finally show ?thesis using assms(1) by (simp add: is_padding_def rest_bits_def)
qed

lemma top_padded: "m \<le> bt_held b \<Longrightarrow> bt_held b \<le> 64 \<Longrightarrow> top m (bits_padded b) = top m (bt_window b)"
  by (auto simp: top_def bits_padded_def bit_simps bit_ones_below)

text \<open>
  What stops the decoder: valid padding, the end-of-string code word, or bits that are neither
  padding nor begin with a code word.
\<close>

definition all_ones :: "bool list \<Rightarrow> bool" where
  "all_ones t \<longleftrightarrow> length t < 8 \<and> t = replicate (length t) True"

definition starts_code :: "bool list \<Rightarrow> nat \<Rightarrow> bool" where
  "starts_code t v \<longleftrightarrow> v < 257 \<and> take (code_len v) t = code_bits v"

lemma huff_tail_inv:
  assumes "huff_inv input st" "bt_input (hs_bits st) = []"
  shows "(\<exists>st'. huff_tail st = Some (Inl st') \<and> huff_inv input st' \<and> starts_code (rest_bits (hs_bits st')) 256) \<or>
    (\<exists>st'. huff_tail st = Some (Inr st') \<and> huff_inv input st' \<and>
       (if is_padding (hs_bits st') then all_ones (rest_bits (hs_bits st'))
        else \<not> all_ones (rest_bits (hs_bits st')) \<and> (\<forall>v. \<not> starts_code (rest_bits (hs_bits st')) v)))"
  using assms
proof (induction st rule: huff_tail.induct)
  case (1 st)
  let ?b = "hs_bits st"
  have held: "bt_held ?b \<le> 64" using 1(2) by (simp add: huff_inv_def)
  have padding: "is_padding ?b \<longleftrightarrow> all_ones (rest_bits ?b)"
    using is_padding_iff [OF 1(3) held] by (simp add: all_ones_def)
  show ?case
  proof (cases "is_padding ?b")
    case True
    then show ?thesis using 1(2) padding by (intro disjI2) (subst huff_tail.simps, simp)
  next
    case nopad: False
    obtain v where v: "spells (bits_padded ?b) v" using spells_exists by blast
    then have v257: "v < 257" by (simp add: spells_def)
    note sym = symbol_spells [OF v]
    have top: "top m (bits_padded ?b) = take m (rest_bits ?b)" if "m \<le> bt_held ?b" for m
      using that held 1(3) by (simp add: top_padded rest_bits_def take_top)
    have whole: "code_len u \<le> bt_held ?b \<and> u = v" if "starts_code (rest_bits ?b) u" for u
    proof -
      have u: "u < 257" "take (code_len u) (rest_bits ?b) = code_bits u" using that by (auto simp: starts_code_def)
      then have "length (take (code_len u) (rest_bits ?b)) = code_len u" by simp
      then have len: "code_len u \<le> bt_held ?b" using 1(3) by (simp add: length_rest_bits)
      then have "spells (bits_padded ?b) u" using u by (simp add: spells_top top)
      with len show ?thesis using spells_unique [OF v] by auto
    qed
    show ?thesis
    proof (cases "bt_held ?b < code_len v")
      case True
      then have "\<forall>u. \<not> starts_code (rest_bits ?b) u" using whole by force
      then show ?thesis using True nopad padding 1(2) by (intro disjI2) (subst huff_tail.simps, simp add: sym)
    next
      case False
      then have start: "starts_code (rest_bits ?b) v" using v by (simp add: starts_code_def spells_top top)
      then have rest: "rest_bits ?b = code_bits v @ drop (code_len v) (rest_bits ?b)"
        by (metis append_take_drop_id starts_code_def)
      show ?thesis
      proof (cases "v = 256")
        case True
        then show ?thesis using False start nopad 1(2) sym symbol_is_EOS [of 256]
          by (intro disjI1) (subst huff_tail.simps, simp)
      next
        case neos: False
        then have v256: "v < 256" using v257 by simp
        have ne: "(word_of_nat v :: u16) \<noteq> word_of_nat EOS" using neos v257 by (simp add: symbol_is_EOS)
        obtain st' where st': "write_symbols [word_of_nat v] 1 (word_of_nat v) (code_len v) st = Some st'"
          "huff_inv input st'" "bt_input (hs_bits st') = bt_input ?b"
          using write_one [OF 1(2) v256 rest] False by (metis not_less)
        have "huff_tail st = huff_tail st'"
          using nopad False ne st'(1) v256 by (subst huff_tail.simps) (simp add: sym symbol_octet)
        moreover have "(\<exists>st''. huff_tail st' = Some (Inl st'') \<and> huff_inv input st'' \<and> starts_code (rest_bits (hs_bits st'')) 256) \<or>
          (\<exists>st''. huff_tail st' = Some (Inr st'') \<and> huff_inv input st'' \<and>
             (if is_padding (hs_bits st'') then all_ones (rest_bits (hs_bits st''))
              else \<not> all_ones (rest_bits (hs_bits st'')) \<and> (\<forall>v. \<not> starts_code (rest_bits (hs_bits st'')) v)))"
          using 1(1) [OF nopad sym [symmetric] refl] False ne st' 1(3) v256 by (simp add: symbol_octet)
        ultimately show ?thesis by simp
      qed
    qed
  qed
qed

subsection \<open>What decoding answers\<close>

lemma high_bit: "b AND 0x80 = 0 \<longleftrightarrow> \<not> bit (b :: octet) 7"
  using and_exp_eq_0_iff_not_bit [of b 7] by simp

lemma huff_decode_spec:
  obtains d t r where "decode_into_ascii input out = Some (out @ d, r)" "stream input = codes d @ t"
    "r = Inr (\<forall>x\<in>set d. \<not> bit x 7) \<and> all_ones t \<or>
     r = Inl InvalidPadding \<and> \<not> all_ones t \<and> (starts_code t 256 \<or> (\<forall>v. \<not> starts_code t v))"
proof -
  let ?st = "\<lparr> hs_bits = bits_new input, hs_room = replicate (length input * 8 div 5 + PAIR_MOST) 0,
      hs_written = 0, hs_seen = 0 \<rparr>"
  have inv: "huff_inv input ?st" by (simp add: huff_inv_def bits_new_def rest_bits_def top_def)
  have eos: "\<not> all_ones t" if "starts_code t 256" for t
  proof -
    have "length (take (code_len 256) t) = code_len 256" using that by (simp add: starts_code_def)
    then show ?thesis by (auto simp: code_len_256 all_ones_def min_def split: if_splits)
  qed
  note def = decode_into_ascii_def [of input out, unfolded Let_def]
  from huff_outer_inv [OF inv] show ?thesis
  proof (elim disjE exE conjE)
    fix st' t assume st': "huff_outer ?st = Some (Inl st')" "huff_inv input st'" "rest_bits (hs_bits st') = code_bits 256 @ t"
    have "starts_code (rest_bits (hs_bits st')) 256" using st'(3) by (simp add: starts_code_def)
    then show ?thesis using st'(1,2) eos
      by (intro that [of "take (hs_written st') (hs_room st')" "Inl InvalidPadding" "rest_bits (hs_bits st')"])
        (auto simp: def huff_inv_def)
  next
    fix st' assume st': "huff_outer ?st = Some (Inr st')" "huff_inv input st'" "bt_input (hs_bits st') = []"
    from huff_tail_inv [OF st'(2,3)] show ?thesis
    proof (elim disjE exE conjE)
      fix u assume u: "huff_tail st' = Some (Inl u)" "huff_inv input u" "starts_code (rest_bits (hs_bits u)) 256"
      then show ?thesis using st'(1) eos
        by (intro that [of "take (hs_written u) (hs_room u)" "Inl InvalidPadding" "rest_bits (hs_bits u)"])
          (auto simp: def huff_inv_def)
    next
      fix u assume u: "huff_tail st' = Some (Inr u)" "huff_inv input u"
        "if is_padding (hs_bits u) then all_ones (rest_bits (hs_bits u))
         else \<not> all_ones (rest_bits (hs_bits u)) \<and> (\<forall>v. \<not> starts_code (rest_bits (hs_bits u)) v)"
      then have "decode_into_ascii input out = Some (out @ take (hs_written u) (hs_room u),
          if is_padding (hs_bits u) then Inr (\<not> bit (hs_seen u) 7) else Inl InvalidPadding)"
        using st'(1) by (simp add: def high_bit)
      then show ?thesis using u(2,3)
        by (intro that [of "take (hs_written u) (hs_room u)"
              "if is_padding (hs_bits u) then Inr (\<not> bit (hs_seen u) 7) else Inl InvalidPadding" "rest_bits (hs_bits u)"])
          (auto simp: huff_inv_def split: if_splits)
    qed
  qed
qed

text \<open>The code words are prefix-free, and none of them begins valid padding.\<close>

lemma starts_code_unique:
  assumes "starts_code t u" "starts_code t v"
  shows "u = v"
proof -
  have "x = y" if xy: "starts_code t x" "starts_code t y" "code_len x \<le> code_len y" for x y
  proof -
    obtain w where w: "spells w y" "\<And>i. i < code_len y \<Longrightarrow> bit w (63 - i) = code_bits y ! i"
    proof -
      let ?w = "push_bit (64 - code_len y) (ucast (sym_code (TABLE ! y))) :: u64"
      have y: "y < 257" using xy(2) by (simp add: starts_code_def)
      have "bit ?w (63 - i) = code_bits y ! i" if "i < code_len y" for i
      proof -
        have "63 - i - (64 - code_len y) = code_len y - 1 - i" "64 - code_len y \<le> 63 - i" "code_len y - 1 - i < 64" "63 - i < 64"
          using that code_len_bounds(2) [OF y] by linarith+
        then show ?thesis using that by (auto simp: bit_simps code_bits_def low_def dest: bit_imp_le_length)
      qed
      moreover from this have "spells ?w y" using y by (auto simp: spells_top top_def list_eq_iff_nth_eq)
      ultimately show ?thesis using that by blast
    qed
    have "code_bits x = take (code_len x) (code_bits y)"
      using xy by (metis min.absorb1 starts_code_def take_take)
    then have "top (code_len x) w = code_bits x"
      using w(2) xy(3) by (auto simp: top_def list_eq_iff_nth_eq)
    then have "spells w x" using xy(1) by (simp add: spells_top starts_code_def)
    then show ?thesis using w(1) spells_unique by blast
  qed
  with assms show ?thesis by (metis nle_le)
qed

lemma spells_all_ones: "spells (- 1) 256"
proof -
  have "TABLE ! 256 = Symbol 0x3fffffff 30"
    by (simp add: TABLE_def TABLE_ascii_def TABLE_high_def)
  moreover have "drop_bit 34 (- 1 :: u64) = 0x3fffffff" by code_simp
  ultimately show ?thesis by (simp add: spells_drop)
qed

lemma padding_no_code: "all_ones t \<Longrightarrow> \<not> starts_code t v"
proof
  assume t: "all_ones t" "starts_code t v"
  then have v: "v < 257" "take (code_len v) t = code_bits v" by (auto simp: starts_code_def)
  from arg_cong [OF v(2), of length] have len: "code_len v \<le> length t" by simp
  then have "code_bits v = replicate (code_len v) True"
    using t(1) v(2) by (metis all_ones_def min.absorb1 take_replicate)
  then have "spells (- 1) v" using v code_len_bounds(2) [OF v(1)]
    by (auto simp: spells_top top_def list_eq_iff_nth_eq)
  then have "v = 256" using spells_all_ones spells_unique by blast
  then show False using len t(1) by (simp add: code_len_256 all_ones_def)
qed

text \<open>So the code words of a string and its padding are read back in one way only.\<close>

lemma codes_unique:
  assumes "codes xs @ s = codes ys @ t"
    and "all_ones s" "all_ones t \<or> starts_code t 256 \<or> (\<forall>v. \<not> starts_code t v)"
  shows "xs = ys \<and> s = t"
  using assms(1)
proof (induction xs arbitrary: ys)
  case Nil
  show ?case
  proof (cases ys)
    case (Cons y ys')
    then have "starts_code s (unat y)" using Nil by (simp add: starts_code_def)
    then show ?thesis using padding_no_code assms(2) by blast
  qed (use Nil in simp)
next
  case (Cons x xs)
  have x: "starts_code (codes ys @ t) (unat x)" using Cons.prems [symmetric] by (simp add: starts_code_def)
  show ?case
  proof (cases ys)
    case Nil
    then have "starts_code t (unat x)" using x by simp
    moreover have "unat x \<noteq> 256" using octet_less(1) [of x] by linarith
    ultimately show ?thesis using assms(3) padding_no_code starts_code_unique by blast
  next
    case ys: (Cons y ys')
    then have "starts_code (codes ys @ t) (unat y)" by (simp add: starts_code_def)
    then have "unat x = unat y" using x starts_code_unique by blast
    then have "x = y" by (simp add: word_unat_eq_iff)
    then show ?thesis using Cons ys by simp
  qed
qed

subsection \<open>What encoding writes\<close>

lemma nth_low: "i < n \<Longrightarrow> low n w ! i = bit w (n - 1 - i)"
  by (simp add: low_def)

lemma low_push:
  fixes p :: u64 and c :: u32
  assumes "n + m \<le> 64" "\<And>i. m \<le> i \<Longrightarrow> \<not> bit c i"
  shows "low (n + m) (push_bit m p OR ucast c) = low n p @ low m c"
proof (rule nth_equalityI)
  fix i assume "i < length (low (n + m) (push_bit m p OR ucast c))"
  then have i: "i < n + m" by simp
  show "low (n + m) (push_bit m p OR ucast c) ! i = (low n p @ low m c) ! i"
  proof (cases "i < n")
    case True
    then have "m \<le> n + m - 1 - i" "n + m - 1 - i - m = n - 1 - i" "n + m - 1 - i < 64" using assms(1) by linarith+
    then show ?thesis using True i assms(2) by (simp add: nth_low nth_append bit_simps)
  next
    case False
    then have "n + m - 1 - i = m - 1 - (i - n)" "m - 1 - (i - n) < m" "m - 1 - (i - n) < 64" using i assms(1) by linarith+
    then show ?thesis using False i by (auto simp: nth_low nth_append bit_simps dest: bit_imp_le_length)
  qed
qed simp

lemma low_split: "low (m + n) w = low m (drop_bit n w) @ low n w"
  by (rule nth_equalityI) (auto simp: nth_low nth_append bit_simps add.commute intro!: arg_cong [where f = "bit w"])

lemma low_ucast: "n \<le> LENGTH('b::len) \<Longrightarrow> low n (ucast (w :: 'a::len word) :: 'b word) = low n w"
  by (auto simp: low_def bit_simps)

lemma stream_single: "stream [b] = low 8 b"
  by (simp add: low_def)

lemma stream_be: "stream (to_be_bytes (w :: u32)) = low 32 w"
proof (rule nth_equalityI)
  show "length (stream (to_be_bytes w)) = length (low 32 w)" by (simp add: length_simps)
  fix i assume "i < length (stream (to_be_bytes w))"
  then have i: "i < 32" by (simp add: length_simps)
  have "i = 8 * (i div 8) + i mod 8" "i mod 8 < 8" "i div 8 < 4" using i by (simp_all add: less_mult_imp_div_less)
  then have idx: "8 * (3 - i div 8) + (7 - i mod 8) = 31 - i" and "3 - i div 8 < 4" "4 - Suc (i div 8) = 3 - i div 8"
    "7 - i mod 8 < 8" by linarith+
  then show "stream (to_be_bytes w) ! i = low 32 w ! i" using i \<open>i div 8 < 4\<close>
    by (simp add: nth_stream length_simps to_be_bytes_def rev_nth to_le_bytes_def nth_low bit_simps)
      (simp only: idx)
qed

lemma encode_fold:
  "case fold encode_octet input (0, 0, out) of (pending, bits, out') \<Rightarrow>
     bits < 32 \<and> (\<exists>e. out' = out @ e \<and> stream e @ low bits pending = codes input)"
proof (induction input rule: rev_induct)
  case (snoc b input)
  obtain pending bits e where fold: "fold encode_octet input (0, 0, out) = (pending, bits, out @ e)"
    and bits: "bits < 32" and e: "stream e @ low bits pending = codes input"
    using snoc by (auto split: prod.splits)
  let ?s = "TABLE ! unat b"
  let ?n = "sym_length ?s" and ?p = "push_bit (sym_length ?s) pending OR ucast (sym_code ?s)"
  have step: "fold encode_octet (input @ [b]) (0, 0, out) = encode_octet b (pending, bits, out @ e)"
    by (simp add: fold)
  have n: "bits + ?n \<le> 64" using bits code_len_bounds(2) [of "unat b"] octet_less(2) [of b] by linarith
  have low: "low (bits + ?n) ?p = low bits pending @ code_bits (unat b)"
    unfolding code_bits_def by (rule low_push [OF n]) (simp add: code_bit_high)
  show ?case
  proof (cases "32 \<le> bits + ?n")
    case True
    let ?word = "to_be_bytes (ucast (drop_bit (bits + ?n - 32) ?p) :: u32)"
    have "low (bits + ?n) ?p = low (32 + (bits + ?n - 32)) ?p" using True by simp
    also have "\<dots> = stream ?word @ low (bits + ?n - 32) ?p"
      unfolding low_split stream_be by (subst low_ucast) simp_all
    finally have p: "stream ?word @ low (bits + ?n - 32) ?p = low bits pending @ code_bits (unat b)"
      by (simp only: low)
    have "stream (e @ ?word) @ low (bits + ?n - 32) ?p = (stream e @ low bits pending) @ code_bits (unat b)"
      by (simp only: stream_simps append_assoc p)
    then have "stream (e @ ?word) @ low (bits + ?n - 32) ?p = codes (input @ [b])" by (simp add: e)
    moreover have "bits + ?n - 32 < 32"
      using bits code_len_bounds(2) [of "unat b"] octet_less(2) [of b] by linarith
    ultimately show ?thesis using True unfolding step by (auto simp: encode_octet_def Let_def)
  next
    case False
    then show ?thesis using low e unfolding step by (auto simp: encode_octet_def Let_def)
  qed
qed (simp add: low_def)

lemma encode_drain_spec:
  assumes "bits < 64"
  obtains e k where "encode_drain pending bits out = out @ e" "stream e = low bits pending @ replicate k True" "k < 8"
  using assms
proof (induction pending bits out arbitrary: thesis rule: encode_drain.induct)
  case (1 pending bits out)
  show ?case
  proof (cases "8 \<le> bits")
    case True
    let ?b = "ucast (drop_bit (bits - 8) pending) :: octet"
    obtain e k where e: "encode_drain pending (bits - 8) (out @ [?b]) = (out @ [?b]) @ e"
      "stream e = low (bits - 8) pending @ replicate k True" "k < 8"
      using 1(1) [OF True, of thesis] 1(3) by (metis less_imp_diff_less)
    have "low bits pending = low (8 + (bits - 8)) pending" using True by simp
    also have "\<dots> = stream [?b] @ low (bits - 8) pending"
      unfolding low_split stream_single by (subst low_ucast) simp_all
    finally have "stream ([?b] @ e) = low bits pending @ replicate k True" using e(2) by simp
    moreover have "encode_drain pending bits out = out @ [?b] @ e"
      using True e(1) by (subst encode_drain.simps) simp
    ultimately show ?thesis using e(3) 1(2) by blast
  next
    case False
    show ?thesis
    proof (cases "0 < bits")
      case True
      let ?m = "8 - bits"
      let ?b = "ucast (push_bit ?m pending OR (push_bit ?m 1 - 1)) :: octet"
      have mask: "push_bit ?m 1 - 1 = (mask ?m :: u64)" by (simp add: mask_eq_decr_exp push_bit_eq_mult)
      have "stream [?b] = low bits pending @ replicate ?m True"
      proof (rule nth_equalityI)
        show "length (stream [?b]) = length (low bits pending @ replicate ?m True)" using False by simp
        fix i assume "i < length (stream [?b])"
        then have i: "i < 8" by simp
        show "stream [?b] ! i = (low bits pending @ replicate ?m True) ! i"
        proof (cases "i < bits")
          case True
          then have "7 - i - ?m = bits - 1 - i" "?m \<le> 7 - i" "\<not> 7 - i < ?m" "7 - i < 64" "7 - i < 8"
            using False by linarith+
          then show ?thesis using True i unfolding stream_single mask
            by (simp add: nth_low nth_append bit_simps)
        next
          case no: False
          then have "7 - i < ?m" "7 - i < 64" "7 - i < 8" using i by linarith+
          then show ?thesis using no i False unfolding stream_single mask
            by (simp add: nth_low nth_append bit_simps)
        qed
      qed
      moreover have "encode_drain pending bits out = out @ [?b]"
        using True False by (subst encode_drain.simps) simp
      moreover have "?m < 8" using True by simp
      ultimately show ?thesis using 1(2) by blast
    next
      case no: False
      then have "encode_drain pending bits out = out @ []" by (subst encode_drain.simps) simp
      moreover have "stream [] = low bits pending @ replicate 0 True" using no by (simp add: low_def)
      ultimately show ?thesis using 1(2) [of "[]" 0] by simp
    qed
  qed
qed

lemma length_codes_LENGTHS: "length (codes input) = sum_list (map (\<lambda>b. LENGTHS ! unat b) input)"
  by (induction input) (simp_all add: LENGTHS_map length_TABLE)

lemma encode_sized_spec:
  obtains e k where "encode_sized input out = out @ e" "stream e = codes input @ replicate k True" "k < 8"
    "length e = encoded_len input"
proof -
  obtain pending bits e where fold: "fold encode_octet input (0, 0, out) = (pending, bits, out @ e)"
    and bits: "bits < 32" and e: "stream e @ low bits pending = codes input"
    using encode_fold [of out input] by (auto split: prod.splits)
  obtain e' k where e': "encode_drain pending bits (out @ e) = (out @ e) @ e'"
    "stream e' = low bits pending @ replicate k True" "k < 8"
    using encode_drain_spec [of bits pending "out @ e"] bits by auto
  have s: "stream (e @ e') = codes input @ replicate k True" using e e'(2) by simp
  from arg_cong [OF this, of length] have "8 * length (e @ e') = length (codes input) + k" by simp
  then have "length (e @ e') = (length (codes input) + 7) div 8" using e'(3) by linarith
  then show ?thesis using s e'(1,3) fold
    by (intro that [of "e @ e'" k]) (auto simp: encode_sized_def encoded_len_def length_codes_LENGTHS)
qed

subsection \<open>The codec\<close>

lemma huff_decode_total: "\<exists>r. decode_into_ascii input out = Some r"
  by (rule huff_decode_spec [of input out]) blast

lemma huff_decode_iff:
  "huff_decode input = Some (Inr x) \<longleftrightarrow> (\<exists>k<8. stream input = codes x @ replicate k True)"
proof -
  obtain d t r where dec: "decode_into_ascii input [] = Some ([] @ d, r)" and s: "stream input = codes d @ t"
    and r: "r = Inr (\<forall>x\<in>set d. \<not> bit x 7) \<and> all_ones t \<or>
      r = Inl InvalidPadding \<and> \<not> all_ones t \<and> (starts_code t 256 \<or> (\<forall>v. \<not> starts_code t v))"
    by (rule huff_decode_spec [of input "[]"]) blast
  have "huff_decode input = Some (Inr x) \<longleftrightarrow> d = x \<and> all_ones t"
    using r by (auto simp: huff_decode_def decode_into_def dec)
  also have "\<dots> \<longleftrightarrow> (\<exists>k<8. stream input = codes x @ replicate k True)"
  proof
    assume "d = x \<and> all_ones t"
    then show "\<exists>k<8. stream input = codes x @ replicate k True"
      using s by (intro exI [of _ "length t"]) (simp add: all_ones_def)
  next
    assume "\<exists>k<8. stream input = codes x @ replicate k True"
    then obtain k where k: "k < 8" "codes x @ replicate k True = codes d @ t" using s by auto
    have "all_ones (replicate k True)" using k(1) by (simp add: all_ones_def)
    then have "x = d \<and> replicate k True = t" using r by (intro codes_unique [OF k(2)]) auto
    then show "d = x \<and> all_ones t" using \<open>all_ones (replicate k True)\<close> by auto
  qed
  finally show ?thesis .
qed

lemma huff_encode_stream: "\<exists>k<8. stream (huff_encode x) = codes x @ replicate k True"
  using encode_sized_spec [of x "[]"] unfolding huff_encode_def by (metis append_Nil)

lemma huff_decode_encode: "huff_decode (huff_encode x) = Some (Inr x)"
  using huff_encode_stream by (simp add: huff_decode_iff)

lemma huff_encode_decode:
  assumes "huff_decode input = Some (Inr x)"
  shows "huff_encode x = input"
proof -
  obtain k where k: "k < 8" "stream input = codes x @ replicate k True" using assms by (auto simp: huff_decode_iff)
  obtain j where j: "j < 8" "stream (huff_encode x) = codes x @ replicate j True"
    using huff_encode_stream by blast
  have "8 * length input = length (codes x) + k" "8 * length (huff_encode x) = length (codes x) + j"
    using arg_cong [OF k(2), of length] arg_cong [OF j(2), of length] by simp_all
  then have "j = k" using j(1) k(1) by presburger
  then show ?thesis using j(2) k(2) stream_inj by metis
qed

lemma length_huff_encode: "length (huff_encode x) = encoded_len x"
  using encode_sized_spec [of x "[]"] unfolding huff_encode_def by (metis append_Nil)

lemma encode_into_append: "encode_into x out = out @ huff_encode x"
proof -
  obtain e k where e: "encode_sized x out = out @ e" "stream e = codes x @ replicate k True" "k < 8"
    by (rule encode_sized_spec [of x out]) blast
  then have "huff_decode e = Some (Inr x)" by (auto simp: huff_decode_iff)
  then have "huff_encode x = e" by (rule huff_encode_decode)
  then show ?thesis using e(1) by (simp add: encode_into_def)
qed

lemma decode_into_ascii_encode:
  "decode_into_ascii (huff_encode x) out = Some (out @ x, Inr (\<forall>b\<in>set x. \<not> bit b 7))"
proof -
  obtain d t r where dec: "decode_into_ascii (huff_encode x) out = Some (out @ d, r)"
    and s: "stream (huff_encode x) = codes d @ t"
    and r: "r = Inr (\<forall>x\<in>set d. \<not> bit x 7) \<and> all_ones t \<or>
      r = Inl InvalidPadding \<and> \<not> all_ones t \<and> (starts_code t 256 \<or> (\<forall>v. \<not> starts_code t v))"
    by (rule huff_decode_spec [of "huff_encode x" out]) blast
  obtain k where k: "k < 8" "codes x @ replicate k True = codes d @ t" using huff_encode_stream [of x] s by auto
  have "all_ones (replicate k True)" using k(1) by (simp add: all_ones_def)
  moreover from this have "x = d \<and> replicate k True = t" using r by (intro codes_unique [OF k(2)]) auto
  ultimately show ?thesis using dec r by auto
qed

lemma decode_never_unknown: "decode_into_ascii input out \<noteq> Some (rest, Inl UnknownSymbol)"
  by (rule huff_decode_spec [of input out]) auto

lemma decode_bound:
  assumes "decode_into_ascii input out = Some (out @ d, r)" "stream input = codes d @ t"
  shows "5 * length d \<le> 8 * length input"
  using length_codes [of d] arg_cong [OF assms(2), of length] by simp

interpretation huffman: octet_codec huff_encode "\<lambda>s. Option.bind (huff_decode s) ok_of"
proof
  show "Option.bind (huff_decode (huff_encode x)) ok_of = Some x" for x by (simp add: huff_decode_encode)
  show "Option.bind (huff_decode s) ok_of = Some x \<Longrightarrow> huff_encode x = s" for s x
    by (cases "huff_decode s") (auto intro: huff_encode_decode)
qed

subsection \<open>Properties\<close>

text \<open>C11: decoding succeeds on exactly the octets encoding writes, and answers what was encoded. The
  table-driven decoder undoes the packing of the encoder, and every other input (wrong padding,
  eight or more bits of it, the end-of-string code, a truncated code word) is refused, so a
  string has one encoding.\<close>

theorem huffman_exact: "huff_decode s = Some (Inr x) \<longleftrightarrow> s = huff_encode x"
  using huffman.dec_iff [of s x] by (cases "huff_decode s") auto

text \<open>C12: on every input the decoder returns without taking bits the window does not hold and
  without writing past the room it reserved, which is what its raw pointer relies on; it appends
  at most eight fifths of the input, and its only error is \<open>InvalidPadding\<close>.\<close>

theorem huffman_safe:
  "\<exists>d r. decode_into_ascii input out = Some (out @ d, r) \<and> 5 * length d \<le> 8 * length input \<and>
     (r = Inl InvalidPadding \<or> r = Inr True \<or> r = Inr False)"
proof -
  obtain d t r where d: "decode_into_ascii input out = Some (out @ d, r)" "stream input = codes d @ t"
    "r = Inr (\<forall>x\<in>set d. \<not> bit x 7) \<and> all_ones t \<or>
     r = Inl InvalidPadding \<and> \<not> all_ones t \<and> (starts_code t 256 \<or> (\<forall>v. \<not> starts_code t v))"
    by (rule huff_decode_spec)
  then show ?thesis using decode_bound [OF d(1,2)] by (intro exI [of _ d] exI [of _ r]) auto
qed

text \<open>An encoding is as long as \<open>encoded_len\<close> says, is appended to what the buffer held, and
  decoding it reports whether the text is ASCII.\<close>

lemma huffman_encoding:
  "length (huff_encode x) = encoded_len x \<and> encode_into x out = out @ huff_encode x \<and>
   decode_into_ascii (huff_encode x) out = Some (out @ x, Inr (\<not> (\<exists>b\<in>set x. bit b 7)))"
  by (simp add: length_huff_encode encode_into_append decode_into_ascii_encode)

end
