(* ===== verification/Text_Type.thy ===== *)
theory Text_Type
  imports Scan
begin

section \<open>Texts (src/src/helpers/text.rs)\<close>

text \<open>
  \<open>Text\<close>, the string field names and values are held in: up to \<open>INLINE\<close> octets in place, longer
  ones on the heap. A \<open>str\<close> is the list of its octets, which are valid UTF-8. The main lemmas:
  every constructor builds the one representation of its octets, and so the word-wise comparison
  decides equality of strings.
\<close>

subsection \<open>UTF-8\<close>

text \<open>
  The standard library's reading of UTF-8: how many octets the first sequence of a non-empty
  slice takes, and whether it is well-formed. A malformed one takes its maximal valid prefix.
\<close>

definition is_continuation :: "octet \<Rightarrow> bool" where
  "is_continuation b \<longleftrightarrow> b AND 0xc0 = 0x80"

definition second_ok :: "octet \<Rightarrow> octet \<Rightarrow> bool" where
  "second_ok a b \<longleftrightarrow>
     (if a = 0xe0 then 0xa0 \<le> b \<and> b \<le> 0xbf
      else if a = 0xed then 0x80 \<le> b \<and> b \<le> 0x9f
      else if a = 0xf0 then 0x90 \<le> b \<and> b \<le> 0xbf
      else if a = 0xf4 then 0x80 \<le> b \<and> b \<le> 0x8f
      else is_continuation b)"

definition utf8_width :: "octet \<Rightarrow> nat" where
  "utf8_width a = (if a < 0x80 then 1 else if 0xc2 \<le> a \<and> a \<le> 0xdf then 2
     else if 0xe0 \<le> a \<and> a \<le> 0xef then 3 else if 0xf0 \<le> a \<and> a \<le> 0xf4 then 4 else 0)"

text \<open>The octets after the first that belong to its sequence, at most \<open>n\<close> more.\<close>

fun tail_len :: "octet \<Rightarrow> nat \<Rightarrow> bytes \<Rightarrow> nat" where
  "tail_len a n [] = 0"
| "tail_len a n (b # bs) =
     (if n = 0 then 0 else if second_ok a b then 1 + length (takeWhile is_continuation (take (n - 1) bs)) else 0)"

definition utf8_first :: "octet \<Rightarrow> bytes \<Rightarrow> nat \<times> bool" where
  "utf8_first a bs = (let w = utf8_width a; t = tail_len a (w - 1) bs in (t, 0 < w \<and> t = w - 1))"

lemma tail_len_le: "tail_len a n bs \<le> length bs"
  by (cases bs) (auto intro: order_trans [OF length_takeWhile_le])

text \<open>\<open>String::from_utf8_lossy\<close>: each malformed sequence becomes \<open>U+FFFD\<close>.\<close>

definition REPLACEMENT :: bytes where "REPLACEMENT = [0xef, 0xbf, 0xbd]"

function utf8_lossy :: "bytes \<Rightarrow> bytes" where
  "utf8_lossy [] = []"
| "utf8_lossy (a # bs) =
     (let (t, ok) = utf8_first a bs
      in (if ok then a # take t bs else REPLACEMENT) @ utf8_lossy (drop t bs))"
  by pat_completeness auto
termination by (relation "measure length") auto

text \<open>\<open>std::str::from_utf8(octets).is_ok()\<close>\<close>

function is_utf8 :: "bytes \<Rightarrow> bool" where
  "is_utf8 [] = True"
| "is_utf8 (a # bs) = (let (t, ok) = utf8_first a bs in ok \<and> is_utf8 (drop t bs))"
  by pat_completeness auto
termination by (relation "measure length") auto

lemma utf8_lossy_id: "is_utf8 bs \<Longrightarrow> utf8_lossy bs = bs"
proof (induction bs rule: is_utf8.induct)
  case (2 a bs)
  obtain t ok where first: "utf8_first a bs = (t, ok)" by fastforce
  then have "ok" "is_utf8 (drop t bs)" using 2(2) by auto
  moreover have "utf8_lossy (drop t bs) = drop t bs"
    using 2(1) [OF first [symmetric] refl] \<open>is_utf8 (drop t bs)\<close> \<open>ok\<close> by simp
  ultimately show ?case using first by simp
qed simp

lemma tail_len_take:
  assumes "tail_len a n bs = n"
  shows "tail_len a n (take n bs @ xs) = n"
proof (cases n)
  case 0
  then show ?thesis by (cases xs) simp_all
next
  case (Suc m)
  with assms obtain c cs where bs: "bs = c # cs" "second_ok a c"
    and len: "length (takeWhile is_continuation (take m cs)) = m"
    by (cases bs) (auto split: if_splits)
  have "length (takeWhile is_continuation (take m cs)) \<le> length (take m cs)" by (rule length_takeWhile_le)
  then have full: "length (take m cs) = m" using len by simp
  then show ?thesis using Suc bs len by simp
qed

lemma utf8_first_ok:
  assumes "utf8_first a bs = (t, True)"
  shows "utf8_first a (take t bs @ xs) = (t, True)" "t \<le> length bs"
proof -
  have w: "0 < utf8_width a" "tail_len a (utf8_width a - 1) bs = t" "t = utf8_width a - 1"
    using assms by (auto simp: utf8_first_def Let_def)
  show "t \<le> length bs" using tail_len_le [of a "utf8_width a - 1" bs] w(2) by simp
  have "tail_len a (utf8_width a - 1) (take t bs @ xs) = t"
    using tail_len_take [of a "utf8_width a - 1" bs xs] w by simp
  then show "utf8_first a (take t bs @ xs) = (t, True)" using w by (simp add: utf8_first_def Let_def)
qed

lemma is_utf8_append_seq:
  assumes "utf8_first a bs = (t, True)"
  shows "is_utf8 (a # take t bs @ xs) \<longleftrightarrow> is_utf8 xs"
  using utf8_first_ok(1) [OF assms, of xs] utf8_first_ok(2) [OF assms] by simp

lemma is_utf8_replacement: "is_utf8 (REPLACEMENT @ xs) \<longleftrightarrow> is_utf8 xs"
proof -
  have "utf8_first 0xef [0xbf, 0xbd] = (2, True)" by code_simp
  from is_utf8_append_seq [OF this, of xs] show ?thesis by (simp add: REPLACEMENT_def numeral_2_eq_2)
qed

lemma is_utf8_lossy: "is_utf8 (utf8_lossy bs)"
proof (induction bs rule: utf8_lossy.induct)
  case (2 a bs)
  obtain t ok where first: "utf8_first a bs = (t, ok)" by fastforce
  have rec: "is_utf8 (utf8_lossy (drop t bs))" using 2 first by simp
  show ?case
  proof (cases ok)
    case True
    then show ?thesis using rec first is_utf8_append_seq [of a bs t "utf8_lossy (drop t bs)"] by simp
  next
    case False
    then show ?thesis using rec first by (simp add: is_utf8_replacement)
  qed
qed simp

definition is_ascii :: "bytes \<Rightarrow> bool" where
  "is_ascii bs \<longleftrightarrow> list_all (\<lambda>b. b < 0x80) bs"

lemma is_ascii_utf8: "is_ascii bs \<Longrightarrow> is_utf8 bs"
proof (induction bs)
  case (Cons a bs)
  then have "utf8_first a bs = (0, True)"
    by (cases bs) (auto simp: is_ascii_def utf8_first_def utf8_width_def)
  with Cons show ?case by (simp add: is_ascii_def)
qed simp

definition lower_octet :: "octet \<Rightarrow> octet" where
  "lower_octet b = (if 0x41 \<le> b \<and> b \<le> 0x5a then b + 32 else b)"

abbreviation lowercase :: "bytes \<Rightarrow> bytes" where
  "lowercase \<equiv> map lower_octet"

lemma lower_octet_ascii [simp]: "lower_octet b < 0x80 \<longleftrightarrow> b < 0x80"
  by (rule octet_all) code_simp

lemma lower_octet_cont [simp]: "is_continuation (lower_octet b) \<longleftrightarrow> is_continuation b"
  by (rule octet_all) code_simp

lemma lower_octet_high: "\<not> b < 0x80 \<Longrightarrow> lower_octet b = b"
proof -
  have "b < 0x80 \<or> lower_octet b = b" by (rule octet_all) code_simp
  then show "\<not> b < 0x80 \<Longrightarrow> lower_octet b = b" by simp
qed

text \<open>Lowercasing touches ASCII letters only, so it keeps a string well-formed.\<close>

lemma second_ok_high: "second_ok a b \<Longrightarrow> \<not> b < 0x80"
proof -
  have "(0xa0 \<le> b \<longrightarrow> \<not> b < 0x80) \<and> (0x90 \<le> b \<longrightarrow> \<not> b < 0x80) \<and> (0x80 \<le> b \<longrightarrow> \<not> b < 0x80) \<and>
    (is_continuation b \<longrightarrow> \<not> b < 0x80)" by (rule octet_all) code_simp
  then show "second_ok a b \<Longrightarrow> \<not> b < 0x80" unfolding second_ok_def by presburger
qed

lemma second_ok_lower [simp]: "second_ok a (lower_octet b) = second_ok a b"
  using second_ok_high [of a b] second_ok_high [of a "lower_octet b"] lower_octet_high [of b] by auto

lemma utf8_first_lower:
  assumes "\<not> a < 0x80"
  shows "utf8_first a (lowercase bs) = utf8_first a bs"
proof -
  have "tail_len a n (lowercase bs) = tail_len a n bs" for n
    by (cases bs) (auto simp: takeWhile_map o_def take_map)
  then show ?thesis by (simp add: utf8_first_def)
qed

lemma utf8_first_small: "a < 0x80 \<Longrightarrow> utf8_first a bs = (0, True)"
  by (cases bs) (auto simp: utf8_first_def utf8_width_def)

lemma is_utf8_lowercase: "is_utf8 (lowercase bs) = is_utf8 bs"
proof (induction bs rule: is_utf8.induct)
  case (2 a bs)
  obtain t ok where first: "utf8_first a bs = (t, ok)" by fastforce
  show ?case
  proof (cases "a < 0x80")
    case True
    then show ?thesis using 2 [OF utf8_first_small [OF True, symmetric] refl] by (simp add: utf8_first_small)
  next
    case False
    then show ?thesis using 2 [OF first [symmetric] refl] first
      by (cases ok) (simp_all add: utf8_first_lower lower_octet_high drop_map)
  qed
qed simp

subsection \<open>Representation\<close>

definition INLINE :: nat where "INLINE = 30"

datatype utext = Inline (inline_len: nat) (inline_octets: bytes) | Heap (heap_text: bytes)

definition text_new :: utext where
  "text_new = Inline 0 (replicate INLINE 0)"

definition copy_inline :: "bytes \<Rightarrow> bytes" where
  "copy_inline source =
     (let octets = replicate INLINE 0; n = length source
      in if n \<ge> 16 then blit (blit octets 0 (take 16 source)) (n - 16) (drop (n - 16) source)
         else if n \<ge> 8 then blit (blit octets 0 (take 8 source)) (n - 8) (drop (n - 8) source)
         else if n \<ge> 4 then blit (blit octets 0 (take 4 source)) (n - 4) (drop (n - 4) source)
         else if n \<ge> 2 then blit (blit octets 0 (take 2 source)) (n - 2) (drop (n - 2) source)
         else if n = 1 then octets[0 := source ! 0]
         else octets)"

definition same_inline :: "bytes \<Rightarrow> bytes \<Rightarrow> bool" where
  "same_inline left right \<longleftrightarrow>
     ((read_ne left 0 :: 128 word) XOR read_ne right 0) OR
     ((read_ne left (INLINE - 16) :: 128 word) XOR read_ne right (INLINE - 16)) = 0"

definition text_from_str :: "bytes \<Rightarrow> utext" where
  "text_from_str octets =
     (if length octets \<le> INLINE then Inline (length octets) (copy_inline octets) else Heap octets)"

definition text_from_string :: "bytes \<Rightarrow> utext" where
  "text_from_string octets = (if length octets \<le> INLINE then text_from_str octets else Heap octets)"

definition text_from_utf8_lossy :: "bytes \<Rightarrow> utext" where
  "text_from_utf8_lossy octets =
     (if is_utf8 octets then text_from_str octets else text_from_string (utf8_lossy octets))"

text \<open>The body \<open>from_ascii_lowercase\<close> shares with its \<open>unsafe\<close> sibling: a whole-buffer copy,
  of which the octets that hold the text are lowercased in place.\<close>

definition from_verified_ascii_lowercase :: "bytes \<Rightarrow> utext" where
  "from_verified_ascii_lowercase octets =
     (if length octets \<le> INLINE then
        let inline = copy_inline octets
        in Inline (length octets) (lowercase (take (length octets) inline) @ drop (length octets) inline)
      else Heap (lowercase octets))"

definition from_ascii_lowercase :: "bytes \<Rightarrow> utext" where
  "from_ascii_lowercase octets =
     (if \<not> is_ascii octets then text_from_string (lowercase (utf8_lossy octets))
      else from_verified_ascii_lowercase octets)"

definition from_verified_ascii :: "bytes \<Rightarrow> utext" where
  "from_verified_ascii octets =
     (if length octets \<le> INLINE then Inline (length octets) (copy_inline octets) else Heap octets)"

definition text_from_ascii :: "bytes \<Rightarrow> utext" where
  "text_from_ascii octets =
     (if is_ascii octets then
        if length octets \<le> INLINE then Inline (length octets) (copy_inline octets)
        else text_from_utf8_lossy octets
      else text_from_utf8_lossy octets)"

fun text_bytes :: "utext \<Rightarrow> bytes" where
  "text_bytes (Inline n octets) = take n octets"
| "text_bytes (Heap octets) = octets"

fun text_len :: "utext \<Rightarrow> nat" where
  "text_len (Inline n octets) = n"
| "text_len (Heap octets) = length octets"

definition text_is_empty :: "utext \<Rightarrow> bool" where
  "text_is_empty t \<longleftrightarrow> text_len t = 0"

definition is_inline :: "utext \<Rightarrow> bool" where
  "is_inline t = (case t of Inline _ _ \<Rightarrow> True | Heap _ \<Rightarrow> False)"

text \<open>A shared heap buffer is copied before it is written, so nobody else sees the change.\<close>

fun make_ascii_lowercase :: "utext \<Rightarrow> utext" where
  "make_ascii_lowercase (Inline n octets) = Inline n (lowercase (take n octets) @ drop n octets)"
| "make_ascii_lowercase (Heap octets) = Heap (lowercase octets)"

fun text_eq :: "utext \<Rightarrow> utext \<Rightarrow> bool" where
  "text_eq (Inline n octets) (Inline m others) = (n = m \<and> same_inline octets others)"
| "text_eq s t = (text_len s = text_len t \<and> text_bytes s = text_bytes t)"

definition text_eq_str :: "utext \<Rightarrow> bytes \<Rightarrow> bool" where
  "text_eq_str t s = scan_same (text_bytes t) s"

subsection \<open>One representation for each string\<close>

text \<open>A text holds a string in place where it fits, with zeroes past its end.\<close>

definition text_of :: "bytes \<Rightarrow> utext" where
  "text_of s = (if length s \<le> INLINE then Inline (length s) (s @ replicate (INLINE - length s) 0) else Heap s)"

definition text_ok :: "utext \<Rightarrow> bool" where
  "text_ok t \<longleftrightarrow> t = text_of (text_bytes t) \<and> is_utf8 (text_bytes t)"

lemma text_bytes_of [simp]: "text_bytes (text_of s) = s"
  by (simp add: text_of_def)

lemma text_ok_of [simp]: "text_ok (text_of s) \<longleftrightarrow> is_utf8 s"
  by (simp add: text_ok_def)

lemma overlapping_blit:
  assumes "k \<le> n" "n \<le> 2 * k" "length source = n" "n \<le> m"
  shows "blit (blit (replicate m z) 0 (take k source)) (n - k) (drop (n - k) source)
    = source @ replicate (m - n) z"
proof (rule nth_equalityI)
  have len: "length (blit (replicate m z) 0 (take k source)) = m"
    using assms by (simp add: length_blit)
  show "length (blit (blit (replicate m z) 0 (take k source)) (n - k) (drop (n - k) source)) =
    length (source @ replicate (m - n) z)" using assms len by (subst length_blit) auto
  fix i assume "i < length (blit (blit (replicate m z) 0 (take k source)) (n - k) (drop (n - k) source))"
  then have i: "i < m" using assms len by (subst (asm) length_blit) auto
  show "blit (blit (replicate m z) 0 (take k source)) (n - k) (drop (n - k) source) ! i =
    (source @ replicate (m - n) z) ! i"
    using assms i len by (subst nth_blit) (auto simp: nth_blit nth_append)
qed

lemma copy_inline_spec:
  assumes "length s \<le> INLINE"
  shows "copy_inline s = s @ replicate (INLINE - length s) 0"
proof -
  have "length s = 0 \<or> length s = 1 \<or> 2 \<le> length s" by linarith
  moreover have "copy_inline s = s @ replicate (INLINE - length s) 0" if "length s = 1"
    using that by (cases s) (auto simp: copy_inline_def INLINE_def numeral_eq_Suc)
  moreover have "copy_inline s = s @ replicate (INLINE - length s) 0" if "2 \<le> length s"
    using assms that by (auto simp: copy_inline_def Let_def INLINE_def intro: overlapping_blit)
  moreover have "copy_inline s = s @ replicate (INLINE - length s) 0" if "length s = 0"
    using that by (simp add: copy_inline_def INLINE_def)
  ultimately show ?thesis by blast
qed

lemma text_from_str_of: "text_from_str s = text_of s" "text_from_string s = text_of s" "from_verified_ascii s = text_of s"
  by (simp_all add: text_from_str_def text_from_string_def from_verified_ascii_def text_of_def copy_inline_spec)

lemma text_from_utf8_lossy_of: "text_from_utf8_lossy s = text_of (utf8_lossy s)"
  by (simp add: text_from_utf8_lossy_def text_from_str_of utf8_lossy_id)

lemma text_from_ascii_of: "text_from_ascii s = text_of (utf8_lossy s)"
  by (simp add: text_from_ascii_def text_from_utf8_lossy_of is_ascii_utf8 utf8_lossy_id text_of_def copy_inline_spec)

lemma from_verified_ascii_lowercase_of: "from_verified_ascii_lowercase s = text_of (lowercase s)"
  by (simp add: from_verified_ascii_lowercase_def text_of_def copy_inline_spec)

lemma from_ascii_lowercase_of: "from_ascii_lowercase s = text_of (lowercase (utf8_lossy s))"
  by (simp add: from_ascii_lowercase_def text_from_str_of from_verified_ascii_lowercase_of is_ascii_utf8 utf8_lossy_id)

lemma make_ascii_lowercase_of: "make_ascii_lowercase (text_of s) = text_of (lowercase s)"
  by (simp add: text_of_def)

lemma text_len_of: "text_len (text_of s) = length s"
  by (simp add: text_of_def)

lemma text_ok_len: "text_ok t \<Longrightarrow> text_len t = length (text_bytes t)"
  by (metis text_len_of text_ok_def)

lemma text_ok_eq: "text_ok s \<Longrightarrow> text_ok t \<Longrightarrow> s = t \<longleftrightarrow> text_bytes s = text_bytes t"
  by (metis text_ok_def)

lemma same_inline_spec:
  assumes "length xs = INLINE" "length ys = INLINE"
  shows "same_inline xs ys \<longleftrightarrow> xs = ys"
proof
  assume same: "same_inline xs ys"
  have "(read_ne xs 0 :: 128 word) = read_ne ys 0" "(read_ne xs 14 :: 128 word) = read_ne ys 14"
    using same by (auto simp: same_inline_def INLINE_def or_eq_0_iff xor_eq_0_iff)
  then have "take 16 xs = take 16 ys" "take 16 (drop 14 xs) = take 16 (drop 14 ys)"
    using assms by (auto simp: read_ne_def INLINE_def intro: from_le_bytes_inj [where 'a = 128])
  then have "take 16 xs = take 16 ys" "drop 14 xs = drop 14 ys"
    using assms by (simp_all add: INLINE_def)
  moreover have "drop 16 zs = drop 2 (drop 14 zs)" for zs :: bytes by simp
  ultimately have "take 16 xs = take 16 ys" "drop 16 xs = drop 16 ys" by (simp_all only:)
  then show "xs = ys" by (metis append_take_drop_id)
qed (simp add: same_inline_def)

lemma text_eq_spec:
  assumes "text_ok s" "text_ok t"
  shows "text_eq s t \<longleftrightarrow> s = t"
proof -
  obtain a b where ab: "s = text_of a" "t = text_of b" using assms by (metis text_ok_def)
  have inline: "same_inline (a @ replicate (INLINE - length a) 0) (b @ replicate (INLINE - length b) 0)
      = (a = b)" if "length a \<le> INLINE" "length a = length b"
    using that by (subst same_inline_spec) auto
  have "text_eq (text_of a) (text_of b) \<longleftrightarrow> a = b"
    using inline by (auto simp: text_of_def)
  moreover have "text_of a = text_of b \<longleftrightarrow> a = b" by (metis text_bytes_of)
  ultimately show ?thesis by (simp add: ab)
qed

lemma text_eq_str_spec: "text_eq_str t s \<longleftrightarrow> text_bytes t = s"
  by (simp add: text_eq_str_def scan_same_spec)

lemma text_ok_utf8_lossy: "text_ok (text_from_utf8_lossy octets)"
  by (simp add: text_from_utf8_lossy_of is_utf8_lossy)

lemma text_ok_lower: "text_ok t \<Longrightarrow> text_ok (make_ascii_lowercase t) \<and> text_bytes (make_ascii_lowercase t) = lowercase (text_bytes t)"
  by (metis is_utf8_lowercase make_ascii_lowercase_of text_bytes_of text_ok_def text_ok_of)

lemma text_new_ok: "text_ok text_new"
  by (simp add: text_new_def text_ok_def text_of_def)

subsection \<open>Properties\<close>

text \<open>Every safe constructor builds the one representation of a well-formed string: the octets
  as given where they are UTF-8 (lowercased where that is asked), with malformed sequences
  replaced otherwise, in place exactly where they fit.\<close>

lemma text_constructors:
  "text_from_utf8_lossy octets = text_of (utf8_lossy octets) \<and>
   text_from_ascii octets = text_of (utf8_lossy octets) \<and>
   from_ascii_lowercase octets = text_of (lowercase (utf8_lossy octets)) \<and>
   text_from_string octets = text_of octets \<and> text_from_str octets = text_of octets \<and>
   is_utf8 (utf8_lossy octets) \<and> is_utf8 (lowercase (utf8_lossy octets)) \<and>
   is_inline (text_of octets) = (length octets \<le> INLINE)"
  by (simp add: text_from_utf8_lossy_of text_from_ascii_of from_ascii_lowercase_of text_from_str_of is_utf8_lossy
      is_utf8_lowercase) (simp add: is_inline_def text_of_def)

text \<open>On texts the constructors build, the comparison by whole words decides equality of the
  strings, and so does equality of the representations.\<close>

lemma text_equality:
  assumes "text_ok s" "text_ok t"
  shows "text_eq s t = (text_bytes s = text_bytes t) \<and> text_eq s t = (s = t)"
  using text_eq_spec [OF assms] text_ok_eq [OF assms] by simp_all

lemma text_equality_witness:
  "text_eq (text_of (ascii ''host'')) (text_of (ascii ''hosT''))
    = (text_bytes (text_of (ascii ''host'')) = text_bytes (text_of (ascii ''hosT'')))"
  by (rule text_equality [THEN conjunct1]) (simp_all, code_simp+)

end
