(* ===== verification/Header_Fields.thy ===== *)
theory Header_Fields
  imports Codec Machine Huffman Text_Type
begin

section \<open>Field vocabulary and wire primitives (src/src/helpers/fields.rs)\<close>

text \<open>
  What HPACK and QPACK share: header fields and their names and values, the hash a table is
  searched by, the reverse index of a static table, prefixed integers and string literals. An
  operation that appends to a buffer is modelled by the octets it appends. The decoder of a
  string literal clears the buffer it is given and leaves the decoded octets in it; the model
  returns them.
\<close>

subsection \<open>Fields\<close>

record header_field =
  hf_name :: utext
  hf_value :: utext

definition SENSITIVE :: "bytes list" where
  "SENSITIVE = map ascii [''authorization'', ''proxy-authorization'', ''cookie'', ''set-cookie'']"

definition OVERHEAD :: nat where "OVERHEAD = 32"
definition SECTION_FLOOR :: nat where "SECTION_FLOOR = 8"
definition SECTION_SPARE :: nat where "SECTION_SPARE = 1"
definition SECTION_CEILING :: nat where "SECTION_CEILING = 128"


definition section_hint :: "nat \<Rightarrow> nat" where
  "section_hint previous = max SECTION_FLOOR (min SECTION_CEILING (saturating_add previous SECTION_SPARE))"

definition field_size :: "header_field \<Rightarrow> nat" where
  "field_size f = text_len (hf_name f) + text_len (hf_value f) + OVERHEAD"

definition sensitive :: "header_field \<Rightarrow> bool" where
  "sensitive f =
     (let name = text_bytes (hf_name f) in
      case name of [] \<Rightarrow> False
      | first # _ \<Rightarrow>
          if length name = 6 \<and> first = of_char CHR ''c'' then name = ascii ''cookie''
          else if length name = 10 \<and> first = of_char CHR ''s'' then name = ascii ''set-cookie''
          else if length name = 13 \<and> first = of_char CHR ''a'' then name = ascii ''authorization''
          else if length name = 19 \<and> first = of_char CHR ''p'' then name = ascii ''proxy-authorization''
          else False)"

definition TOKEN :: octet where "TOKEN = 1"
definition LOWERCASE :: octet where "LOWERCASE = 2"

definition is_upper :: "octet \<Rightarrow> bool" where "is_upper b \<longleftrightarrow> 0x41 \<le> b \<and> b \<le> 0x5a"

definition is_alphanumeric :: "octet \<Rightarrow> bool" where
  "is_alphanumeric b \<longleftrightarrow> is_upper b \<or> (0x61 \<le> b \<and> b \<le> 0x7a) \<or> (0x30 \<le> b \<and> b \<le> 0x39)"

definition is_token :: "octet \<Rightarrow> bool" where
  "is_token b \<longleftrightarrow> is_alphanumeric b \<or> b \<in> set (ascii ''!#$%&'' @ [0x27] @ ascii ''*+-.^_`|~'')"

definition TOKENS :: "octet \<Rightarrow> octet" where
  "TOKENS b = of_bool (is_token b) OR push_bit 1 (of_bool (is_token b \<and> \<not> is_upper b))"

definition is_name :: "bytes \<Rightarrow> bool" where
  "is_name name \<longleftrightarrow> name \<noteq> [] \<and> all_in_class name TOKENS TOKEN"

definition is_lowercase_name :: "bytes \<Rightarrow> bool" where
  "is_lowercase_name name \<longleftrightarrow> name \<noteq> [] \<and> all_in_class name TOKENS LOWERCASE"

definition is_blank :: "octet \<Rightarrow> bool" where "is_blank b \<longleftrightarrow> b = 0x20 \<or> b = 9"

definition is_value :: "bytes \<Rightarrow> bool" where
  "is_value octets =
     (if octets \<noteq> [] \<and> (is_blank (hd octets) \<or> is_blank (last octets)) then False
      else is_field_value octets)"

subsection \<open>Marks\<close>

definition SEED :: u64 where "SEED = 0xcbf29ce484222325"
definition FACTOR :: u64 where "FACTOR = 0x9e3779b97f4a7c15"

definition hash_mix :: "u64 \<Rightarrow> u64 \<Rightarrow> u64" where
  "hash_mix hash word = (word_rotl 5 hash XOR word) * FACTOR"

definition hash_word :: "bytes \<Rightarrow> nat \<Rightarrow> u64" where
  "hash_word octets offset = from_le_bytes (take 8 (drop offset octets))"

definition hash_short :: "bytes \<Rightarrow> u64" where
  "hash_short octets =
     (let n = length octets in
      if n = 0 then 0
      else if n \<le> 3 then ucast (octets ! 0) OR push_bit 8 (ucast (octets ! (n div 2)))
                          OR push_bit 16 (ucast (octets ! (n - 1)))
      else ucast (from_le_bytes (take 4 octets) :: u32)
        OR push_bit 32 (ucast (from_le_bytes (drop (n - 4) octets) :: u32)))"

function hash_words :: "bytes \<Rightarrow> nat \<Rightarrow> u64 \<Rightarrow> nat \<times> u64" where
  "hash_words octets offset hash =
     (if offset + 8 \<le> length octets
      then hash_words octets (offset + 8) (hash_mix hash (hash_word octets offset))
      else (offset, hash))"
  by pat_completeness auto
termination by (relation "measure (\<lambda>(octets, offset, hash). length octets - offset)") auto

declare hash_words.simps [simp del]

definition hash_write :: "u64 \<Rightarrow> bytes \<Rightarrow> u64" where
  "hash_write held octets =
     (let hash = (if held = 0 then SEED else held);
          hash = (if 8 \<le> length octets then
              let (offset, hash) = hash_words octets 0 hash
              in if offset < length octets then hash_mix hash (hash_word octets (length octets - 8)) else hash
            else hash_mix hash (hash_short octets))
      in hash_mix hash (word_of_nat (length octets)))"

definition hash_finish :: "u64 \<Rightarrow> u64" where
  "hash_finish hash = hash XOR drop_bit 32 hash"

definition mark_of :: "bytes \<Rightarrow> u64" where
  "mark_of name = hash_finish (hash_write 0 name)"

record entry =
  en_field :: header_field
  en_mark :: u64

definition entry_of :: "header_field \<Rightarrow> entry" where
  "entry_of f = \<lparr> en_field = f, en_mark = mark_of (text_bytes (hf_name f)) \<rparr>"

definition entry_size :: "entry \<Rightarrow> nat" where
  "entry_size e = field_size (en_field e)"

definition entry_named :: "entry \<Rightarrow> u64 \<Rightarrow> header_field \<Rightarrow> bool" where
  "entry_named e m f \<longleftrightarrow> en_mark e = m \<and> text_eq (hf_name (en_field e)) (hf_name f)"

definition entry_valued :: "entry \<Rightarrow> header_field \<Rightarrow> bool" where
  "entry_valued e f \<longleftrightarrow> text_eq (hf_value (en_field e)) (hf_value f)"

subsection \<open>The index of a static table\<close>

record name_entry =
  ne_name :: bytes
  ne_first :: nat
  ne_values :: "(bytes \<times> nat) list"

type_synonym static_index = "u64 \<Rightarrow> name_entry option"

definition index_entry :: "nat \<Rightarrow> bytes \<times> bytes \<Rightarrow> static_index \<Rightarrow> static_index" where
  "index_entry index = (\<lambda>(name, value) by_name.
     let m = mark_of name;
         held = (case by_name m of Some e \<Rightarrow> e
                 | None \<Rightarrow> \<lparr> ne_name = name, ne_first = index, ne_values = [] \<rparr>)
     in by_name(m \<mapsto> held\<lparr> ne_values := ne_values held @ [(value, index)] \<rparr>))"

fun index_entries :: "nat \<Rightarrow> (bytes \<times> bytes) list \<Rightarrow> static_index \<Rightarrow> static_index" where
  "index_entries index [] by_name = by_name"
| "index_entries index (e # es) by_name = index_entries (index + 1) es (index_entry index e by_name)"

definition static_index_new :: "(bytes \<times> bytes) list \<Rightarrow> nat \<Rightarrow> static_index" where
  "static_index_new entries base = index_entries base entries (\<lambda>_. None)"

definition static_lookup :: "static_index \<Rightarrow> bytes \<Rightarrow> bytes \<Rightarrow> nat option \<times> nat option" where
  "static_lookup by_name name value =
     (case by_name (mark_of name) of
        Some e \<Rightarrow>
          if scan_same (ne_name e) name
          then (Some (ne_first e), map_option snd (find (\<lambda>(candidate, _). scan_same candidate value) (ne_values e)))
          else (None, None)
      | None \<Rightarrow> (None, None))"

subsection \<open>Integers\<close>

datatype fields_error = IntegerOverflow | Incomplete | Huffman huff_error

definition int_limit :: "nat \<Rightarrow> u64" where
  "int_limit prefix_bits = push_bit (min prefix_bits 63) 1 - 1"

function int_rest :: "u64 \<Rightarrow> bytes" where
  "int_rest rest =
     (if 128 \<le> rest then (ucast (rest mod 128) OR 0x80) # int_rest (rest div 128) else [ucast rest])"
  by pat_completeness auto
termination
proof (relation "measure unat", goal_cases)
  case (2 rest)
  then have "0 < unat rest" by (simp add: word_le_nat_alt)
  then show ?case by (simp add: unat_div)
qed simp

declare int_rest.simps [simp del]

definition int_encode :: "u64 \<Rightarrow> nat \<Rightarrow> octet \<Rightarrow> bytes" where
  "int_encode v prefix_bits flags =
     (let limit = int_limit prefix_bits
      in if v < limit then [flags OR ucast v]
         else (flags OR ucast limit) # int_rest (v - limit))"

text \<open>The continuation of an integer.\<close>

function int_continue :: "bytes \<Rightarrow> nat \<Rightarrow> nat \<Rightarrow> u64 \<Rightarrow> fields_error + nat \<times> u64" where
  "int_continue input consumed shift v =
     res_bind (ok_or Incomplete (get_at input consumed)) (\<lambda>octet.
     res_bind (ok_or IntegerOverflow
         (Option.bind (checked_shl (ucast octet AND 0x7f) shift) (checked_add v))) (\<lambda>v.
       if octet AND 0x80 = 0 then Inr (consumed + 1, v)
       else if 64 \<le> shift + 7 then Inl IntegerOverflow
       else int_continue input (consumed + 1) (shift + 7) v))"
  by pat_completeness auto
termination by (relation "measure (\<lambda>(input, consumed, shift, v). 64 - shift)") auto

declare int_continue.simps [simp del]

definition int_decode :: "bytes \<Rightarrow> nat \<Rightarrow> fields_error + nat \<times> u64" where
  "int_decode input prefix_bits =
     (let limit = int_limit prefix_bits
      in res_bind (ok_or Incomplete (get_at input 0)) (\<lambda>first.
           let v = ucast first AND limit
           in if v < limit then Inr (1, v) else int_continue input 1 0 v))"

subsection \<open>String literals\<close>

definition MAX_PREFIX_BITS :: nat where "MAX_PREFIX_BITS = 7"

definition huffman_mark :: "nat \<Rightarrow> octet" where
  "huffman_mark prefix_bits = push_bit (min prefix_bits MAX_PREFIX_BITS) 1"

definition literal_encode :: "bytes \<Rightarrow> nat \<Rightarrow> octet \<Rightarrow> bool \<Rightarrow> bytes" where
  "literal_encode v prefix_bits flags huffman =
     (let prefix_bits = min prefix_bits MAX_PREFIX_BITS
      in if huffman then
           int_encode (word_of_nat (encoded_len v)) prefix_bits (flags OR huffman_mark prefix_bits)
             @ encode_sized v []
         else int_encode (word_of_nat (length v)) prefix_bits flags @ v)"

definition literal_encode_shorter :: "bytes \<Rightarrow> nat \<Rightarrow> octet \<Rightarrow> bytes" where
  "literal_encode_shorter v prefix_bits flags =
     (let prefix_bits = min prefix_bits MAX_PREFIX_BITS; encoded = encoded_len v
      in if encoded < length v then
           int_encode (word_of_nat encoded) prefix_bits (flags OR huffman_mark prefix_bits) @ encode_sized v []
         else int_encode (word_of_nat (length v)) prefix_bits flags @ v)"

definition prefers_huffman :: "bytes \<Rightarrow> bool" where
  "prefers_huffman v \<longleftrightarrow> encoded_len v < length v"

text \<open>\<open>None\<close> is only reached where the Huffman decoder would break one of its assertions, which
  it never does.\<close>

definition literal_decode_ascii :: "bytes \<Rightarrow> nat \<Rightarrow> (fields_error + nat \<times> bool \<times> bytes) option" where
  "literal_decode_ascii input prefix_bits =
     (let prefix_bits = min prefix_bits MAX_PREFIX_BITS
      in case get_at input 0 of
           None \<Rightarrow> Some (Inl Incomplete)
         | Some first \<Rightarrow>
             (case int_decode input prefix_bits of
                Inl e \<Rightarrow> Some (Inl e)
              | Inr (prefix, len) \<Rightarrow>
                  (let stop = prefix + unat len in
                   if USIZE_MAX < stop then Some (Inl Incomplete)
                   else case get_range input prefix stop of
                       None \<Rightarrow> Some (Inl Incomplete)
                     | Some octets \<Rightarrow>
                         if first AND huffman_mark prefix_bits \<noteq> 0 then
                           map_option (\<lambda>(scratch, r). res_bind (map_err Huffman r) (\<lambda>plain. Inr (stop, plain, scratch)))
                             (decode_into_ascii octets [])
                         else Some (Inr (stop, is_ascii octets, octets)))))"

definition literal_decode :: "bytes \<Rightarrow> nat \<Rightarrow> (fields_error + nat \<times> bytes) option" where
  "literal_decode input prefix_bits =
     map_option (\<lambda>r. res_bind r (\<lambda>(consumed, _, scratch). Inr (consumed, scratch)))
       (literal_decode_ascii input prefix_bits)"

definition literal_text :: "bytes \<Rightarrow> bool \<Rightarrow> utext" where
  "literal_text octets plain = (if plain then from_verified_ascii octets else text_from_utf8_lossy octets)"

definition literal_decode_text :: "bytes \<Rightarrow> nat \<Rightarrow> (fields_error + nat \<times> utext) option" where
  "literal_decode_text input prefix_bits =
     map_option (\<lambda>r. res_bind r (\<lambda>(consumed, plain, scratch). Inr (consumed, literal_text scratch plain)))
       (literal_decode_ascii input prefix_bits)"

subsection \<open>Names and values\<close>

lemma TOKENS_bits [simp]: "bit (TOKENS b) 0 \<longleftrightarrow> is_token b" "bit (TOKENS b) (Suc 0) \<longleftrightarrow> is_token b \<and> \<not> is_upper b"
  by (auto simp: TOKENS_def bit_simps)

lemma is_name_spec: "is_name name \<longleftrightarrow> name \<noteq> [] \<and> (\<forall>b \<in> set name. is_token b)"
  using all_in_class_spec [of 0 name TOKENS] by (simp add: is_name_def TOKEN_def)

lemma is_lowercase_name_spec:
  "is_lowercase_name name \<longleftrightarrow> name \<noteq> [] \<and> (\<forall>b \<in> set name. is_token b \<and> \<not> is_upper b)"
  using all_in_class_spec [of 1 name TOKENS] by (simp add: is_lowercase_name_def LOWERCASE_def)

lemma is_value_spec:
  "is_value octets \<longleftrightarrow> (\<forall>b \<in> set octets. \<not> is_control b) \<and>
     (octets \<noteq> [] \<longrightarrow> \<not> is_blank (hd octets) \<and> \<not> is_blank (last octets))"
  by (auto simp: is_value_def is_field_value_spec)

lemma sensitive_spec: "sensitive f \<longleftrightarrow> text_bytes (hf_name f) \<in> set SENSITIVE"
  by (cases "text_bytes (hf_name f)") (auto simp: sensitive_def SENSITIVE_def Let_def)

lemma section_hint_bounds: "SECTION_FLOOR \<le> section_hint n" "section_hint n \<le> SECTION_CEILING"
  by (auto simp: section_hint_def SECTION_FLOOR_def SECTION_CEILING_def)

subsection \<open>The static index answers a linear search\<close>

definition static_search :: "(bytes \<times> bytes) list \<Rightarrow> nat \<Rightarrow> bytes \<Rightarrow> bytes \<Rightarrow> nat option \<times> nat option" where
  "static_search entries base name value =
     (map_option (\<lambda>i. base + i) (position (\<lambda>(n, v). n = name) entries),
      map_option (\<lambda>i. base + i) (position (\<lambda>(n, v). n = name \<and> v = value) entries))"

lemma index_entries_snoc:
  "index_entries base (es @ [e]) by_name = index_entry (base + length es) e (index_entries base es by_name)"
  by (induction es arbitrary: base by_name) auto

definition marked :: "nat \<Rightarrow> (bytes \<times> bytes) list \<Rightarrow> u64 \<Rightarrow> (nat \<times> bytes \<times> bytes) list" where
  "marked base es m = filter (\<lambda>(i, n, v). mark_of n = m) (enumerate base es)"

lemma marked_snoc:
  "marked base (es @ [(n, v)]) m = marked base es m @ (if mark_of n = m then [(base + length es, n, v)] else [])"
  by (simp add: marked_def enumerate_append_eq)

lemma static_index_marked:
  "static_index_new es base m =
     (case marked base es m of [] \<Rightarrow> None
      | (i, n, v) # rest \<Rightarrow> Some \<lparr> ne_name = n, ne_first = i,
          ne_values = map (\<lambda>(i, n, v). (v, i)) ((i, n, v) # rest) \<rparr>)"
proof (induction es rule: rev_induct)
  case Nil
  then show ?case by (simp add: static_index_new_def marked_def)
next
  case (snoc e es)
  obtain n v where e: "e = (n, v)" by fastforce
  have new: "static_index_new (es @ [e]) base = index_entry (base + length es) e (static_index_new es base)"
    by (simp add: static_index_new_def index_entries_snoc)
  show ?case
  proof (cases "mark_of n = m")
    case True
    then show ?thesis using snoc
      by (cases "marked base es m") (auto simp: new [unfolded e] index_entry_def Let_def marked_snoc e)
  next
    case False
    then show ?thesis using snoc by (auto simp: new [unfolded e] index_entry_def Let_def marked_snoc e)
  qed
qed

lemma find_filter: "find Q (filter P xs) = find (\<lambda>x. P x \<and> Q x) xs"
  by (induction xs) auto

lemma find_hd: "find P xs = (case filter P xs of [] \<Rightarrow> None | x # _ \<Rightarrow> Some x)"
  by (induction xs) auto

lemma find_map: "find P (map f xs) = map_option f (find (\<lambda>x. P (f x)) xs)"
  by (induction xs) auto

lemma find_enumerate:
  "map_option fst (find (\<lambda>(i, x). P x) (enumerate base xs)) = map_option (\<lambda>i. base + i) (position P xs)"
proof (induction xs arbitrary: base)
  case (Cons x xs)
  then show ?case using Cons.IH [of "Suc base"] by (cases "position P xs") auto
qed simp

lemma find_cong_list: "(\<And>x. x \<in> set xs \<Longrightarrow> P x = Q x) \<Longrightarrow> find P xs = find Q xs"
  by (induction xs) auto

lemma position_cong_list: "(\<And>x. x \<in> set xs \<Longrightarrow> P x = Q x) \<Longrightarrow> position P xs = position Q xs"
  by (induction xs) auto

text \<open>A name that shares the mark of another is turned away by the comparison that confirms the mark.\<close>

lemma static_lookup_search:
  assumes inj: "inj_on mark_of (fst ` set es)"
  shows "static_lookup (static_index_new es base) name value = static_search es base name value"
proof (cases "name \<in> fst ` set es")
  case False
  then have "position (\<lambda>(n, v). n = name) es = None" "position (\<lambda>(n, v). n = name \<and> v = value) es = None"
    by (force simp: position_None_iff)+
  moreover have "static_lookup (static_index_new es base) name value = (None, None)"
  proof (cases "marked base es (mark_of name)")
    case Nil
    then show ?thesis by (simp add: static_lookup_def static_index_marked)
  next
    case (Cons x rest)
    obtain i n v where x: "x = (i, n, v)" by (metis prod.exhaust)
    have "(i, n, v) \<in> set (marked base es (mark_of name))" using Cons x by simp
    then have "base \<le> i" "i < length es + base" "es ! (i - base) = (n, v)"
      by (auto simp: marked_def in_set_enumerate_eq)
    then have "(n, v) \<in> set es" by (metis add.commute le_add_diff_inverse nat_add_left_cancel_less nth_mem)
    then have "n \<noteq> name" using False by force
    then show ?thesis using Cons x by (simp add: static_lookup_def static_index_marked scan_same_spec)
  qed
  ultimately show ?thesis by (simp add: static_search_def)
next
  case True
  have same: "mark_of n = mark_of name \<longleftrightarrow> n = name" if "(n, v) \<in> set es" for n v
    using inj_onD [OF inj _ _ True, of n] that by force
  have first: "map_option fst (case marked base es (mark_of name) of [] \<Rightarrow> None | x # _ \<Rightarrow> Some x)
      = map_option (\<lambda>i. base + i) (position (\<lambda>(n, v). n = name) es)"
  proof -
    have "map_option fst (case marked base es (mark_of name) of [] \<Rightarrow> None | x # _ \<Rightarrow> Some x)
      = map_option (\<lambda>i. base + i) (position (\<lambda>(n, v). mark_of n = mark_of name) es)"
      unfolding marked_def find_hd [symmetric] using find_enumerate [of "\<lambda>(n, v). mark_of n = mark_of name" base es]
      by (simp add: case_prod_beta')
    also have "position (\<lambda>(n, v). mark_of n = mark_of name) es = position (\<lambda>(n, v). n = name) es"
      using same by (intro position_cong_list) auto
    finally show ?thesis .
  qed
  have exact: "map_option fst (find (\<lambda>(i, n, v). v = value) (marked base es (mark_of name)))
      = map_option (\<lambda>i. base + i) (position (\<lambda>(n, v). n = name \<and> v = value) es)"
  proof -
    have "map_option fst (find (\<lambda>(i, n, v). v = value) (marked base es (mark_of name)))
      = map_option (\<lambda>i. base + i) (position (\<lambda>(n, v). mark_of n = mark_of name \<and> v = value) es)"
      unfolding marked_def find_filter
      using find_enumerate [of "\<lambda>(n, v). mark_of n = mark_of name \<and> v = value" base es]
      by (simp add: case_prod_beta')
    also have "position (\<lambda>(n, v). mark_of n = mark_of name \<and> v = value) es
      = position (\<lambda>(n, v). n = name \<and> v = value) es"
      using same by (intro position_cong_list) auto
    finally show ?thesis .
  qed
  show ?thesis
  proof (cases "marked base es (mark_of name)")
    case Nil
    then show ?thesis using first exact
      by (simp add: static_lookup_def static_index_marked static_search_def)
  next
    case (Cons x rest)
    obtain i n v where x: "x = (i, n, v)" by (metis prod.exhaust)
    have "(i, n, v) \<in> set (marked base es (mark_of name))" using Cons x by simp
    then have at: "base \<le> i" "i < length es + base" "es ! (i - base) = (n, v)" "mark_of n = mark_of name"
      by (auto simp: marked_def in_set_enumerate_eq)
    have "es ! (i - base) \<in> set es" using at(1,2) by (intro nth_mem) linarith
    then have "(n, v) \<in> set es" "mark_of n = mark_of name" using at by simp_all
    then have "n = name" using same by blast
    then show ?thesis using first exact Cons x
      by (cases "v = value") (auto simp: static_lookup_def static_index_marked static_search_def scan_same_spec
          find_map case_prod_beta' option.map_comp o_def)
  qed
qed

subsection \<open>Integers round-trip\<close>

lemma unat_less_64: "unat (v :: u64) < 2 ^ 64"
proof -
  have "unat v < 2 ^ LENGTH(64)" by (rule unsigned_less)
  then show ?thesis by simp
qed

lemma mod_128: "(r :: u64) mod 128 = take_bit 7 r"
  by (simp add: take_bit_eq_mod)

lemma seven_bits: "(0x7f :: u64) = mask 7" by (simp add: mask_eq_decr_exp)
lemma bit_0x80: "bit (0x80 :: octet) n \<longleftrightarrow> n = 7"
proof -
  have "bit (push_bit 7 1 :: octet) n \<longleftrightarrow> n = 7" by (auto simp: bit_simps simp del: push_bit_of_1)
  then show ?thesis by simp
qed

text \<open>A continuation octet carries seven bits of the rest, and the mark that more follow.\<close>

lemma continuation_octet:
  fixes r :: u64
  shows "ucast ((ucast (r mod 128) :: octet) OR 0x80) AND 0x7f = r mod 128"
    "((ucast (r mod 128) :: octet) OR 0x80) AND 0x80 \<noteq> 0"
proof -
  obtain m where m: "m = (0x80 :: octet)" by simp
  have bit: "bit m n \<longleftrightarrow> n = 7" for n unfolding m by (rule bit_0x80)
  show "ucast ((ucast (r mod 128) :: octet) OR 0x80) AND 0x7f = r mod 128"
    unfolding mod_128 seven_bits m [symmetric] by (rule bit_word_eqI) (auto simp: bit_simps bit)
  have "bit (((ucast (r mod 128) :: octet) OR m) AND m) 7" by (simp add: bit_and_iff bit_or_iff bit)
  then show "((ucast (r mod 128) :: octet) OR 0x80) AND 0x80 \<noteq> 0"
    unfolding m [symmetric] by (metis bit_0_eq bot_apply bot_bool_def)
qed

lemma last_octet:
  fixes r :: u64
  assumes "\<not> 128 \<le> r"
  shows "ucast (ucast r :: octet) AND 0x7f = r" "(ucast r :: octet) AND 0x80 = 0"
proof -
  have "unat (r mod 128) = unat r" using assms by (simp add: not_le word_less_nat_alt unat_mod)
  then have "take_bit 7 r = r" by (simp only: word_unat_eq_iff mod_128)
  then have high: "\<not> bit r n" if "7 \<le> n" for n using that by (metis bit_take_bit_iff not_le)
  obtain m where m: "m = (0x80 :: octet)" by simp
  have bit: "bit m n \<longleftrightarrow> n = 7" for n unfolding m by (rule bit_0x80)
  show "ucast (ucast r :: octet) AND 0x7f = r" unfolding seven_bits
    by (rule bit_word_eqI) (auto simp: bit_simps high not_le [symmetric])
  show "(ucast r :: octet) AND 0x80 = 0" unfolding m [symmetric]
    by (rule bit_word_eqI) (auto simp: bit_simps bit high)
qed

lemma int_rest_nonempty: "int_rest r \<noteq> []"
  by (subst int_rest.simps) simp

lemma int_continue_octet:
  assumes "get_at input consumed = Some octet" "ucast octet AND 0x7f = p"
  shows "int_continue input consumed shift v =
    (if 64 \<le> shift \<or> unat v + unat (push_bit shift p) \<ge> 2 ^ 64 then Inl IntegerOverflow
     else if octet AND 0x80 = 0 then Inr (consumed + 1, v + push_bit shift p)
     else if 64 \<le> shift + 7 then Inl IntegerOverflow
     else int_continue input (consumed + 1) (shift + 7) (v + push_bit shift p))"
  by (subst int_continue.simps) (simp add: assms checked_shl_def checked_add_unat not_less)

lemma int_continue_rest:
  assumes "unat v + unat r * 2 ^ shift < 2 ^ 64" "shift < 64" "consumed = length pre"
  shows "int_continue (pre @ int_rest r @ rest) consumed shift v
    = Inr (consumed + length (int_rest r), v + push_bit shift r)"
  using assms
proof (induction r arbitrary: pre consumed shift v rule: int_rest.induct)
  case (1 r)
  have part: "unat (push_bit shift x) = unat x * 2 ^ shift" if "unat x * 2 ^ shift < 2 ^ 64" for x :: u64
    using that by (subst unsigned_push_bit_eq) (simp add: push_bit_eq_mult take_bit_nat_eq_self)
  show ?case
  proof (cases "128 \<le> r")
    case True
    let ?o = "(ucast (r mod 128) :: octet) OR 0x80"
    have split: "unat r = 128 * unat (r div 128) + unat (r mod 128)" by (simp add: unat_div unat_mod)
    have big: "1 \<le> unat (r div 128)" using True by (simp add: unat_div word_le_nat_alt Suc_le_eq div_greater_zero_iff)
    have sum: "unat v + unat (r mod 128) * 2 ^ shift + unat (r div 128) * 2 ^ (shift + 7) < 2 ^ 64"
      using 1(2) unfolding split by (simp add: power_add algebra_simps)
    have "(2 :: nat) ^ (shift + 7) < 2 ^ 64"
      using sum mult_le_mono1 [OF big, of "2 ^ (shift + 7)"] by linarith
    then have shift: "shift + 7 < 64" by (rule power_less_imp_less_exp [rotated]) simp
    have low: "unat (push_bit shift (r mod 128)) = unat (r mod 128) * 2 ^ shift" using sum by (intro part) linarith
    have add: "unat (v + push_bit shift (r mod 128)) = unat v + unat (r mod 128) * 2 ^ shift"
      using sum low by (simp add: unat_word_ariths)
    have "int_continue ((pre @ [?o]) @ int_rest (r div 128) @ rest) (consumed + 1) (shift + 7) (v + push_bit shift (r mod 128))
      = Inr (consumed + 1 + length (int_rest (r div 128)), v + push_bit shift (r mod 128) + push_bit (shift + 7) (r div 128))"
      using 1(4) sum shift by (intro 1(1) [OF True]) (auto simp: add)
    moreover have "push_bit shift (r mod 128) + push_bit (shift + 7) (r div 128) = push_bit shift r"
    proof -
      have "r mod 128 + r div 128 * 128 = r" by (rule mod_div_mult_eq)
      then have "push_bit shift (r mod 128 + r div 128 * 128) = push_bit shift r" by simp
      then show ?thesis by (simp add: push_bit_eq_mult power_add algebra_simps)
    qed
    moreover have rest: "int_rest r = ?o # int_rest (r div 128)" using True by (subst int_rest.simps) simp
    moreover have "get_at (pre @ ?o # int_rest (r div 128) @ rest) consumed = Some ?o" using 1(4) by (simp add: get_at_def)
    ultimately show ?thesis using sum low shift continuation_octet(2) [of r]
      by (simp add: int_continue_octet [OF _ continuation_octet(1)] add.assoc)
  next
    case False
    have rest: "int_rest r = [ucast r]" using False by (subst int_rest.simps) simp
    have "unat (push_bit shift r) = unat r * 2 ^ shift" using 1(2) by (intro part) linarith
    moreover have "get_at (pre @ ucast r # rest) consumed = Some (ucast r)" using 1(4) by (simp add: get_at_def)
    ultimately show ?thesis using 1(2,3)
      by (simp add: int_continue_octet [OF _ last_octet(1) [OF False]] rest last_octet(2) [OF False])
  qed
qed

lemma unat_mask: "n \<le> 64 \<Longrightarrow> unat (mask n :: u64) = 2 ^ n - 1"
proof -
  assume "n \<le> 64"
  then have "uint (mask n :: u64) = mask n" by (subst uint_mask_eq) (simp add: min_def)
  then have "int (unat (mask n :: u64)) = 2 ^ n - 1" by (simp add: mask_eq_exp_minus_1)
  then have "int (unat (mask n :: u64)) = int (2 ^ n - 1)" by (simp add: of_nat_diff)
  then show ?thesis by (simp only: of_nat_eq_iff)
qed

lemma limit_mask:
  assumes "prefix_bits \<le> 8"
  shows "int_limit prefix_bits = mask prefix_bits" "unat (int_limit prefix_bits) < 256"
proof -
  show mask: "int_limit prefix_bits = mask prefix_bits"
    using assms by (simp add: int_limit_def mask_eq_decr_exp push_bit_eq_mult min_def)
  have "(2 :: nat) ^ prefix_bits \<le> 2 ^ 8" using assms by (intro power_increasing) simp_all
  then show "unat (int_limit prefix_bits) < 256" using assms by (simp add: mask unat_mask)
qed

text \<open>The bits of the first octet the prefix leaves to the flags are all the flags may use.\<close>

definition flags_ok :: "nat \<Rightarrow> octet \<Rightarrow> bool" where
  "flags_ok prefix_bits flags \<longleftrightarrow> prefix_bits \<le> 8 \<and> flags AND mask prefix_bits = 0"

lemma flags_ok_bit: "flags_ok prefix_bits flags \<Longrightarrow> n < prefix_bits \<Longrightarrow> \<not> bit flags n"
proof
  assume f: "flags_ok prefix_bits flags" "n < prefix_bits" "bit flags n"
  from f(2,3) have "bit (flags AND mask prefix_bits) n"
    using bit_imp_le_length [OF f(3)] by (simp add: bit_and_iff bit_mask_iff)
  moreover have "flags AND mask prefix_bits = 0" using f(1) by (simp add: flags_ok_def)
  ultimately show False by simp
qed

lemma first_octet:
  fixes v :: u64
  assumes "flags_ok prefix_bits flags" "v \<le> int_limit prefix_bits"
  shows "ucast (flags OR ucast v) AND int_limit prefix_bits = v"
    and "prefix_bits \<le> n \<Longrightarrow> bit (flags OR ucast v) n = bit flags n"
proof -
  have p: "prefix_bits \<le> 8" using assms(1) by (simp add: flags_ok_def)
  have "unat v \<le> 2 ^ prefix_bits - 1"
    using assms(2) p by (simp add: limit_mask word_le_nat_alt unat_mask)
  then have "unat v < 2 ^ prefix_bits" by (simp add: Suc_le_eq le_diff_conv2)
  then have "take_bit prefix_bits v = v"
    by (simp add: word_unat_eq_iff unsigned_take_bit_eq take_bit_nat_eq_self)
  then have high: "\<not> bit v n" if "prefix_bits \<le> n" for n using that by (metis bit_take_bit_iff not_le)
  show "ucast (flags OR ucast v) AND int_limit prefix_bits = v"
    unfolding limit_mask(1) [OF p] using flags_ok_bit [OF assms(1)] p high
    by (intro bit_word_eqI) (auto simp: bit_simps not_le [symmetric])
  show "bit (flags OR ucast v) n = bit flags n" if "prefix_bits \<le> n"
    using high [OF that] by (simp add: bit_simps)
qed

lemma int_decode_encode:
  assumes "flags_ok prefix_bits flags"
  shows "int_decode (int_encode v prefix_bits flags @ rest) prefix_bits = Inr (length (int_encode v prefix_bits flags), v)"
proof (cases "v < int_limit prefix_bits")
  case True
  then show ?thesis using first_octet(1) [OF assms, of v]
    by (simp add: int_decode_def int_encode_def get_at_def Let_def)
next
  case False
  let ?l = "int_limit prefix_bits"
  have sum: "unat ?l + unat (v - ?l) = unat v" using False by (simp add: unat_sub word_le_nat_alt not_less)
  have "int_continue ([flags OR ucast ?l] @ int_rest (v - ?l) @ rest) 1 0 ?l
    = Inr (1 + length (int_rest (v - ?l)), ?l + push_bit 0 (v - ?l))"
    using sum unat_less_64 [of v] by (intro int_continue_rest) simp_all
  then show ?thesis using False first_octet(1) [OF assms, of ?l]
    by (simp add: int_decode_def int_encode_def get_at_def Let_def)
qed

lemma int_encode_first:
  assumes "flags_ok prefix_bits flags"
  obtains first rest where "int_encode v prefix_bits flags = first # rest"
    "\<And>n. prefix_bits \<le> n \<Longrightarrow> bit first n = bit flags n"
proof (cases "v < int_limit prefix_bits")
  case True
  then show ?thesis using first_octet(2) [OF assms, of v] that by (auto simp: int_encode_def Let_def)
next
  case False
  then show ?thesis using first_octet(2) [OF assms, of "int_limit prefix_bits"] that
    by (auto simp: int_encode_def Let_def)
qed

lemma int_encode_nonempty [simp]: "int_encode v prefix_bits flags \<noteq> []"
  by (simp add: int_encode_def Let_def)

text \<open>The integer codec is a \<open>prefix_codec\<close>; its parameter is the prefix and the flags.\<close>

interpretation integer: prefix_codec "\<lambda>(prefix_bits, flags) v. flags_ok prefix_bits flags"
  "\<lambda>(prefix_bits, flags) v. int_encode v prefix_bits flags"
  "\<lambda>(prefix_bits, flags) input. ok_of (int_decode input prefix_bits)"
  by unfold_locales (auto simp: int_decode_encode)

subsection \<open>What an integer denotes\<close>

text \<open>
  The value a representation spells, unbounded. The decoder answers it whenever the
  representation takes at most ten octets, and refuses all but the values that fit.
\<close>

lemma unat_octet: "unat (ucast octet :: u64) = unat (octet :: octet)"
proof -
  have "uint (ucast octet :: u64) = uint octet" by (simp add: uint_up_ucast is_up)
  then show ?thesis by (simp only: unat_eq_nat_uint)
qed

fun continued_value :: "bytes \<Rightarrow> nat" where
  "continued_value [] = 0"
| "continued_value (octet # rest) = unat octet mod 128 + 128 * continued_value rest"

definition denoted :: "bytes \<Rightarrow> nat \<Rightarrow> nat" where
  "denoted octets prefix_bits =
     unat (ucast (octets ! 0) AND int_limit prefix_bits :: u64) + continued_value (drop 1 octets)"

lemma int_continue_value:
  assumes "int_continue input consumed shift v = Inr (n, x)" "shift = 7 * (consumed - 1)" "1 \<le> consumed" "consumed \<le> length input"
  shows "consumed < n \<and> n \<le> 11 \<and> n \<le> length input \<and>
    (n \<le> 10 \<longrightarrow> unat x = unat v + 2 ^ shift * continued_value (take (n - consumed) (drop consumed input)))"
  using assms
proof (induction input consumed shift v rule: int_continue.induct)
  case (1 input consumed shift v)
  obtain octet where octet: "get_at input consumed = Some octet"
    using 1(2) by (subst (asm) int_continue.simps) (cases "get_at input consumed", auto)
  then have len: "consumed < length input" and o: "octet = input ! consumed"
    by (auto simp: get_at_def split: if_splits)
  let ?p = "ucast octet AND 0x7f :: u64"
  note unfold = int_continue_octet [OF octet refl, of shift v]
  have guards: "shift < 64" "unat v + unat (push_bit shift ?p) < 2 ^ 64"
    using 1(2) unfolding unfold by (auto split: if_splits)
  have p: "unat ?p = unat octet mod 128"
  proof -
    have "?p = ucast octet mod 128" unfolding seven_bits by (simp add: take_bit_eq_mask [symmetric] mod_128)
    moreover have "unat (ucast octet :: u64) = unat octet" by (rule unat_octet)
    ultimately have "unat ?p = unat octet mod unat (128 :: u64)" by (simp only: unat_mod)
    then show ?thesis by simp
  qed
  have exact: "unat (v + push_bit shift ?p) = unat v + 2 ^ shift * (unat octet mod 128)" if "shift \<le> 56"
  proof -
    have "(2 :: nat) ^ shift \<le> 2 ^ 56" using that by (rule power_increasing) simp
    moreover have "unat octet mod 128 < 128" by simp
    then have "unat octet mod 128 \<le> 127" by linarith
    ultimately have "unat octet mod 128 * 2 ^ shift \<le> 127 * 2 ^ 56" by (intro mult_le_mono)
    then have "take_bit 64 (unat octet mod 128 * 2 ^ shift) = unat octet mod 128 * 2 ^ shift"
      by (intro take_bit_nat_eq_self) simp
    moreover have "unat (push_bit shift ?p) = take_bit LENGTH(64) (push_bit shift (unat ?p))" by (rule unsigned_push_bit_eq)
    ultimately have "unat (push_bit shift ?p) = 2 ^ shift * (unat octet mod 128)"
      by (simp only: push_bit_eq_mult p) (simp add: mult.commute)
    then show ?thesis using guards(2) by (simp add: unat_word_ariths)
  qed
  have take: "take (m - consumed) (drop consumed input) = octet # take (m - (consumed + 1)) (drop (consumed + 1) input)"
    if "consumed < m" for m
    using that len o by (simp add: take_Cons' Cons_nth_drop_Suc [symmetric])
  show ?case
  proof (cases "octet AND 0x80 = 0")
    case True
    then have n: "n = consumed + 1" "x = v + push_bit shift ?p" using 1(2) guards unfolding unfold by auto
    have "consumed \<le> 10" using guards(1) 1(3) by linarith
    moreover have "shift \<le> 56" if "n \<le> 10" using n(1) that 1(3) by simp
    ultimately show ?thesis using n len exact take [of n] by auto
  next
    case False
    then have rec: "int_continue input (consumed + 1) (shift + 7) (v + push_bit shift ?p) = Inr (n, x)" "shift + 7 < 64"
      using 1(2) guards unfolding unfold by (auto split: if_splits)
    have s7: "shift + 7 = 7 * consumed" using 1(3,4) by (cases consumed) simp_all
    have IH: "consumed + 1 < n \<and> n \<le> 11 \<and> n \<le> length input \<and>
      (n \<le> 10 \<longrightarrow> unat x = unat (v + push_bit shift ?p) +
         2 ^ (shift + 7) * continued_value (take (n - (consumed + 1)) (drop (consumed + 1) input)))"
      using 1(1) [OF False _ rec(1)] rec(2) s7 len
      by (simp add: ok_or_def)
    moreover have "shift \<le> 56" using rec(2) by simp
    ultimately show ?thesis using exact take [of n] by (auto simp: power_add algebra_simps)
  qed
qed

lemma int_decode_value:
  assumes "int_decode input prefix_bits = Inr (n, x)"
  shows "0 < n \<and> n \<le> 11 \<and> n \<le> length input \<and> (n \<le> 10 \<longrightarrow> unat x = denoted (take n input) prefix_bits)"
proof -
  obtain first rest where input: "input = first # rest"
    using assms by (cases input) (auto simp: int_decode_def get_at_def Let_def)
  let ?v = "ucast first AND int_limit prefix_bits :: u64"
  show ?thesis
  proof (cases "?v < int_limit prefix_bits")
    case True
    then show ?thesis using assms input by (auto simp: int_decode_def get_at_def Let_def denoted_def)
  next
    case False
    then have "int_continue input 1 0 ?v = Inr (n, x)"
      using assms input by (simp add: int_decode_def get_at_def Let_def)
    from int_continue_value [OF this] input show ?thesis
      by (cases n) (auto simp: denoted_def)
  qed
qed

text \<open>An encoding is the shortest representation: at most eleven octets.\<close>

lemma int_encode_length: "flags_ok prefix_bits flags \<Longrightarrow> length (int_encode v prefix_bits flags) \<le> 11"
  using int_decode_value [of "int_encode v prefix_bits flags" prefix_bits] int_decode_encode [of prefix_bits flags v "[]"]
  by auto

subsection \<open>String literals round-trip\<close>

lemma mark_bit:
  assumes "prefix_bits \<le> 7"
  shows "b AND huffman_mark prefix_bits \<noteq> 0 \<longleftrightarrow> bit b prefix_bits" "bit (huffman_mark prefix_bits) n \<longleftrightarrow> n = prefix_bits"
proof -
  show bit: "bit (huffman_mark prefix_bits) n \<longleftrightarrow> n = prefix_bits" for n
    using assms by (auto simp: huffman_mark_def MAX_PREFIX_BITS_def min_def bit_simps simp del: push_bit_of_1)
  show "b AND huffman_mark prefix_bits \<noteq> 0 \<longleftrightarrow> bit b prefix_bits"
    using assms by (auto simp: bit_eq_iff [of _ 0] bit_and_iff bit)
qed

text \<open>
  The flags of a literal leave the prefix and the bit above it alone, and the literal fits into
  memory.
\<close>

definition literal_ok :: "nat \<Rightarrow> octet \<Rightarrow> bytes \<Rightarrow> bool" where
  "literal_ok prefix_bits flags v \<longleftrightarrow>
     prefix_bits \<le> 7 \<and> flags_ok (prefix_bits + 1) flags \<and> length v + encoded_len v + 11 \<le> USIZE_MAX"

lemma literal_flags:
  assumes "literal_ok prefix_bits flags v"
  shows "flags_ok prefix_bits flags" "\<not> bit flags prefix_bits" "flags_ok prefix_bits (flags OR huffman_mark prefix_bits)"
proof -
  have p: "prefix_bits \<le> 7" and f: "flags_ok (prefix_bits + 1) flags" using assms by (auto simp: literal_ok_def)
  have low: "\<not> bit flags n" if "n \<le> prefix_bits" for n using flags_ok_bit [OF f] that by simp
  then show "\<not> bit flags prefix_bits" by simp
  show "flags_ok prefix_bits flags"
    using p low unfolding flags_ok_def by (auto intro!: bit_word_eqI simp: bit_and_iff bit_mask_iff)
  show "flags_ok prefix_bits (flags OR huffman_mark prefix_bits)"
    using p low mark_bit(2) [OF p] unfolding flags_ok_def
    by (auto intro!: bit_word_eqI simp: bit_and_iff bit_or_iff bit_mask_iff)
qed

lemma literal_read:
  assumes int: "int_decode (pfx @ octets @ rest) prefix_bits = Inr (length pfx, word_of_nat (length octets))"
    and pfx: "pfx = first # others" and p: "prefix_bits \<le> 7" and fits: "length pfx + length octets \<le> USIZE_MAX"
  shows "literal_decode_ascii (pfx @ octets @ rest) prefix_bits =
    (if bit first prefix_bits then
       map_option (\<lambda>(scratch, r). res_bind (map_err Huffman r)
         (\<lambda>plain. Inr (length pfx + length octets, plain, scratch))) (decode_into_ascii octets [])
     else Some (Inr (length pfx + length octets, is_ascii octets, octets)))"
proof -
  have "length octets < 2 ^ 64" using fits by (simp add: USIZE_MAX_def)
  then have len: "unat (word_of_nat (length octets) :: u64) = length octets" by (simp add: unat_of_nat)
  have range: "get_range (pfx @ octets @ rest) (length pfx) (length pfx + length octets) = Some octets"
    by (simp add: get_range_def)
  show ?thesis using int fits p range
    by (simp add: literal_decode_ascii_def Let_def pfx get_at_def len MAX_PREFIX_BITS_def min_def
        mark_bit(1) [OF p])
qed

lemma is_ascii_bits: "is_ascii v \<longleftrightarrow> (\<forall>b\<in>set v. \<not> bit b 7)"
proof -
  have "b < 0x80 \<longleftrightarrow> \<not> bit b 7" for b :: octet by (rule octet_all) code_simp
  then show ?thesis by (simp add: is_ascii_def list_all_iff)
qed

lemma literal_plain:
  assumes "literal_ok prefix_bits flags v"
  shows "literal_decode_ascii (int_encode (word_of_nat (length v)) prefix_bits flags @ v @ rest) prefix_bits
    = Some (Inr (length (int_encode (word_of_nat (length v)) prefix_bits flags) + length v, is_ascii v, v))"
proof -
  let ?hd = "int_encode (word_of_nat (length v)) prefix_bits flags"
  note flags = literal_flags [OF assms]
  obtain first others where hd: "?hd = first # others" and first: "\<And>n. prefix_bits \<le> n \<Longrightarrow> bit first n = bit flags n"
    using int_encode_first [OF flags(1)] by metis
  have fits: "length ?hd + length v \<le> USIZE_MAX" "prefix_bits \<le> 7"
    using int_encode_length [OF flags(1), of "word_of_nat (length v)"] assms unfolding literal_ok_def by linarith+
  show ?thesis using literal_read [OF int_decode_encode [OF flags(1)] hd fits(2,1)] first [of prefix_bits] flags(2)
    by simp
qed

lemma literal_huffman:
  assumes "literal_ok prefix_bits flags v"
  shows "literal_decode_ascii (int_encode (word_of_nat (encoded_len v)) prefix_bits (flags OR huffman_mark prefix_bits)
      @ encode_sized v [] @ rest) prefix_bits
    = Some (Inr (length (int_encode (word_of_nat (encoded_len v)) prefix_bits (flags OR huffman_mark prefix_bits)
        @ encode_sized v []), is_ascii v, v))"
proof -
  let ?hd = "int_encode (word_of_nat (encoded_len v)) prefix_bits (flags OR huffman_mark prefix_bits)"
  note flags = literal_flags [OF assms]
  have p: "prefix_bits \<le> 7" using assms by (simp add: literal_ok_def)
  obtain first others where hd: "?hd = first # others"
    and first: "\<And>n. prefix_bits \<le> n \<Longrightarrow> bit first n = bit (flags OR huffman_mark prefix_bits) n"
    using int_encode_first [OF flags(3)] by metis
  have len: "length (encode_sized v []) = encoded_len v" using length_huff_encode [of v] by (simp add: huff_encode_def)
  have fits: "length ?hd + length (encode_sized v []) \<le> USIZE_MAX"
    using int_encode_length [OF flags(3), of "word_of_nat (encoded_len v)"] assms
    unfolding literal_ok_def len by linarith
  have mark: "bit first prefix_bits" using first [of prefix_bits] mark_bit(2) [OF p] by (simp add: bit_or_iff)
  have dec: "decode_into_ascii (encode_sized v []) [] = Some (v, Inr (is_ascii v))"
    using decode_into_ascii_encode [of v "[]"] by (simp add: huff_encode_def is_ascii_bits)
  have "int_decode (?hd @ encode_sized v [] @ rest) prefix_bits = Inr (length ?hd, word_of_nat (length (encode_sized v [])))"
    using int_decode_encode [OF flags(3)] by (simp add: len)
  from literal_read [OF this hd p fits] show ?thesis by (simp add: mark dec)
qed

text \<open>Both encoders of a literal, and what decoding either gives back.\<close>

lemma literal_decode_encode:
  assumes "literal_ok prefix_bits flags v"
  shows "literal_decode_ascii (literal_encode v prefix_bits flags huffman @ rest) prefix_bits
    = Some (Inr (length (literal_encode v prefix_bits flags huffman), is_ascii v, v))"
proof -
  have "min prefix_bits MAX_PREFIX_BITS = prefix_bits" using assms by (simp add: literal_ok_def MAX_PREFIX_BITS_def)
  then show ?thesis using literal_plain [OF assms, of rest] literal_huffman [OF assms, of rest]
    by (simp add: literal_encode_def Let_def)
qed

lemma literal_shorter: "literal_encode_shorter v prefix_bits flags = literal_encode v prefix_bits flags (prefers_huffman v)"
  by (simp add: literal_encode_shorter_def literal_encode_def prefers_huffman_def Let_def)

lemma literal_text_decoded: "is_utf8 v \<Longrightarrow> literal_text v (is_ascii v) = text_of v"
  by (simp add: literal_text_def text_from_str_of text_from_utf8_lossy_of utf8_lossy_id)

lemma literal_encode_nonempty [simp]: "literal_encode v prefix_bits flags huffman \<noteq> []"
  by (simp add: literal_encode_def Let_def)

interpretation literal: prefix_codec "\<lambda>(prefix_bits, flags, huffman) v. literal_ok prefix_bits flags v"
  "\<lambda>(prefix_bits, flags, huffman) v. literal_encode v prefix_bits flags huffman"
  "\<lambda>(prefix_bits, flags, huffman) input. Option.bind (literal_decode input prefix_bits) ok_of"
  by unfold_locales (auto simp: literal_decode_encode literal_decode_def)

text \<open>A decoded literal lies inside the input it was read from.\<close>

lemma literal_decode_total: "\<exists>r. literal_decode_ascii input prefix_bits = Some r"
  using huff_decode_total
  by (fastforce simp: literal_decode_ascii_def Let_def split: option.splits sum.splits)

text \<open>What the table codecs read: the literal at the front of their input.\<close>

definition literal_at :: "bytes \<Rightarrow> nat \<Rightarrow> fields_error + nat \<times> bool \<times> bytes" where
  "literal_at input prefix_bits = (case literal_decode_ascii input prefix_bits of Some r \<Rightarrow> r | None \<Rightarrow> Inl Incomplete)"

lemma literal_at_total: "literal_decode_ascii input prefix_bits = Some (literal_at input prefix_bits)"
  using literal_decode_total [of input prefix_bits] by (auto simp: literal_at_def)

lemma literal_decode_bound:
  assumes "literal_decode_ascii input prefix_bits = Some (Inr (n, plain, octets))"
  shows "0 < n \<and> n \<le> length input \<and> 5 * length octets \<le> 8 * length input"
proof -
  obtain pfx len run where int: "int_decode input (min prefix_bits MAX_PREFIX_BITS) = Inr (pfx, len)"
    and range: "get_range input pfx (pfx + unat len) = Some run" and n: "n = pfx + unat len"
    and octets: "octets = run \<or> (\<exists>r. decode_into_ascii run [] = Some (octets, r))"
    using assms
    by (auto simp: literal_decode_ascii_def Let_def res_bind_Inr_iff split: option.splits sum.splits if_splits)
  have "0 < pfx" using int_decode_value [OF int] by simp
  moreover have "length run \<le> length input" "n \<le> length input"
    using range n by (auto simp: get_range_def split: if_splits)
  moreover have "5 * length octets \<le> 8 * length run"
  proof (cases "octets = run")
    case False
    then obtain r where r: "decode_into_ascii run [] = Some (octets, r)" using octets by blast
    obtain d t s where d: "decode_into_ascii run [] = Some ([] @ d, s)" "stream run = codes d @ t"
      by (rule huff_decode_spec [of run "[]"]) blast
    then show ?thesis using decode_bound [OF d] r by simp
  qed simp
  ultimately show ?thesis using n by simp
qed

lemma literal_at_bound:
  "literal_at input prefix_bits = Inr (n, plain, octets) \<Longrightarrow> 0 < n \<and> n \<le> length input \<and> 5 * length octets \<le> 8 * length input"
  using literal_decode_bound literal_at_total by metis

lemma literal_at_encode:
  "literal_ok prefix_bits flags v \<Longrightarrow> literal_at (literal_encode_shorter v prefix_bits flags @ rest) prefix_bits
    = Inr (length (literal_encode_shorter v prefix_bits flags), is_ascii v, v)"
  using literal_at_total literal_decode_encode [of prefix_bits flags v "prefers_huffman v" rest]
  by (simp add: literal_shorter literal_at_def)

subsection \<open>Properties\<close>

text \<open>C31: a prefixed integer written with any prefix of at most eight bits, behind flags that leave
  the prefix free, is read back whatever follows it, for all 64-bit values.\<close>

theorem integer_roundtrip:
  assumes "flags_ok prefix_bits flags"
  shows "int_decode (int_encode v prefix_bits flags @ rest) prefix_bits = Inr (length (int_encode v prefix_bits flags), v)"
  using integer.dec_enc [of "(prefix_bits, flags)" v rest] assms by simp

theorem integer_roundtrip_witness:
  "int_decode (int_encode 1337 5 0xe0 @ [1]) 5 = Inr (length (int_encode 1337 5 0xe0), 1337)"
  by (rule integer_roundtrip) code_simp

text \<open>What the decoder of integers answers lies inside the input, takes at most eleven octets,
  and is the value the representation denotes whenever it takes at most ten.\<close>

lemma integer_value:
  assumes "int_decode input prefix_bits = Inr (n, v)"
  shows "0 < n \<and> n \<le> 11 \<and> n \<le> length input \<and> (n \<le> 10 \<longrightarrow> unat v = denoted (take n input) prefix_bits)"
  using assms by (rule int_decode_value)

lemma integer_value_witness: "unat (1337 :: u64) = denoted [31, 154, 10] 5"
proof -
  have "int_decode [31, 154, 10] 5 = Inr (3, 1337)" by code_simp
  from integer_value [OF this] show ?thesis by simp
qed

text \<open>The bound is tight. An integer of eleven octets whose last one carries more than the one
  bit that is left loses the rest to \<open>checked_shl\<close>, which only refuses a shift of 64 or more:
  the decoder answers 127 where the octets denote \<open>2 ^ 64 + 127\<close>, instead of
  \<open>IntegerOverflow\<close>.\<close>

lemma integer_overflow_missed:
  "int_decode [0x7f, 0x80, 0x80, 0x80, 0x80, 0x80, 0x80, 0x80, 0x80, 0x80, 2] 7 = Inr (11, 127) \<and>
   denoted [0x7f, 0x80, 0x80, 0x80, 0x80, 0x80, 0x80, 0x80, 0x80, 0x80, 2] 7 = 2 ^ 64 + 127"
proof
  show "int_decode [0x7f, 0x80, 0x80, 0x80, 0x80, 0x80, 0x80, 0x80, 0x80, 0x80, 2] 7 = Inr (11, 127)"
    by code_simp
  have "int_limit 7 = 0x7f" by code_simp
  then show "denoted [0x7f, 0x80, 0x80, 0x80, 0x80, 0x80, 0x80, 0x80, 0x80, 0x80, 2] 7 = 2 ^ 64 + 127"
    by (simp add: denoted_def)
qed

text \<open>A string literal is read back from either encoding, with the octets it holds and whether
  they are ASCII, and the encoder that picks the shorter coding is one of the two.\<close>

lemma literal_roundtrip:
  assumes "literal_ok prefix_bits flags v"
  shows "literal_decode_ascii (literal_encode_shorter v prefix_bits flags @ rest) prefix_bits
      = Some (Inr (length (literal_encode_shorter v prefix_bits flags), is_ascii v, v)) \<and>
    literal_decode_ascii (literal_encode v prefix_bits flags huffman @ rest) prefix_bits
      = Some (Inr (length (literal_encode v prefix_bits flags huffman), is_ascii v, v))"
  using assms by (simp add: literal_shorter literal_decode_encode)

lemma literal_roundtrip_witness:
  "literal_decode_ascii (literal_encode [104, 105] 7 0 False @ [1]) 7
    = Some (Inr (length (literal_encode [104, 105] 7 0 False), is_ascii [104, 105], [104, 105]))"
proof (rule literal_roundtrip [THEN conjunct2])
  have "encoded_len [104, 105] = 2" by code_simp
  then show "literal_ok 7 0 [104, 105]" by (simp add: literal_ok_def flags_ok_def USIZE_MAX_def)
qed

text \<open>The octets of a field name and of a field value the classes admit, and the fields that are
  never indexed.\<close>

lemma field_vocabulary:
  "is_name octets = (octets \<noteq> [] \<and> list_all is_token octets) \<and>
   is_lowercase_name octets = (octets \<noteq> [] \<and> list_all (\<lambda>b. is_token b \<and> \<not> is_upper b) octets) \<and>
   is_value octets = (list_all (\<lambda>b. \<not> is_control b) octets \<and>
     \<not> (octets \<noteq> [] \<and> (is_blank (hd octets) \<or> is_blank (last octets)))) \<and>
   sensitive f = (text_bytes (hf_name f) \<in> set SENSITIVE)"
  by (auto simp: is_name_spec is_lowercase_name_spec is_value_spec sensitive_spec list_all_iff)

text \<open>Where the names of a static table have marks of their own, looking a field up by the mark
  of its name answers what a linear search of the table would, for every name: the first index
  carrying the name, and the first carrying name and value.\<close>

lemma static_index_search:
  assumes "inj_on mark_of (fst ` set entries)"
  shows "static_lookup (static_index_new entries base) name v = static_search entries base name v"
  using assms by (rule static_lookup_search)

lemma static_index_search_witness:
  "static_lookup (static_index_new [([97], []), ([98], [1]), ([98], [2])] 5) [98] [2]
    = static_search [([97], []), ([98], [1]), ([98], [2])] 5 [98] [2]"
proof (rule static_index_search)
  have "mark_of [97] \<noteq> mark_of [98]" by code_simp
  then show "inj_on mark_of (fst ` set [([97], []), ([98], [1]), ([98], [2])])" by simp
qed

end
