(* ===== verification/Static_Marks.thy ===== *)
theory Static_Marks
  imports Header_Fields
begin

section \<open>The marks of the static names\<close>

text \<open>
  The reverse index of a static table is keyed by the mark of a name alone. It answers a linear
  search of the table where the names have marks of their own (\<open>static_lookup_search\<close>); here the
  marks of every name of both static tables are evaluated, and seen to be distinct.
\<close>

text \<open>A word is read from its octets by one sum of integers, which evaluates faster than bit by bit.\<close>

lemma from_le_bytes_sum [code]:
  "from_le_bytes bs = (word_of_int (foldr (\<lambda>b acc. uint b + 256 * acc) bs 0) :: 'a::len word)"
proof (induction bs)
  case (Cons b bs)
  let ?v = "foldr (\<lambda>b acc. uint b + 256 * acc) bs 0"
  have disj: "(ucast b :: 'a word) AND push_bit 8 w = 0" for w
    by (rule bit_word_eqI) (auto simp: bit_simps)
  have "from_le_bytes (b # bs) = ucast b + push_bit 8 (from_le_bytes bs :: 'a word)"
    using disjunctive_add_eq_or [OF disj] by simp
  also have "\<dots> = word_of_int (uint b) + word_of_int 256 * word_of_int ?v"
    by (simp add: Cons push_bit_eq_mult unsigned_ucast_eq mult.commute)
  finally show ?case by simp
qed simp

definition static_names_1 :: "string list" where
  "static_names_1 =
    [''age'', ''if-unmodified-since'', ''content-disposition'', ''if-match'',
     ''expect'', ''max-forwards'', ''refresh'', ''x-xss-protection'',
     '':method'', ''transfer-encoding'', ''referer'', ''content-range'']"

definition static_names_2 :: "string list" where
  "static_names_2 =
    [''allow'', ''upgrade-insecure-requests'', ''purpose'', ''date'',
     ''access-control-expose-headers'', ''if-range'', ''link'', ''retry-after'',
     ''access-control-allow-origin'', ''expect-ct'', ''origin'', ''content-encoding'']"

definition static_names_3 :: "string list" where
  "static_names_3 =
    [''accept-charset'', ''accept-language'', ''timing-allow-origin'', ''server'',
     ''early-data'', ''access-control-allow-credentials'', ''etag'', ''last-modified'',
     ''if-none-match'', ''content-security-policy'', '':scheme'', ''proxy-authorization'']"

definition static_names_4 :: "string list" where
  "static_names_4 =
    [''accept'', ''x-frame-options'', '':authority'', ''access-control-allow-methods'',
     ''via'', ''content-length'', ''authorization'', '':status'',
     ''content-type'', ''set-cookie'', ''accept-encoding'', ''content-language'']"

definition static_names_5 :: "string list" where
  "static_names_5 =
    [''x-forwarded-for'', ''cookie'', ''access-control-request-method'', ''cache-control'',
     ''host'', '':path'', ''access-control-request-headers'', ''vary'',
     ''proxy-authenticate'', ''expires'', ''location'', ''x-content-type-options'']"

definition static_names_6 :: "string list" where
  "static_names_6 =
    [''content-location'', ''user-agent'', ''access-control-allow-headers'', ''range'',
     ''if-modified-since'', ''strict-transport-security'', ''accept-ranges'', ''forwarded'',
     ''www-authenticate'', ''from'', ''alt-svc'']"

lemma static_names_1_marks: "map mark_of (map ascii static_names_1) =
    [0x4a1e16e58713a44, 0x4a498b64312c991, 0x622c455b5769911, 0x6ca811d25e25be1,
     0x8a8b8784e7a18a8, 0x999c7928ea0a284, 0xb3ff1b1826427d1, 0xbd26a5ff98cf067,
     0xc54a942d115688b, 0xe77411c87c14eb0, 0x13d6a471f55362c5, 0x1764dcc2bb56fd81]"
  by code_simp

lemma static_names_2_marks: "map mark_of (map ascii static_names_2) =
    [0x1bdd3423eac56ff1, 0x1ed8fd1d9bad9f65, 0x20c22f7a1843cb4f, 0x24ecd06e09c43000,
     0x2dc3520446db64ac, 0x37f42d428913ee38, 0x3bc4e0b000503237, 0x3c69fff90e0eb288,
     0x3e3665d2e0201713, 0x3ee7dc42e63633eb, 0x3fbfce7bab238684, 0x419868513570f440]"
  by code_simp

lemma static_names_3_marks: "map mark_of (map ascii static_names_3) =
    [0x41e1a7c99b2bcf85, 0x43c9bb74e4956126, 0x48ff084524b396a2, 0x4a9690f3c9eef063,
     0x52cbf17819dcb36c, 0x538c040cdeaf1690, 0x54d2efec1f6c2bff, 0x59580234ce579718,
     0x627815bfcaacba09, 0x6637a7f882564d5d, 0x696299335120a270, 0x6b20963a9927ca8e]"
  by code_simp

lemma static_names_4_marks: "map mark_of (map ascii static_names_4) =
    [0x732b9ed41a3e82ae, 0x76d50d0a1081fe67, 0x7a0c7ad5757a383b, 0x8096e5fe8c2b594f,
     0x85395be50983b7bf, 0x8b7215c852b80fcb, 0x8f2689efb5de2b25, 0x9313ba36db718175,
     0x940647694f797017, 0x94baa5b5aab0b4e2, 0x99a3e2d8ad563944, 0x99ac6736c8d562c4]"
  by code_simp

lemma static_names_5_marks: "map mark_of (map ascii static_names_5) =
    [0xa0bf44ff7af85c73, 0xa0eeeba3e5d36506, 0xa57a83c8bd9f02a3, 0xabb74bd27c0cd434,
     0xacc2e1dece341a9c, 0xae044d321f90c300, 0xb071c0db88b8012c, 0xb2214656c82026cf,
     0xb23c92ccae4d845c, 0xb697e9520a7280a4, 0xb86fdefa8db68557, 0xbb3dbea5a4afa88f]"
  by code_simp

lemma static_names_6_marks: "map mark_of (map ascii static_names_6) =
    [0xc01ed089f4dda71f, 0xc1fe341b2e884e0d, 0xdcbce71380888ab7, 0xe5d1c290e631d520,
     0xe75c0bffb114d19c, 0xf0a5a8c320494589, 0xf1f5acd7ceeb7a36, 0xf710fc19b7481617,
     0xf95d412d5f96f53f, 0xfa6d6ea48fcdc3fa, 0xfaa354931d548482]"
  by code_simp

lemmas static_names_marks = static_names_1_marks static_names_2_marks static_names_3_marks static_names_4_marks
  static_names_5_marks static_names_6_marks

definition STATIC_NAMES :: "string list" where
  "STATIC_NAMES = static_names_1 @ static_names_2 @ static_names_3 @ static_names_4
    @ static_names_5 @ static_names_6"

text \<open>The names stand in the order of their marks, so each mark is only compared with the next.\<close>

fun ascending :: "'a::linorder list \<Rightarrow> bool" where
  "ascending (x # y # ys) \<longleftrightarrow> x < y \<and> ascending (y # ys)"
| "ascending _ \<longleftrightarrow> True"

lemma ascending_distinct: "ascending xs \<Longrightarrow> distinct xs"
proof -
  have "ascending (x # ys) \<Longrightarrow> y \<in> set ys \<Longrightarrow> x < y" for x y :: 'a and ys
    by (induction ys arbitrary: x) (auto intro: less_trans)
  then show "ascending xs \<Longrightarrow> distinct xs" by (induction xs rule: ascending.induct) fastforce+
qed

lemma static_names_distinct: "inj_on mark_of (set (map ascii STATIC_NAMES))"
proof -
  have "ascending (map mark_of (map ascii STATIC_NAMES))"
    unfolding STATIC_NAMES_def map_append static_names_marks by code_simp
  then have "distinct (map mark_of (map ascii STATIC_NAMES))" by (rule ascending_distinct)
  then show ?thesis by (simp only: distinct_map)
qed

text \<open>What a static table has to check: that its names are among these.\<close>

lemma static_marks_inj:
  assumes "list_all (\<lambda>name. name \<in> set STATIC_NAMES) names"
  shows "inj_on mark_of (set (map ascii names))"
proof (rule inj_on_subset [OF static_names_distinct])
  show "set (map ascii names) \<subseteq> set (map ascii STATIC_NAMES)"
    using assms by (auto simp: list_all_iff)
qed

end
