(* ===== verification/Eviction.thy ===== *)
theory Eviction
  imports Machine "HOL-Library.Sublist"
begin

section \<open>The contract of a table that evicts\<close>

text \<open>
  HPACK's dynamic table, seen from outside, is a list of fields, newest first, cut down to the
  longest run of newest entries that fits its capacity. \<open>bounded_table\<close> is that contract; the
  lemma its clients need is that two tables, one holding a leading part of what the other holds,
  stay that way under the same insertions.
\<close>

fun fit :: "('f \<Rightarrow> nat) \<Rightarrow> nat \<Rightarrow> 'f list \<Rightarrow> 'f list" where
  "fit weight capacity [] = []"
| "fit weight capacity (f # fs) =
     (if weight f \<le> capacity then f # fit weight (capacity - weight f) fs else [])"

abbreviation weigh :: "('f \<Rightarrow> nat) \<Rightarrow> 'f list \<Rightarrow> nat" where
  "weigh weight fs \<equiv> sum_list (map weight fs)"

lemma fit_weight: "weigh weight (fit weight capacity fs) \<le> capacity"
proof (induction fs arbitrary: capacity)
  case (Cons f fs)
  have "weigh weight (fit weight (capacity - weight f) fs) \<le> capacity - weight f" by (rule Cons)
  then show ?case by (cases "weight f \<le> capacity") simp_all
qed simp

lemma weigh_prefix: "prefix es fs \<Longrightarrow> weigh weight es \<le> weigh weight fs"
  by (auto simp: prefix_def)

lemma fit_prefix: "prefix (fit weight capacity fs) fs"
  by (induction fs arbitrary: capacity) auto

lemma fit_all: "weigh weight fs \<le> capacity \<Longrightarrow> fit weight capacity fs = fs"
  by (induction fs arbitrary: capacity) auto

lemma fit_longest: "prefix es fs \<Longrightarrow> weigh weight es \<le> capacity \<Longrightarrow> prefix es (fit weight capacity fs)"
proof (induction fs arbitrary: es capacity)
  case (Cons f fs)
  then show ?case by (cases es) auto
qed simp

lemma fit_snoc: "capacity < weigh weight (fs @ [f]) \<Longrightarrow> fit weight capacity (fs @ [f]) = fit weight capacity fs"
  by (induction fs arbitrary: capacity) auto

lemma fit_fit: "fit weight (min c d) fs = fit weight c (fit weight d fs)"
proof (rule prefix_order.antisym)
  let ?m = "fit weight (min c d) fs"
  have "weigh weight ?m \<le> min c d" by (rule fit_weight)
  then show "prefix ?m (fit weight c (fit weight d fs))"
    by (intro fit_longest fit_prefix) simp_all
  have "weigh weight (fit weight c (fit weight d fs)) \<le> d"
    using weigh_prefix [OF fit_prefix [of weight c "fit weight d fs"], of weight] fit_weight [of weight d fs]
    by (rule order_trans)
  moreover have "prefix (fit weight c (fit weight d fs)) fs"
    using fit_prefix prefix_order.trans by blast
  ultimately show "prefix (fit weight c (fit weight d fs)) ?m"
    using fit_weight [of weight c "fit weight d fs"] by (intro fit_longest) simp_all
qed

locale bounded_table =
  fixes ok :: "'t \<Rightarrow> bool"
    and contents :: "'t \<Rightarrow> 'f list"
    and capacity :: "'t \<Rightarrow> nat"
    and weight :: "'f \<Rightarrow> nat"
    and ins :: "'f \<Rightarrow> 't \<Rightarrow> 't"
    and resize :: "nat \<Rightarrow> 't \<Rightarrow> 't"
  assumes bounded: "ok t \<Longrightarrow> weigh weight (contents t) \<le> capacity t"
    and ins_ok: "ok t \<Longrightarrow> ok (ins f t)"
    and ins_contents: "ok t \<Longrightarrow> contents (ins f t) = fit weight (capacity t) (f # contents t)"
    and ins_capacity: "ok t \<Longrightarrow> capacity (ins f t) = capacity t"
    and resize_ok: "ok t \<Longrightarrow> c \<le> USIZE_MAX \<Longrightarrow> ok (resize c t)"
    and resize_contents: "ok t \<Longrightarrow> contents (resize c t) = fit weight c (contents t)"
    and resize_capacity: "ok t \<Longrightarrow> capacity (resize c t) = c"
begin

lemma ins_lockstep:
  assumes "ok s" "ok t" "capacity s = capacity t" "prefix (contents s) (contents t)"
  shows "prefix (contents (ins f s)) (contents (ins f t))"
proof -
  have "prefix (contents (ins f s)) (f # contents s)" by (simp only: ins_contents assms(1) fit_prefix)
  then have "prefix (contents (ins f s)) (f # contents t)"
    using assms(4) by (meson Cons_prefix_Cons prefix_order.trans)
  then show ?thesis using assms by (simp only: ins_contents fit_longest fit_weight)
qed

lemma resize_lockstep:
  assumes "ok s" "ok t" "prefix (contents s) (contents t)"
  shows "prefix (contents s) (contents (resize (capacity s) t))"
  using assms by (simp add: resize_contents fit_longest bounded)

lemma resize_behind:
  assumes "ok s" "prefix (contents s) (contents t)"
  shows "prefix (contents (resize c s)) (contents t)"
  using assms fit_prefix prefix_order.trans by (metis resize_contents)

lemma ins_elem: "ok t \<Longrightarrow> set (contents (ins f t)) \<subseteq> insert f (set (contents t))"
  using set_mono_prefix [OF fit_prefix [of weight "capacity t" "f # contents t"]] by (simp only: ins_contents) simp

lemma resize_elem: "ok t \<Longrightarrow> set (contents (resize c t)) \<subseteq> set (contents t)"
  using set_mono_prefix [OF fit_prefix [of weight c "contents t"]] by (simp add: resize_contents)

text \<open>Lowering the capacity and raising it again keeps what the lowest of the two holds.\<close>

lemma resize_resize:
  "ok t \<Longrightarrow> c \<le> USIZE_MAX \<Longrightarrow> contents (resize d (resize c t)) = fit weight (min d c) (contents t)"
  by (simp add: resize_contents resize_ok fit_fit)

end

end
