(* ===== verification/Hpack.thy ===== *)
theory Hpack
  imports Static_Marks Eviction
begin

section \<open>HPACK (src/src/helpers/hpack.rs)\<close>

text \<open>
  The static table, the dynamic table, the encoder and the decoder. A method that changes its
  object is a function to the changed object. A \<open>VecDeque\<close> is a list with its front first. An
  operation that can fail after having changed the decoder returns the decoder beside its result,
  since the changes stay.
\<close>

subsection \<open>The static table\<close>

definition STATIC_TABLE :: "(string \<times> string) list" where
  "STATIC_TABLE =
    [('':authority'', ''''), ('':method'', ''GET''), ('':method'', ''POST''),
     ('':path'', ''/''), ('':path'', ''/index.html''), ('':scheme'', ''http''),
     ('':scheme'', ''https''), ('':status'', ''200''), ('':status'', ''204''),
     ('':status'', ''206''), ('':status'', ''304''), ('':status'', ''400''),
     ('':status'', ''404''), ('':status'', ''500''), (''accept-charset'', ''''),
     (''accept-encoding'', ''gzip, deflate''), (''accept-language'', ''''), (''accept-ranges'', ''''),
     (''accept'', ''''), (''access-control-allow-origin'', ''''), (''age'', ''''),
     (''allow'', ''''), (''authorization'', ''''), (''cache-control'', ''''),
     (''content-disposition'', ''''), (''content-encoding'', ''''), (''content-language'', ''''),
     (''content-length'', ''''), (''content-location'', ''''), (''content-range'', ''''),
     (''content-type'', ''''), (''cookie'', ''''), (''date'', ''''),
     (''etag'', ''''), (''expect'', ''''), (''expires'', ''''),
     (''from'', ''''), (''host'', ''''), (''if-match'', ''''),
     (''if-modified-since'', ''''), (''if-none-match'', ''''), (''if-range'', ''''),
     (''if-unmodified-since'', ''''), (''last-modified'', ''''), (''link'', ''''),
     (''location'', ''''), (''max-forwards'', ''''), (''proxy-authenticate'', ''''),
     (''proxy-authorization'', ''''), (''range'', ''''), (''referer'', ''''),
     (''refresh'', ''''), (''retry-after'', ''''), (''server'', ''''),
     (''set-cookie'', ''''), (''strict-transport-security'', ''''), (''transfer-encoding'', ''''),
     (''user-agent'', ''''), (''vary'', ''''), (''via'', ''''),
     (''www-authenticate'', '''')]"

definition header_new :: "bytes \<Rightarrow> bytes \<Rightarrow> header_field" where
  "header_new name value = \<lparr> hf_name = text_from_str name, hf_value = text_from_str value \<rparr>"

definition static_entries :: "header_field list" where
  "static_entries = map (\<lambda>(name, value). header_new (ascii name) (ascii value)) STATIC_TABLE"

text \<open>The octets of a field, which is what the reverse index is built from and asked for.\<close>

definition octets_of :: "header_field \<Rightarrow> bytes \<times> bytes" where
  "octets_of f = (text_bytes (hf_name f), text_bytes (hf_value f))"

definition static_reverse :: static_index where
  "static_reverse = static_index_new (map octets_of static_entries) 1"

definition static_find :: "header_field \<Rightarrow> (nat \<times> bool) option" where
  "static_find f =
     (case static_lookup static_reverse (text_bytes (hf_name f)) (text_bytes (hf_value f)) of
        (_, Some index) \<Rightarrow> Some (index, True)
      | (Some index, None) \<Rightarrow> Some (index, False)
      | (None, None) \<Rightarrow> None)"

subsection \<open>The dynamic table\<close>

record dynamic_table =
  dt_entries :: "entry list"
  dt_size :: nat
  dt_capacity :: nat

definition DEFAULT_CAPACITY :: nat where "DEFAULT_CAPACITY = 4096"

definition dt_new :: "nat \<Rightarrow> dynamic_table" where
  "dt_new capacity = \<lparr> dt_entries = [], dt_size = 0, dt_capacity = capacity \<rparr>"

text \<open>
  The loop both \<open>insert\<close> and \<open>set_capacity\<close> evict with: entries leave from the back until
  \<open>need\<close> more octets fit. The flag says whether they came to fit before the table ran out.
\<close>

function dt_evict :: "nat \<Rightarrow> dynamic_table \<Rightarrow> dynamic_table \<times> bool" where
  "dt_evict need t =
     (if dt_capacity t < dt_size t + need then
        if dt_entries t = [] then (t, False)
        else dt_evict need (t\<lparr> dt_entries := butlast (dt_entries t),
                               dt_size := dt_size t - entry_size (last (dt_entries t)) \<rparr>)
      else (t, True))"
  by pat_completeness auto
termination by (relation "measure (\<lambda>(need, t). length (dt_entries t))") auto

declare dt_evict.simps [simp del]

definition dt_insert :: "header_field \<Rightarrow> dynamic_table \<Rightarrow> dynamic_table" where
  "dt_insert f t =
     (case dt_evict (field_size f) t of
        (t, False) \<Rightarrow> t
      | (t, True) \<Rightarrow> t\<lparr> dt_size := dt_size t + field_size f, dt_entries := entry_of f # dt_entries t \<rparr>)"

definition dt_get :: "dynamic_table \<Rightarrow> nat \<Rightarrow> header_field option" where
  "dt_get t index = map_option en_field (get_at (dt_entries t) index)"

definition dt_set_capacity :: "nat \<Rightarrow> dynamic_table \<Rightarrow> dynamic_table" where
  "dt_set_capacity capacity t = fst (dt_evict 0 (t\<lparr> dt_capacity := capacity \<rparr>))"

fun dt_scan :: "u64 \<Rightarrow> header_field \<Rightarrow> nat option \<Rightarrow> nat \<Rightarrow> entry list \<Rightarrow> (nat \<times> bool) option" where
  "dt_scan mark f name_only offset [] = map_option (\<lambda>offset. (offset, False)) name_only"
| "dt_scan mark f name_only offset (e # es) =
     (if \<not> entry_named e mark f then dt_scan mark f name_only (offset + 1) es
      else if entry_valued e f then Some (offset, True)
      else dt_scan mark f (case name_only of None \<Rightarrow> Some offset | Some i \<Rightarrow> Some i) (offset + 1) es)"

definition dt_find :: "dynamic_table \<Rightarrow> header_field \<Rightarrow> (nat \<times> bool) option" where
  "dt_find t f = dt_scan (mark_of (text_bytes (hf_name f))) f None 0 (dt_entries t)"

subsection \<open>Errors\<close>

datatype hpack_error =
    IndexOutOfRange u64
  | IntegerOverflow
  | InvalidCapacityUpdate
  | Incomplete
  | Huffman huff_error
  | DecodedSizeExceeded

fun hpack_error_of :: "fields_error \<Rightarrow> hpack_error" where
  "hpack_error_of fields_error.IntegerOverflow = IntegerOverflow"
| "hpack_error_of fields_error.Incomplete = Incomplete"
| "hpack_error_of (fields_error.Huffman e) = Huffman e"

subsection \<open>The encoder\<close>

record encoder =
  en_table :: dynamic_table
  en_max_capacity :: nat
  en_capacity_limit :: nat
  en_pending :: "nat option"

definition DEFAULT_CAPACITY_LIMIT :: nat where "DEFAULT_CAPACITY_LIMIT = 4096"

definition encoder_new :: encoder where
  "encoder_new = \<lparr> en_table = dt_new DEFAULT_CAPACITY, en_max_capacity = DEFAULT_CAPACITY,
     en_capacity_limit = DEFAULT_CAPACITY_LIMIT, en_pending = None \<rparr>"

definition hpack_reference :: "encoder \<Rightarrow> header_field \<Rightarrow> (nat \<times> bool) option" where
  "hpack_reference en f =
     (let in_static = static_find f in
      case in_static of
        Some (index, True) \<Rightarrow> Some (index, True)
      | _ \<Rightarrow>
          (let base = length static_entries + 1;
               in_dynamic = map_option (\<lambda>(offset, exact). (base + offset, exact)) (dt_find (en_table en) f)
           in case in_dynamic of
                Some (index, True) \<Rightarrow> Some (index, True)
              | _ \<Rightarrow> (case in_static of Some r \<Rightarrow> Some r | None \<Rightarrow> in_dynamic)))"

definition hpack_encode_field :: "encoder \<Rightarrow> header_field \<Rightarrow> encoder \<times> bytes" where
  "hpack_encode_field en f =
     (case hpack_reference en f of
        Some (index, True) \<Rightarrow> (en, int_encode (word_of_nat index) 7 0x80)
      | found \<Rightarrow>
          (let index = (case found of None \<Rightarrow> 0 | Some (index, _) \<Rightarrow> word_of_nat index);
               out = (if sensitive f then int_encode index 4 0x10 else int_encode index 6 0x40)
                 @ (if index = 0 then literal_encode_shorter (text_bytes (hf_name f)) 7 0 else [])
                 @ literal_encode_shorter (text_bytes (hf_value f)) 7 0
           in (if sensitive f then en else en\<lparr> en_table := dt_insert f (en_table en) \<rparr>, out)))"

fun hpack_encode_fields :: "encoder \<Rightarrow> header_field list \<Rightarrow> encoder \<times> bytes" where
  "hpack_encode_fields en [] = (en, [])"
| "hpack_encode_fields en (f # fs) =
     (let (en, out) = hpack_encode_field en f; (en, others) = hpack_encode_fields en fs
      in (en, out @ others))"

definition hpack_encode :: "encoder \<Rightarrow> header_field list \<Rightarrow> encoder \<times> bytes" where
  "hpack_encode en fs =
     (let out = (case en_pending en of None \<Rightarrow> [] | Some capacity \<Rightarrow> int_encode (word_of_nat capacity) 5 0x20);
          (en, others) = hpack_encode_fields (en\<lparr> en_pending := None \<rparr>) fs
      in (en, out @ others))"

definition encoder_set_max_capacity :: "nat \<Rightarrow> encoder \<Rightarrow> encoder" where
  "encoder_set_max_capacity max_capacity en =
     (let capacity = min max_capacity (en_capacity_limit en)
      in en\<lparr> en_max_capacity := max_capacity, en_table := dt_set_capacity capacity (en_table en),
             en_pending := Some capacity \<rparr>)"

definition encoder_set_capacity_limit :: "nat \<Rightarrow> encoder \<Rightarrow> encoder" where
  "encoder_set_capacity_limit limit en =
     (let en = en\<lparr> en_capacity_limit := limit \<rparr>
      in if limit < dt_capacity (en_table en)
         then en\<lparr> en_table := dt_set_capacity limit (en_table en), en_pending := Some limit \<rparr>
         else en)"

subsection \<open>The decoder\<close>

text \<open>The scratch buffer carries nothing from one call to the next and is left out.\<close>

record decoder =
  de_table :: dynamic_table
  de_max_capacity :: nat
  de_max_decoded_size :: nat
  de_section :: nat

definition DEFAULT_MAX_DECODED_SIZE :: nat where "DEFAULT_MAX_DECODED_SIZE = 64 * 1024"

definition decoder_new :: decoder where
  "decoder_new = \<lparr> de_table = dt_new DEFAULT_CAPACITY, de_max_capacity = DEFAULT_CAPACITY,
     de_max_decoded_size = DEFAULT_MAX_DECODED_SIZE, de_section = SECTION_FLOOR \<rparr>"

definition hpack_resolve :: "decoder \<Rightarrow> u64 \<Rightarrow> hpack_error + header_field" where
  "hpack_resolve de index =
     (if index = 0 then Inl (IndexOutOfRange index)
      else if index \<le> word_of_nat (length static_entries) then Inr (static_entries ! (unat index - 1))
      else ok_or (IndexOutOfRange index)
             (dt_get (de_table de) (unat (index - word_of_nat (length static_entries) - 1))))"

definition hpack_decode_literal :: "decoder \<Rightarrow> bytes \<Rightarrow> nat \<Rightarrow> hpack_error + nat \<times> header_field" where
  "hpack_decode_literal de input prefix_bits =
     res_bind (map_err hpack_error_of (int_decode input prefix_bits)) (\<lambda>(consumed, index).
     res_bind (if index = 0 then
                 res_bind (map_err hpack_error_of (literal_at (drop consumed input) 7))
                   (\<lambda>(taken, plain, octets). Inr (consumed + taken, literal_text octets plain))
               else res_bind (hpack_resolve de index) (\<lambda>f. Inr (consumed, hf_name f))) (\<lambda>(consumed, name).
     res_bind (map_err hpack_error_of (literal_at (drop consumed input) 7)) (\<lambda>(taken, plain, octets).
       Inr (consumed + taken, \<lparr> hf_name = name, hf_value = literal_text octets plain \<rparr>))))"

text \<open>One representation off the front of the block.\<close>

definition hpack_step :: "decoder \<Rightarrow> bytes \<Rightarrow> octet \<Rightarrow> decoder \<times> (hpack_error + nat \<times> header_field option)" where
  "hpack_step de rest first =
     (if first AND 0x80 \<noteq> 0 then
        (de, res_bind (map_err hpack_error_of (int_decode rest 7)) (\<lambda>(consumed, index).
             res_bind (hpack_resolve de index) (\<lambda>f. Inr (consumed, Some f))))
      else if first AND 0x40 \<noteq> 0 then
        (case hpack_decode_literal de rest 6 of
           Inl e \<Rightarrow> (de, Inl e)
         | Inr (consumed, f) \<Rightarrow> (de\<lparr> de_table := dt_insert f (de_table de) \<rparr>, Inr (consumed, Some f)))
      else if first AND 0x20 \<noteq> 0 then
        (case map_err hpack_error_of (int_decode rest 5) of
           Inl e \<Rightarrow> (de, Inl e)
         | Inr (consumed, capacity) \<Rightarrow>
             if de_max_capacity de < unat capacity then (de, Inl InvalidCapacityUpdate)
             else (de\<lparr> de_table := dt_set_capacity (unat capacity) (de_table de) \<rparr>, Inr (consumed, None)))
      else (de, res_bind (hpack_decode_literal de rest 4) (\<lambda>(consumed, f). Inr (consumed, Some f))))"

lemma unat_less_256: "unat (b :: octet) < 256"
  using unsigned_less [of b, where 'a = nat] by simp

lemma encoded_len_bound: "encoded_len v \<le> 4 * length v"
proof -
  have "list_all (\<lambda>l. l \<le> 30) LENGTHS" "256 \<le> length LENGTHS" by code_simp+
  then have "LENGTHS ! unat (b :: octet) \<le> 30" for b
    by (auto simp: list_all_length intro: less_le_trans [OF unat_less_256])
  then have "sum_list (map (\<lambda>b. LENGTHS ! unat b) v) \<le> 30 * length v" by (induction v) (auto simp: add_mono)
  then have "encoded_len v \<le> (30 * length v + 7) div 8" by (simp add: encoded_len_def div_le_mono)
  also have "\<dots> \<le> 4 * length v" by (cases "length v") (simp_all add: less_mult_imp_div_less less_Suc_eq_le [symmetric])
  finally show ?thesis .
qed

lemma literal_at_plain:
  assumes "literal_at input prefix_bits = Inr (n, plain, octets)"
  shows "plain = is_ascii octets"
proof -
  have "plain = is_ascii octets" if "decode_into_ascii run [] = Some (octets, Inr plain)" for run
  proof -
    obtain d t r where d: "decode_into_ascii run [] = Some ([] @ d, r)"
      "r = Inr (\<forall>x\<in>set d. \<not> bit x 7) \<and> all_ones t \<or>
       r = Inl InvalidPadding \<and> \<not> all_ones t \<and> (starts_code t 256 \<or> (\<forall>v. \<not> starts_code t v))"
      by (rule huff_decode_spec [of run "[]"]) blast
    then show ?thesis using that by (auto simp: is_ascii_bits)
  qed
  moreover have "literal_decode_ascii input prefix_bits = Some (Inr (n, plain, octets))"
    using assms literal_at_total by metis
  ultimately show ?thesis
    by (auto simp: literal_decode_ascii_def Let_def res_bind_Inr_iff split: option.splits sum.splits if_splits)
qed

lemma literal_text_ok:
  assumes "literal_at input prefix_bits = Inr (n, plain, octets)"
  shows "text_ok (literal_text octets plain)"
proof (cases plain)
  case True
  then have "is_utf8 octets" using literal_at_plain [OF assms] by (simp add: is_ascii_utf8)
  then show ?thesis using True by (simp add: literal_text_def text_from_str_of)
next
  case False
  then show ?thesis by (simp add: literal_text_def text_ok_utf8_lossy)
qed

subsection \<open>Every representation moves the decoder forward\<close>

lemma hpack_decode_literal_bound:
  assumes "hpack_decode_literal de input prefix_bits = Inr (n, f)"
  shows "0 < n \<and> n \<le> length input"
proof -
  obtain consumed index where int: "int_decode input prefix_bits = Inr (consumed, index)"
    using assms by (auto simp: hpack_decode_literal_def res_bind_Inr_iff)
  have consumed: "0 < consumed" "consumed \<le> length input" using int_decode_value [OF int] by auto
  have bound: "0 < taken \<and> taken \<le> length input - m" if "literal_at (drop m input) 7 = Inr (taken, plain, octets)"
    for m taken plain octets using literal_at_bound [OF that] by simp
  show ?thesis
  proof (cases "index = 0")
    case True
    then obtain m p os k q vs where "literal_at (drop consumed input) 7 = Inr (m, p, os)"
      "literal_at (drop (consumed + m) input) 7 = Inr (k, q, vs)" "n = consumed + m + k"
      using assms int by (auto simp: hpack_decode_literal_def res_bind_Inr_iff)
    then show ?thesis using bound consumed by fastforce
  next
    case False
    then obtain k q vs where "literal_at (drop consumed input) 7 = Inr (k, q, vs)" "n = consumed + k"
      using assms int by (auto simp: hpack_decode_literal_def res_bind_Inr_iff)
    then show ?thesis using bound consumed by fastforce
  qed
qed

lemma hpack_step_bound:
  assumes "hpack_step de rest first = (de', Inr (n, f))"
  shows "0 < n \<and> n \<le> length rest"
  using assms int_decode_value [of rest 7 n] int_decode_value [of rest 5 n]
    hpack_decode_literal_bound [of de rest 6 n] hpack_decode_literal_bound [of de rest 4 n]
  by (auto simp: hpack_step_def res_bind_Inr_iff split: if_splits sum.splits)

text \<open>
  The loop of \<open>decode_into\<close>: what is left of the block, the fields so far and their size.
\<close>

function hpack_loop :: "decoder \<Rightarrow> bytes \<Rightarrow> header_field list \<Rightarrow> nat \<Rightarrow> decoder \<times> (hpack_error + header_field list)" where
  "hpack_loop de [] headers held = (de\<lparr> de_section := length headers \<rparr>, Inr headers)"
| "hpack_loop de (first # others) headers held =
     (case hpack_step de (first # others) first of
        (de, Inl e) \<Rightarrow> (de, Inl e)
      | (de, Inr (consumed, None)) \<Rightarrow> hpack_loop de (drop consumed (first # others)) headers held
      | (de, Inr (consumed, Some f)) \<Rightarrow>
          if de_max_decoded_size de < held + field_size f then (de, Inl DecodedSizeExceeded)
          else hpack_loop de (drop consumed (first # others)) (headers @ [f]) (held + field_size f))"
  by pat_completeness auto
termination
  by (relation "measure (\<lambda>(de, rest, headers, held). length rest)")
    (auto dest!: hpack_step_bound [OF sym])

definition hpack_decode :: "decoder \<Rightarrow> bytes \<Rightarrow> decoder \<times> (hpack_error + header_field list)" where
  "hpack_decode de block = hpack_loop de block [] 0"

definition decoder_set_max_decoded_size :: "nat \<Rightarrow> decoder \<Rightarrow> decoder" where
  "decoder_set_max_decoded_size max_size de = de\<lparr> de_max_decoded_size := max_size \<rparr>"

definition decoder_set_max_capacity :: "nat \<Rightarrow> decoder \<Rightarrow> decoder" where
  "decoder_set_max_capacity max_capacity de =
     (let de = de\<lparr> de_max_capacity := max_capacity \<rparr>
      in if max_capacity < dt_capacity (de_table de)
         then de\<lparr> de_table := dt_set_capacity max_capacity (de_table de) \<rparr> else de)"

subsection \<open>The dynamic table keeps the newest fields that fit\<close>

definition dt_fields :: "dynamic_table \<Rightarrow> header_field list" where
  "dt_fields t = map en_field (dt_entries t)"

definition dt_ok :: "dynamic_table \<Rightarrow> bool" where
  "dt_ok t \<longleftrightarrow> dt_entries t = map entry_of (dt_fields t) \<and> dt_size t = weigh field_size (dt_fields t) \<and>
     dt_size t \<le> dt_capacity t \<and> dt_capacity t \<le> USIZE_MAX"

lemma en_field_entry_of [simp]: "en_field (entry_of f) = f" "entry_size (entry_of f) = field_size f"
  by (simp_all add: entry_of_def entry_size_def)

lemma dt_evict_spec:
  assumes "dt_entries t = map entry_of fs" "dt_size t = weigh field_size fs"
  shows "dt_evict need t =
    (t\<lparr> dt_entries := map entry_of (if need \<le> dt_capacity t then fit field_size (dt_capacity t - need) fs else []),
        dt_size := weigh field_size (if need \<le> dt_capacity t then fit field_size (dt_capacity t - need) fs else []) \<rparr>,
     need \<le> dt_capacity t)"
  using assms
proof (induction need t arbitrary: fs rule: dt_evict.induct)
  case (1 need t)
  show ?case
  proof (cases "dt_capacity t < dt_size t + need")
    case True
    show ?thesis
    proof (cases fs rule: rev_cases)
      case Nil
      then have "dt_evict need t = (t, False)" using 1(2,3) True by (subst dt_evict.simps) simp
      moreover have "t\<lparr> dt_entries := [], dt_size := 0 \<rparr> = t" using 1(2,3) Nil by (cases t) simp
      ultimately show ?thesis using 1(3) True Nil by simp
    next
      case (snoc gs g)
      let ?u = "t\<lparr> dt_entries := butlast (dt_entries t), dt_size := dt_size t - entry_size (last (dt_entries t)) \<rparr>"
      have "dt_evict need t = dt_evict need ?u" using 1(2) True snoc by (subst dt_evict.simps) simp
      moreover have "fit field_size (dt_capacity t - need) fs = fit field_size (dt_capacity t - need) gs"
        if "need \<le> dt_capacity t"
        using True 1(3) that unfolding snoc by (intro fit_snoc) simp
      ultimately show ?thesis using 1(1) [of gs] True 1(2,3) snoc by simp
    qed
  next
    case False
    then have "dt_evict need t = (t, True)" by (subst dt_evict.simps) simp
    moreover have "fit field_size (dt_capacity t - need) fs = fs" using False 1(3) by (intro fit_all) simp
    ultimately show ?thesis using False 1(2,3) by (cases t) simp
  qed
qed

lemma dt_insert_spec:
  assumes "dt_ok t"
  shows "dt_fields (dt_insert f t) = fit field_size (dt_capacity t) (f # dt_fields t)"
    "dt_ok (dt_insert f t)" "dt_capacity (dt_insert f t) = dt_capacity t"
proof -
  let ?gs = "if field_size f \<le> dt_capacity t then fit field_size (dt_capacity t - field_size f) (dt_fields t) else []"
  have "dt_entries t = map entry_of (dt_fields t)" "dt_size t = weigh field_size (dt_fields t)"
    using assms by (auto simp: dt_ok_def)
  note evict = dt_evict_spec [OF this, of "field_size f"]
  have insert: "dt_insert f t = t\<lparr> dt_entries := map entry_of (if field_size f \<le> dt_capacity t then f # ?gs else []),
      dt_size := weigh field_size (if field_size f \<le> dt_capacity t then f # ?gs else []) \<rparr>"
    unfolding dt_insert_def evict by (simp add: add.commute)
  show "dt_fields (dt_insert f t) = fit field_size (dt_capacity t) (f # dt_fields t)"
    unfolding insert by (simp add: dt_fields_def comp_def)
  show "dt_ok (dt_insert f t)" "dt_capacity (dt_insert f t) = dt_capacity t"
    using assms fit_weight [of field_size "dt_capacity t - field_size f" "dt_fields t"]
    unfolding insert by (auto simp: dt_ok_def dt_fields_def comp_def)
qed

lemma dt_set_capacity_spec:
  assumes "dt_ok t"
  shows "dt_fields (dt_set_capacity c t) = fit field_size c (dt_fields t)"
    "c \<le> USIZE_MAX \<Longrightarrow> dt_ok (dt_set_capacity c t)" "dt_capacity (dt_set_capacity c t) = c"
proof -
  have "dt_entries (t\<lparr> dt_capacity := c \<rparr>) = map entry_of (dt_fields t)"
    "dt_size (t\<lparr> dt_capacity := c \<rparr>) = weigh field_size (dt_fields t)"
    using assms by (auto simp: dt_ok_def)
  note evict = dt_evict_spec [OF this, of 0]
  have set: "dt_set_capacity c t = t\<lparr> dt_capacity := c, dt_entries := map entry_of (fit field_size c (dt_fields t)),
      dt_size := weigh field_size (fit field_size c (dt_fields t)) \<rparr>"
    unfolding dt_set_capacity_def evict by simp
  show "dt_fields (dt_set_capacity c t) = fit field_size c (dt_fields t)"
    unfolding set by (simp add: dt_fields_def comp_def)
  show "c \<le> USIZE_MAX \<Longrightarrow> dt_ok (dt_set_capacity c t)" "dt_capacity (dt_set_capacity c t) = c"
    using assms fit_weight [of field_size c "dt_fields t"] unfolding set by (auto simp: dt_ok_def dt_fields_def comp_def)
qed

lemma dt_new_ok: "c \<le> USIZE_MAX \<Longrightarrow> dt_ok (dt_new c)" "dt_fields (dt_new c) = []" "dt_capacity (dt_new c) = c"
  by (simp_all add: dt_ok_def dt_new_def dt_fields_def)

interpretation dynamic: bounded_table dt_ok dt_fields dt_capacity field_size dt_insert dt_set_capacity
  by unfold_locales (simp_all add: dt_insert_spec dt_set_capacity_spec, simp add: dt_ok_def)

subsection \<open>References\<close>

text \<open>Fields whose texts are well-formed, and short enough to fit in memory twice.\<close>

definition field_ok :: "header_field \<Rightarrow> bool" where
  "field_ok f \<longleftrightarrow> text_ok (hf_name f) \<and> text_ok (hf_value f) \<and>
     length (text_bytes (hf_name f)) < 2 ^ 60 \<and> length (text_bytes (hf_value f)) < 2 ^ 60"

lemma header_field_eq_iff: "f = g \<longleftrightarrow> hf_name f = hf_name g \<and> hf_value f = (hf_value (g :: header_field))"
  by (cases f; cases g) simp

lemma field_ok_eq:
  assumes "field_ok f" "field_ok g"
  shows "hf_name f = hf_name g \<longleftrightarrow> text_bytes (hf_name f) = text_bytes (hf_name g)"
    "f = g \<longleftrightarrow> octets_of f = octets_of g"
  using assms by (auto simp: field_ok_def header_field_eq_iff octets_of_def text_ok_eq)

lemma length_static [simp]: "length static_entries = 61"
  by (simp add: static_entries_def STATIC_TABLE_def)

lemma static_ok: "f \<in> set static_entries \<Longrightarrow> field_ok f"
proof -
  have "\<forall>(n, v) \<in> set STATIC_TABLE. is_utf8 (ascii n) \<and> is_utf8 (ascii v) \<and> length n < 64 \<and> length v < 64"
    by code_simp
  then show "f \<in> set static_entries \<Longrightarrow> field_ok f"
    by (auto simp: static_entries_def field_ok_def header_new_def text_from_str_of)
qed

lemma static_marks: "inj_on mark_of (fst ` set (map octets_of static_entries))"
proof -
  have "list_all (\<lambda>name. name \<in> set STATIC_NAMES) (map fst STATIC_TABLE)" by code_simp
  then have "inj_on mark_of (set (map ascii (map fst STATIC_TABLE)))" by (rule static_marks_inj)
  moreover have "fst ` set (map octets_of static_entries) = set (map ascii (map fst STATIC_TABLE))"
    by (auto simp: static_entries_def octets_of_def header_new_def text_from_str_of image_image case_prod_beta')
  ultimately show ?thesis by simp
qed

lemma static_find_search:
  "static_find f =
    (case position (\<lambda>e. octets_of e = octets_of f) static_entries of
       Some i \<Rightarrow> Some (i + 1, True)
     | None \<Rightarrow> map_option (\<lambda>i. (i + 1, False))
         (position (\<lambda>e. text_bytes (hf_name e) = text_bytes (hf_name f)) static_entries))"
proof -
  have map: "position P (map g xs) = position (P \<circ> g) xs" for P :: "bytes \<times> bytes \<Rightarrow> bool" and g :: "header_field \<Rightarrow> bytes \<times> bytes" and xs
    by (induction xs) auto
  have none: "position (\<lambda>e. octets_of e = octets_of f) static_entries = None"
    if "position (\<lambda>e. text_bytes (hf_name e) = text_bytes (hf_name f)) static_entries = None"
    using that by (auto simp: position_None_iff octets_of_def)
  show ?thesis using none
    by (auto simp: static_find_def static_reverse_def static_lookup_search [OF static_marks] static_search_def map
        octets_of_def comp_def split: option.splits)
qed

lemma static_find_spec:
  assumes "field_ok f"
  shows "static_find f =
    (case position (\<lambda>e. e = f) static_entries of
       Some i \<Rightarrow> Some (i + 1, True)
     | None \<Rightarrow> map_option (\<lambda>i. (i + 1, False)) (position (\<lambda>e. hf_name e = hf_name f) static_entries))"
proof -
  have "position (\<lambda>e. octets_of e = octets_of f) static_entries = position (\<lambda>e. e = f) static_entries"
    "position (\<lambda>e. text_bytes (hf_name e) = text_bytes (hf_name f)) static_entries
      = position (\<lambda>e. hf_name e = hf_name f) static_entries"
    using field_ok_eq [OF static_ok assms] by (auto intro!: position_cong_list)
  then show ?thesis unfolding static_find_search by (simp only:)
qed

lemma dt_scan_spec:
  assumes "field_ok f" "\<forall>g\<in>set gs. field_ok g"
  shows "dt_scan (mark_of (text_bytes (hf_name f))) f name_only offset (map entry_of gs) =
    (case position (\<lambda>g. g = f) gs of
       Some i \<Rightarrow> Some (offset + i, True)
     | None \<Rightarrow> map_option (\<lambda>i. (i, False))
         (case name_only of Some j \<Rightarrow> Some j
          | None \<Rightarrow> map_option (\<lambda>i. offset + i) (position (\<lambda>g. hf_name g = hf_name f) gs)))"
  using assms(2)
proof (induction gs arbitrary: name_only offset)
  case (Cons g gs)
  have "entry_named (entry_of g) (mark_of (text_bytes (hf_name f))) f \<longleftrightarrow> hf_name g = hf_name f"
    "entry_valued (entry_of g) f \<longleftrightarrow> hf_value g = hf_value f"
    using assms(1) Cons(2) by (auto simp: entry_named_def entry_valued_def entry_of_def field_ok_def text_eq_spec)
  then show ?case using Cons
    by (auto simp: header_field_eq_iff option.map_comp comp_def split: option.splits)
qed (simp split: option.splits)

lemma dt_find_spec:
  assumes "field_ok f" "dt_ok t" "\<forall>g\<in>set (dt_fields t). field_ok g"
  shows "dt_find t f =
    (case position (\<lambda>g. g = f) (dt_fields t) of
       Some i \<Rightarrow> Some (i, True)
     | None \<Rightarrow> map_option (\<lambda>i. (i, False)) (position (\<lambda>g. hf_name g = hf_name f) (dt_fields t)))"
  using dt_scan_spec [OF assms(1,3), of None 0] assms(2)
  by (simp add: dt_find_def dt_ok_def option.map_comp comp_def split: option.splits)

text \<open>The one index space both tables share: the static entries, then the dynamic ones.\<close>

definition indexed :: "dynamic_table \<Rightarrow> header_field list" where
  "indexed t = static_entries @ dt_fields t"

text \<open>The four ways a field is referred to.\<close>

lemma reference_cases:
  assumes "field_ok f" "dt_ok (en_table en)" "\<forall>g\<in>set (dt_fields (en_table en)). field_ok g"
  obtains (static) i where "position (\<lambda>e. e = f) static_entries = Some i" "hpack_reference en f = Some (i + 1, True)"
  | (dynamic) k where "position (\<lambda>e. e = f) (dt_fields (en_table en)) = Some k"
      "hpack_reference en f = Some (62 + k, True)"
  | (static_name) i where "position (\<lambda>e. hf_name e = hf_name f) static_entries = Some i"
      "f \<notin> set (indexed (en_table en))" "hpack_reference en f = Some (i + 1, False)"
  | (dynamic_name) k where "position (\<lambda>e. hf_name e = hf_name f) (dt_fields (en_table en)) = Some k"
      "f \<notin> set (indexed (en_table en))" "hpack_reference en f = Some (62 + k, False)"
  | (none) "hpack_reference en f = None" "f \<notin> set (indexed (en_table en))"
proof (cases "position (\<lambda>e. e = f) static_entries")
  case (Some i)
  then show thesis by (intro static) (simp_all add: hpack_reference_def static_find_spec [OF assms(1)])
next
  case stat: None
  show thesis
  proof (cases "position (\<lambda>e. e = f) (dt_fields (en_table en))")
    case (Some k)
    then show thesis using stat
      by (intro dynamic) (auto simp: hpack_reference_def Let_def static_find_spec [OF assms(1)] dt_find_spec [OF assms]
          split: option.split)
  next
    case None
    then have absent: "f \<notin> set (indexed (en_table en))" using stat by (auto simp: position_None_iff indexed_def)
    have reference: "hpack_reference en f =
      (case position (\<lambda>e. hf_name e = hf_name f) static_entries of Some i \<Rightarrow> Some (i + 1, False)
       | None \<Rightarrow> map_option (\<lambda>k. (62 + k, False)) (position (\<lambda>e. hf_name e = hf_name f) (dt_fields (en_table en))))"
      using stat None by (simp add: hpack_reference_def Let_def static_find_spec [OF assms(1)] dt_find_spec [OF assms]
          split: option.split)
    show thesis
    proof (cases "position (\<lambda>e. hf_name e = hf_name f) static_entries")
      case name: None
      then show thesis using reference absent dynamic_name none
        by (cases "position (\<lambda>e. hf_name e = hf_name f) (dt_fields (en_table en))") auto
    qed (use reference absent static_name in auto)
  qed
qed

lemma nth_indexed:
  "i < 61 \<Longrightarrow> indexed t ! i = static_entries ! i" "indexed t ! (61 + k) = dt_fields t ! k"
  "length (indexed t) = 61 + length (dt_fields t)"
  by (simp_all add: indexed_def nth_append)

lemma reference_sound:
  assumes "field_ok f" "dt_ok (en_table en)" "\<forall>g\<in>set (dt_fields (en_table en)). field_ok g"
    and "hpack_reference en f = Some (i, exact)"
  shows "0 < i \<and> i \<le> length (indexed (en_table en)) \<and> hf_name (indexed (en_table en) ! (i - 1)) = hf_name f \<and>
    (exact \<longrightarrow> indexed (en_table en) ! (i - 1) = f) \<and> (exact \<longleftrightarrow> f \<in> set (indexed (en_table en)))"
  using assms(1-3)
proof (cases rule: reference_cases)
  case (static k)
  then show ?thesis using assms(4) position_SomeD [OF static(1)] nth_mem [of k static_entries]
    by (auto simp: nth_indexed) (auto simp: indexed_def)
next
  case (dynamic k)
  have "i - 1 = 61 + k" using dynamic assms(4) by simp
  then show ?thesis using dynamic assms(4) position_SomeD [OF dynamic(1)] nth_mem [of k "dt_fields (en_table en)"]
    by (auto simp: nth_indexed) (auto simp: indexed_def)
next
  case (static_name k)
  then show ?thesis using assms(4) position_SomeD [OF static_name(1)] by (auto simp: nth_indexed)
next
  case (dynamic_name k)
  have "i - 1 = 61 + k" using dynamic_name assms(4) by simp
  then show ?thesis using dynamic_name assms(4) position_SomeD [OF dynamic_name(1)] by (auto simp: nth_indexed)
qed (use assms(4) in simp)

lemma reference_exact:
  assumes "field_ok f" "dt_ok (en_table en)" "\<forall>g\<in>set (dt_fields (en_table en)). field_ok g"
    and "f \<in> set (indexed (en_table en))"
  obtains i where "hpack_reference en f = Some (i, True)"
  using reference_cases [OF assms(1-3), of thesis] assms(4) that by auto

lemma resolve_spec:
  "hpack_resolve de index =
    (if index = 0 \<or> length (indexed (de_table de)) < unat index then Inl (IndexOutOfRange index)
     else Inr (indexed (de_table de) ! (unat index - 1)))"
proof -
  have small: "index \<le> 61 \<longleftrightarrow> unat index \<le> 61" by (simp add: word_le_nat_alt)
  have diff: "unat (index - 61 - 1) = unat index - 62" if "61 < unat index"
  proof -
    have "unat (index - 62) = unat index - unat (62 :: u64)" by (rule unat_sub) (use that in \<open>simp add: word_le_nat_alt\<close>)
    then show ?thesis by simp
  qed
  have "dt_get (de_table de) n = (if n < length (dt_fields (de_table de)) then Some (dt_fields (de_table de) ! n) else None)"
    for n by (simp add: dt_get_def get_at_def dt_fields_def)
  then show ?thesis using small diff
    by (auto simp: hpack_resolve_def indexed_def nth_append unat_eq_zero)
qed

end
