(* ===== verification/Hpack_Sync.thy ===== *)
theory Hpack_Sync
  imports Hpack
begin

section \<open>HPACK: the two tables stay in step\<close>

text \<open>
  What an encoder writes, the decoder at the other end reads, with both dynamic tables moving in
  lockstep: first one field, then a block with the capacity update that may lead it, then every
  run of a connection. Then what a decoder promises for input nobody vouches for.
\<close>

subsection \<open>What the encoder writes, the decoder reads\<close>

lemma flag_tests:
  "b AND 0x80 \<noteq> 0 \<longleftrightarrow> bit b 7" "b AND 0x40 \<noteq> 0 \<longleftrightarrow> bit b 6" "b AND 0x20 \<noteq> 0 \<longleftrightarrow> bit (b :: octet) 5"
  using and_exp_eq_0_iff_not_bit [of b 7] and_exp_eq_0_iff_not_bit [of b 6] and_exp_eq_0_iff_not_bit [of b 5] by simp_all

lemma flag_bits:
  "bit (0x80 :: octet) 7" "\<not> bit (0x40 :: octet) 7" "bit (0x40 :: octet) 6"
  "\<not> bit (0x20 :: octet) 7" "\<not> bit (0x20 :: octet) 6" "bit (0x20 :: octet) 5"
  "\<not> bit (0x10 :: octet) 7" "\<not> bit (0x10 :: octet) 6" "\<not> bit (0x10 :: octet) 5"
  by code_simp+

lemma representation_flags: "flags_ok 7 0x80" "flags_ok 6 0x40" "flags_ok 5 0x20" "flags_ok 4 0x10"
  by code_simp+

lemma int_encode_head:
  assumes "flags_ok prefix_bits flags" "prefix_bits \<le> n"
  shows "bit (hd (int_encode v prefix_bits flags)) n = bit flags n"
proof -
  obtain first others where "int_encode v prefix_bits flags = first # others" "bit first n = bit flags n"
    using int_encode_first [OF assms(1)] assms(2) by metis
  then show ?thesis by simp
qed

lemma int_encode_heads:
  "bit (hd (int_encode v 7 0x80)) 7"
  "\<not> bit (hd (int_encode v 6 0x40)) 7" "bit (hd (int_encode v 6 0x40)) 6"
  "\<not> bit (hd (int_encode v 5 0x20)) 7" "\<not> bit (hd (int_encode v 5 0x20)) 6"
  "bit (hd (int_encode v 5 0x20)) 5"
  "\<not> bit (hd (int_encode v 4 0x10)) 7" "\<not> bit (hd (int_encode v 4 0x10)) 6"
  "\<not> bit (hd (int_encode v 4 0x10)) 5"
  using flag_bits by (simp_all only: int_encode_head representation_flags) (simp_all add: int_encode_head representation_flags)

lemma literal_ok_field: "length v < 2 ^ 60 \<Longrightarrow> literal_ok 7 0 v"
  using encoded_len_bound [of v] by (simp add: literal_ok_def flags_ok_def USIZE_MAX_def)

text \<open>The literal form of a field, with its name written out or indexed.\<close>

definition literal_form :: "u64 \<Rightarrow> nat \<Rightarrow> octet \<Rightarrow> header_field \<Rightarrow> bytes" where
  "literal_form index prefix_bits flags f =
     int_encode index prefix_bits flags
       @ (if index = 0 then literal_encode_shorter (text_bytes (hf_name f)) 7 0 else [])
       @ literal_encode_shorter (text_bytes (hf_value f)) 7 0"

lemma decode_literal_form:
  assumes "flags_ok prefix_bits flags" "field_ok f"
    and known: "index = 0 \<or> (\<exists>g. hpack_resolve de index = Inr g \<and> hf_name g = hf_name f)"
  shows "hpack_decode_literal de (literal_form index prefix_bits flags f @ rest) prefix_bits
    = Inr (length (literal_form index prefix_bits flags f), f)"
proof -
  note int = int_decode_encode [OF assms(1), of index]
  have ok: "literal_ok 7 0 (text_bytes (hf_name f))" "literal_ok 7 0 (text_bytes (hf_value f))"
    and whole: "text_of (text_bytes (hf_name f)) = hf_name f" "text_of (text_bytes (hf_value f)) = hf_value f"
      "is_utf8 (text_bytes (hf_name f))" "is_utf8 (text_bytes (hf_value f))"
    using assms(2) by (auto simp: field_ok_def literal_ok_field text_ok_def)
  have f: "\<lparr> hf_name = hf_name f, hf_value = hf_value f \<rparr> = f" by simp
  show ?thesis
  proof (cases "index = 0")
    case True
    then show ?thesis using int
      by (simp add: hpack_decode_literal_def literal_form_def literal_at_encode ok literal_text_decoded whole f)
  next
    case False
    then show ?thesis using int known
      by (auto simp: hpack_decode_literal_def literal_form_def literal_at_encode ok literal_text_decoded whole)
  qed
qed

text \<open>A decoder's table in step with an encoder's: as large, and holding at least what that holds.\<close>

definition in_step :: "dynamic_table \<Rightarrow> dynamic_table \<Rightarrow> bool" where
  "in_step t u \<longleftrightarrow> dt_ok t \<and> dt_ok u \<and> dt_capacity t = dt_capacity u \<and>
     prefix (dt_fields t) (dt_fields u) \<and> (\<forall>g\<in>set (dt_fields u). field_ok g)"

lemma in_step_insert: "in_step t u \<Longrightarrow> field_ok f \<Longrightarrow> in_step (dt_insert f t) (dt_insert f u)"
  using dynamic.ins_elem [of u f]
  by (auto simp: in_step_def dynamic.ins_ok dynamic.ins_capacity dynamic.ins_lockstep)

lemma dt_length: "dt_ok t \<Longrightarrow> 32 * length (dt_fields t) \<le> USIZE_MAX"
proof -
  have "32 * length fs \<le> weigh field_size fs" for fs
    by (induction fs) (auto simp: field_size_def OVERHEAD_def)
  then show "dt_ok t \<Longrightarrow> 32 * length (dt_fields t) \<le> USIZE_MAX"
    using order_trans unfolding dt_ok_def by metis
qed

lemma resolve_in_step:
  assumes "in_step t (de_table de)" "0 < i" "i \<le> length (indexed t)"
  shows "hpack_resolve de (word_of_nat i) = Inr (indexed t ! (i - 1))" "(word_of_nat i :: u64) \<noteq> 0"
proof -
  have t: "dt_ok t" and pfx: "prefix (indexed t) (indexed (de_table de))"
    using assms(1) by (auto simp: in_step_def indexed_def)
  have "i < 2 ^ 64" using dt_length [OF t] assms(3) by (simp add: nth_indexed(3) USIZE_MAX_def)
  then have i: "unat (word_of_nat i :: u64) = i" by (simp add: unat_of_nat)
  then show "(word_of_nat i :: u64) \<noteq> 0" using assms(2) by (metis less_irrefl unat_0)
  then show "hpack_resolve de (word_of_nat i) = Inr (indexed t ! (i - 1))"
    using assms(2,3) pfx i unfolding resolve_spec by (auto simp: prefix_def nth_append)
qed

lemma encode_field_step:
  assumes step: "in_step (en_table en) (de_table de)" and f: "field_ok f"
    and enc: "hpack_encode_field en f = (en', out)"
  obtains t where "hpack_step de (out @ rest) (hd (out @ rest)) = (de\<lparr> de_table := t \<rparr>, Inr (length out, Some f))"
    "in_step (en_table en') t" "out \<noteq> []" "en' = en\<lparr> en_table := en_table en' \<rparr>"
    "dt_capacity t = dt_capacity (de_table de)"
proof (cases "\<exists>i. hpack_reference en f = Some (i, True)")
  case True
  then obtain i where i: "hpack_reference en f = Some (i, True)" by blast
  have ok: "dt_ok (en_table en)" "\<forall>g\<in>set (dt_fields (en_table en)). field_ok g"
    using step by (auto simp: in_step_def prefix_def)
  have at: "0 < i" "i \<le> length (indexed (en_table en))" "indexed (en_table en) ! (i - 1) = f"
    using reference_sound [OF f ok i] by auto
  have out: "out = int_encode (word_of_nat i) 7 0x80" "en' = en" using enc i by (auto simp: hpack_encode_field_def)
  have "hpack_step de (out @ rest) (hd (out @ rest)) = (de, Inr (length out, Some f))"
    unfolding hpack_step_def flag_tests out
    using at int_encode_heads(1)
    by (simp add: int_decode_encode representation_flags resolve_in_step [OF step])
  then show ?thesis using that [of "de_table de"] step out by simp
next
  case False
  have ok: "dt_ok (en_table en)" "\<forall>g\<in>set (dt_fields (en_table en)). field_ok g"
    using step by (auto simp: in_step_def prefix_def)
  define index :: u64 where
    "index = (case hpack_reference en f of None \<Rightarrow> 0 | Some (index, _) \<Rightarrow> word_of_nat index)"
  have enc': "en' = (if sensitive f then en else en\<lparr> en_table := dt_insert f (en_table en) \<rparr>)"
    "out = (if sensitive f then literal_form index 4 0x10 f else literal_form index 6 0x40 f)"
    using enc False
    by (auto simp: hpack_encode_field_def index_def Let_def literal_form_def split: option.splits bool.splits)
  have known: "index = 0 \<or> (\<exists>g. hpack_resolve de index = Inr g \<and> hf_name g = hf_name f)"
  proof (cases "hpack_reference en f")
    case (Some r)
    then obtain i where "hpack_reference en f = Some (i, False)" using False by (cases r) auto
    then show ?thesis using reference_sound [OF f ok, of i False] resolve_in_step [OF step, of i]
      by (auto simp: index_def)
  qed (simp add: index_def)
  note dec = decode_literal_form [OF _ f known]
  have nonempty: "literal_form i p fl f \<noteq> []" for i p fl by (simp add: literal_form_def)
  show ?thesis
  proof (cases "sensitive f")
    case True
    have "hpack_step de (out @ rest) (hd (out @ rest)) = (de, Inr (length out, Some f))"
      unfolding hpack_step_def flag_tests
      using True enc' int_encode_heads(7-9) dec [of 4 "0x10" rest] representation_flags
      by (simp add: literal_form_def)
    then show ?thesis using that [of "de_table de"] step enc' True nonempty by simp
  next
    case False
    have "hpack_step de (out @ rest) (hd (out @ rest))
      = (de\<lparr> de_table := dt_insert f (de_table de) \<rparr>, Inr (length out, Some f))"
      unfolding hpack_step_def flag_tests
      using False enc' int_encode_heads(2,3) dec [of 6 "0x40" rest] representation_flags
      by (simp add: literal_form_def)
    then show ?thesis using that [of "dt_insert f (de_table de)"] in_step_insert [OF step f] enc' False nonempty step
      by (simp add: in_step_def dynamic.ins_capacity)
  qed
qed

subsection \<open>Whole blocks\<close>

lemma encode_fields_loop:
  assumes "in_step (en_table en) (de_table de)" "\<forall>f\<in>set fs. field_ok f"
    and "hpack_encode_fields en fs = (en', out)" "held + weigh field_size fs \<le> de_max_decoded_size de"
  shows "\<exists>t. hpack_loop de (out @ rest) headers held
      = hpack_loop (de\<lparr> de_table := t \<rparr>) rest (headers @ fs) (held + weigh field_size fs) \<and>
    in_step (en_table en') t \<and> en' = en\<lparr> en_table := en_table en' \<rparr> \<and> dt_capacity t = dt_capacity (de_table de)"
  using assms
proof (induction fs arbitrary: en de out headers held)
  case Nil
  have "de\<lparr> de_table := de_table de \<rparr> = de" by simp
  then show ?case using Nil by (intro exI [of _ "de_table de"]) auto
next
  case (Cons f fs)
  obtain en1 out1 where one: "hpack_encode_field en f = (en1, out1)" by fastforce
  obtain out2 where two: "hpack_encode_fields en1 fs = (en', out2)" "out = out1 @ out2"
    using Cons(4) one by (auto simp: Let_def split: prod.splits)
  obtain t where t: "hpack_step de (out1 @ out2 @ rest) (hd (out1 @ out2 @ rest))
      = (de\<lparr> de_table := t \<rparr>, Inr (length out1, Some f))"
    "in_step (en_table en1) t" "out1 \<noteq> []" "en1 = en\<lparr> en_table := en_table en1 \<rparr>" "dt_capacity t = dt_capacity (de_table de)"
    using encode_field_step [OF Cons(2) _ one, of "out2 @ rest"] Cons(3) by auto
  obtain o1 os where o1: "out1 = o1 # os" using t(3) by (cases out1) auto
  have loop: "hpack_loop de (out1 @ out2 @ rest) headers held
    = hpack_loop (de\<lparr> de_table := t \<rparr>) (out2 @ rest) (headers @ [f]) (held + field_size f)"
    using t(1) Cons(5) unfolding o1 by simp
  obtain u where u: "hpack_loop (de\<lparr> de_table := t \<rparr>) (out2 @ rest) (headers @ [f]) (held + field_size f)
      = hpack_loop (de\<lparr> de_table := u \<rparr>) rest (headers @ f # fs) (held + field_size f + weigh field_size fs)"
    "in_step (en_table en') u" "en' = en1\<lparr> en_table := en_table en' \<rparr>" "dt_capacity u = dt_capacity t"
    using Cons(1) [of en1 "de\<lparr> de_table := t \<rparr>" out2 "held + field_size f" "headers @ [f]"] t(2) two(1) Cons(3,5)
    by (auto simp: add.assoc)
  have "en' = en\<lparr> en_table := en_table en' \<rparr>"
    using u(3) t(4) by (metis encoder.surjective encoder.update_convs(1))
  then show ?case using loop u t(5) two(2) by (intro exI [of _ u]) (simp add: add.assoc)
qed

definition hpack_sync :: "encoder \<Rightarrow> decoder \<Rightarrow> bool" where
  "hpack_sync en de \<longleftrightarrow>
     dt_ok (en_table en) \<and> dt_ok (de_table de) \<and> prefix (dt_fields (en_table en)) (dt_fields (de_table de)) \<and>
     (\<forall>g\<in>set (dt_fields (de_table de)). field_ok g) \<and>
     dt_capacity (en_table en) \<le> de_max_capacity de \<and> de_max_capacity de \<le> USIZE_MAX \<and>
     (case en_pending en of None \<Rightarrow> dt_capacity (en_table en) = dt_capacity (de_table de)
      | Some c \<Rightarrow> c = dt_capacity (en_table en))"

lemma encode_block:
  assumes sync: "hpack_sync en de" and fs: "\<forall>f\<in>set fs. field_ok f"
    and size: "weigh field_size fs \<le> de_max_decoded_size de" and enc: "hpack_encode en fs = (en', block)"
  shows "\<exists>de'. hpack_decode de block = (de', Inr fs) \<and> hpack_sync en' de' \<and>
    de_max_decoded_size de' = de_max_decoded_size de"
proof -
  let ?en = "en\<lparr> en_pending := None \<rparr>"
  obtain out where out: "hpack_encode_fields ?en fs = (en', out)"
    "block = (case en_pending en of None \<Rightarrow> [] | Some c \<Rightarrow> int_encode (word_of_nat c) 5 0x20) @ out"
    using enc by (auto simp: hpack_encode_def Let_def split: prod.splits)
  have ok: "dt_ok (en_table en)" "dt_ok (de_table de)" "prefix (dt_fields (en_table en)) (dt_fields (de_table de))"
    "\<forall>g\<in>set (dt_fields (de_table de)). field_ok g" using sync by (auto simp: hpack_sync_def)
  obtain t where t: "hpack_loop de block [] 0 = hpack_loop (de\<lparr> de_table := t \<rparr>) out [] 0" "in_step (en_table en) t"
  proof (cases "en_pending en")
    case None
    have "in_step (en_table en) (de_table de)" using sync None by (simp add: hpack_sync_def in_step_def)
    then show thesis using that [of "de_table de"] out None by simp
  next
    case (Some c)
    have c: "c = dt_capacity (en_table en)" "c \<le> de_max_capacity de" "c \<le> USIZE_MAX"
      using sync Some by (auto simp: hpack_sync_def)
    then have "unat (word_of_nat c :: u64) = c" by (simp add: unat_of_nat USIZE_MAX_def)
    then have step: "hpack_step de (int_encode (word_of_nat c) 5 0x20 @ out) (hd (int_encode (word_of_nat c) 5 0x20 @ out))
      = (de\<lparr> de_table := dt_set_capacity c (de_table de) \<rparr>, Inr (length (int_encode (word_of_nat c) 5 0x20), None))"
      unfolding hpack_step_def flag_tests using int_encode_heads(4-6) c(2)
      by (simp add: int_decode_encode representation_flags)
    obtain o1 os where o1: "int_encode (word_of_nat c) 5 0x20 = o1 # os" by (metis int_encode_nonempty list.exhaust)
    have "in_step (en_table en) (dt_set_capacity c (de_table de))"
      using ok c dynamic.resize_lockstep [OF ok(1-3)] dynamic.resize_elem [OF ok(2), of c]
      by (auto simp: in_step_def dynamic.resize_ok dynamic.resize_capacity)
    moreover have "hpack_loop de ((o1 # os) @ out) [] 0 = hpack_loop (de\<lparr> de_table := dt_set_capacity c (de_table de) \<rparr>) out [] 0"
      using step unfolding o1 by simp
    then have "hpack_loop de block [] 0 = hpack_loop (de\<lparr> de_table := dt_set_capacity c (de_table de) \<rparr>) out [] 0"
      using Some by (simp add: out(2) o1)
    ultimately show thesis using that by blast
  qed
  obtain u where u: "hpack_loop (de\<lparr> de_table := t \<rparr>) out [] 0 = hpack_loop (de\<lparr> de_table := u \<rparr>) [] fs (weigh field_size fs)"
    "in_step (en_table en') u" "en' = ?en\<lparr> en_table := en_table en' \<rparr>" "dt_capacity u = dt_capacity t"
    using encode_fields_loop [of ?en "de\<lparr> de_table := t \<rparr>" fs en' out 0 "[]" "[]"] t(2) fs size out(1) by auto
  have pending: "en_pending en' = None" by (subst u(3)) simp
  have "hpack_decode de block = (de\<lparr> de_table := u, de_section := length fs \<rparr>, Inr fs)"
    unfolding hpack_decode_def t(1) u(1) by simp
  moreover have "hpack_sync en' (de\<lparr> de_table := u, de_section := length fs \<rparr>)"
    using u(2,4) t(2) sync pending by (simp add: hpack_sync_def in_step_def)
  ultimately show ?thesis by simp
qed

subsection \<open>Runs of a connection\<close>

text \<open>
  What can happen to one direction of a connection: the encoder sends a block and the decoder
  reads it; the decoding end raises the ceiling it advertises; the encoding end learns of a
  ceiling up to that; the encoder's own limit, or the decoder's limit on decoded fields, is set.
\<close>

inductive hpack_event :: "encoder \<times> decoder \<Rightarrow> encoder \<times> decoder \<Rightarrow> bool" where
  Block: "\<forall>f\<in>set fs. field_ok f \<Longrightarrow> weigh field_size fs \<le> de_max_decoded_size de \<Longrightarrow>
    hpack_event (en, de) (fst (hpack_encode en fs), fst (hpack_decode de (snd (hpack_encode en fs))))"
| Advertise: "de_max_capacity de \<le> m \<Longrightarrow> m \<le> USIZE_MAX \<Longrightarrow>
    hpack_event (en, de) (en, decoder_set_max_capacity m de)"
| Ceiling: "m \<le> de_max_capacity de \<Longrightarrow> hpack_event (en, de) (encoder_set_max_capacity m en, de)"
| Limit: "hpack_event (en, de) (encoder_set_capacity_limit l en, de)"
| Decoded: "hpack_event (en, de) (en, decoder_set_max_decoded_size n de)"

inductive_cases hpack_eventE: "hpack_event (en, de) s"

lemma hpack_sync_init: "hpack_sync encoder_new decoder_new"
  by (simp add: hpack_sync_def encoder_new_def decoder_new_def dt_new_ok DEFAULT_CAPACITY_def USIZE_MAX_def)

lemma hpack_sync_resize:
  assumes "hpack_sync en de" "c \<le> de_max_capacity de" "en_pending en' = Some c"
    "en_table en' = dt_set_capacity c (en_table en)"
  shows "hpack_sync en' de"
  using assms dynamic.resize_behind [of "en_table en" "de_table de" c]
  by (simp add: hpack_sync_def dynamic.resize_ok dynamic.resize_capacity)

lemma hpack_event_sync:
  assumes "hpack_event (en, de) (en', de')" "hpack_sync en de"
  shows "hpack_sync en' de'"
  using assms(1)
proof (rule hpack_eventE)
  fix fs assume fs: "\<forall>f\<in>set fs. field_ok f" "weigh field_size fs \<le> de_max_decoded_size de"
    and ends: "(en', de') = (fst (hpack_encode en fs), fst (hpack_decode de (snd (hpack_encode en fs))))"
  obtain en1 block where "hpack_encode en fs = (en1, block)" by fastforce
  then show ?thesis using encode_block [OF assms(2) fs] ends by auto
next
  fix m assume "(en', de') = (en, decoder_set_max_capacity m de)" "de_max_capacity de \<le> m" "m \<le> USIZE_MAX"
  moreover have "dt_capacity (de_table de) \<le> m \<or> en_pending en \<noteq> None"
    using assms(2) calculation(2) by (auto simp: hpack_sync_def)
  moreover have "prefix (dt_fields (en_table en)) (fit field_size m (dt_fields (de_table de)))"
    using assms(2) calculation(2) dynamic.bounded [of "en_table en"]
    by (intro fit_longest) (auto simp: hpack_sync_def)
  ultimately show ?thesis using assms(2) set_mono_prefix [OF fit_prefix [of field_size m "dt_fields (de_table de)"]]
    by (auto simp: hpack_sync_def decoder_set_max_capacity_def Let_def dynamic.resize_ok dynamic.resize_contents
        split: option.splits)
next
  fix m assume "(en', de') = (encoder_set_max_capacity m en, de)" "m \<le> de_max_capacity de"
  then show ?thesis using hpack_sync_resize [OF assms(2), of "min m (en_capacity_limit en)"]
    by (simp add: encoder_set_max_capacity_def Let_def)
next
  fix l assume ends: "(en', de') = (encoder_set_capacity_limit l en, de)"
  have max: "dt_capacity (en_table en) \<le> de_max_capacity de" using assms(2) by (simp add: hpack_sync_def)
  show ?thesis
  proof (cases "l < dt_capacity (en_table en)")
    case True
    then show ?thesis using ends max
      by (auto simp: encoder_set_capacity_limit_def Let_def intro: hpack_sync_resize [OF assms(2), of l])
  next
    case False
    then show ?thesis using ends assms(2)
      by (simp add: encoder_set_capacity_limit_def Let_def hpack_sync_def split: option.splits)
  qed
qed (use assms(2) in \<open>auto simp: hpack_sync_def decoder_set_max_decoded_size_def split: option.splits\<close>)

lemma hpack_run_sync: "hpack_event\<^sup>*\<^sup>* (encoder_new, decoder_new) (en, de) \<Longrightarrow> hpack_sync en de"
proof (induction "(en, de)" arbitrary: en de rule: rtranclp_induct)
  case (step s)
  then show ?case using hpack_event_sync by (metis prod.exhaust)
qed (simp add: hpack_sync_init)

subsection \<open>Any input at all\<close>

definition texts_ok :: "header_field \<Rightarrow> bool" where
  "texts_ok f \<longleftrightarrow> text_ok (hf_name f) \<and> text_ok (hf_value f)"

definition decoder_ok :: "decoder \<Rightarrow> bool" where
  "decoder_ok de \<longleftrightarrow> dt_ok (de_table de) \<and> dt_capacity (de_table de) \<le> de_max_capacity de \<and>
     de_max_capacity de \<le> USIZE_MAX \<and> (\<forall>g\<in>set (dt_fields (de_table de)). texts_ok g)"

lemma resolve_ok: "decoder_ok de \<Longrightarrow> hpack_resolve de index = Inr f \<Longrightarrow> texts_ok f"
proof -
  assume de: "decoder_ok de" and r: "hpack_resolve de index = Inr f"
  have i: "index \<noteq> 0" "unat index \<le> length (indexed (de_table de))" "f = indexed (de_table de) ! (unat index - 1)"
    using r by (auto simp: resolve_spec split: if_splits)
  then have "unat index - 1 < length (indexed (de_table de))" by (metis diff_less less_le_trans unat_gt_0 word_neq_0_conv zero_less_one)
  then have "f \<in> set (indexed (de_table de))" unfolding i(3) by (rule nth_mem)
  then show ?thesis using static_ok de by (auto simp: indexed_def decoder_ok_def texts_ok_def field_ok_def)
qed

lemma decode_literal_ok:
  assumes "decoder_ok de" "hpack_decode_literal de input prefix_bits = Inr (n, f)"
  shows "texts_ok f"
proof -
  obtain consumed index m name taken plain octets where
    "(if index = 0 then
        res_bind (map_err hpack_error_of (literal_at (drop consumed input) 7))
          (\<lambda>(taken, plain, octets). Inr (consumed + taken, literal_text octets plain))
      else res_bind (hpack_resolve de index) (\<lambda>f. Inr (consumed, hf_name f))) = Inr (m, name)"
    "literal_at (drop m input) 7 = Inr (taken, plain, octets)"
    "f = \<lparr> hf_name = name, hf_value = literal_text octets plain \<rparr>"
    using assms(2) by (auto simp: hpack_decode_literal_def res_bind_Inr_iff)
  then show ?thesis using literal_text_ok resolve_ok [OF assms(1)]
    by (auto simp: res_bind_Inr_iff texts_ok_def split: if_splits)
qed

lemma hpack_step_ok:
  assumes "decoder_ok de" "hpack_step de rest first = (de', r)"
  shows "decoder_ok de' \<and> de_max_capacity de' = de_max_capacity de \<and> de_max_decoded_size de' = de_max_decoded_size de \<and>
    (\<forall>n f. r = Inr (n, Some f) \<longrightarrow> texts_ok f)"
proof -
  have insert: "decoder_ok (de\<lparr> de_table := dt_insert f (de_table de) \<rparr>)" if "texts_ok f" for f
    using assms(1) that dynamic.ins_elem [of "de_table de" f]
    by (auto simp: decoder_ok_def dynamic.ins_ok dynamic.ins_capacity)
  have resize: "decoder_ok (de\<lparr> de_table := dt_set_capacity c (de_table de) \<rparr>)" if "c \<le> de_max_capacity de" for c
    using assms(1) that dynamic.resize_elem [of "de_table de" c]
    by (auto simp: decoder_ok_def dynamic.resize_ok dynamic.resize_capacity)
  show ?thesis using assms insert resize decode_literal_ok [OF assms(1)] resolve_ok [OF assms(1)]
    by (auto simp: hpack_step_def res_bind_Inr_iff not_less split: if_splits sum.splits prod.splits)
qed

lemma hpack_loop_ok:
  assumes "hpack_loop de rest headers held = (de', r)" "decoder_ok de" "held = weigh field_size headers"
    "held \<le> de_max_decoded_size de" "\<forall>f\<in>set headers. texts_ok f"
  shows "decoder_ok de' \<and> de_max_capacity de' = de_max_capacity de \<and> de_max_decoded_size de' = de_max_decoded_size de \<and>
    (\<forall>fs. r = Inr fs \<longrightarrow> weigh field_size fs \<le> de_max_decoded_size de \<and> (\<forall>f\<in>set fs. texts_ok f))"
  using assms
proof (induction de rest headers held rule: hpack_loop.induct)
  case (1 de headers held)
  then show ?case by (auto simp: decoder_ok_def)
next
  case (2 de first others headers held)
  obtain de1 s where step: "hpack_step de (first # others) first = (de1, s)" by fastforce
  note ok = hpack_step_ok [OF 2(4) step]
  show ?case
  proof (cases s)
    case (Inl e)
    then show ?thesis using 2(3) step ok by auto
  next
    case (Inr nf)
    obtain n f where nf: "nf = (n, f)" by fastforce
    show ?thesis
    proof (cases f)
      case None
      then show ?thesis using 2(1) [OF step [unfolded Inr nf None, symmetric] refl refl refl] 2(3-) step ok Inr nf by simp
    next
      case (Some g)
      show ?thesis
      proof (cases "de_max_decoded_size de1 < held + field_size g")
        case True
        then show ?thesis using 2(3) step ok Inr nf Some by auto
      next
        case False
        then show ?thesis using 2(2) [OF step [unfolded Inr nf Some, symmetric] refl refl refl False] 2(3-) step ok Inr nf Some
          by simp
      qed
    qed
  qed
qed

subsection \<open>Properties\<close>

text \<open>C8: from the moment both ends are new, whatever blocks, ceilings and limits pass between them,
  the next block the encoder writes is decoded to the fields it was made of, in order, and both
  tables have moved in step again.\<close>

theorem hpack_lockstep:
  assumes "hpack_event\<^sup>*\<^sup>* (encoder_new, decoder_new) (en, de)"
    and "\<forall>f\<in>set fs. field_ok f" "weigh field_size fs \<le> de_max_decoded_size de"
  shows "snd (hpack_decode de (snd (hpack_encode en fs))) = Inr fs \<and>
    prefix (dt_fields (en_table (fst (hpack_encode en fs))))
      (dt_fields (de_table (fst (hpack_decode de (snd (hpack_encode en fs))))))"
proof -
  obtain en' block where enc: "hpack_encode en fs = (en', block)" by fastforce
  from encode_block [OF hpack_run_sync [OF assms(1)] assms(2,3) enc] show ?thesis
    using enc by (auto simp: hpack_sync_def)
qed

theorem hpack_lockstep_witness:
  "\<exists>f. snd (hpack_decode decoder_new (snd (hpack_encode (encoder_set_max_capacity 4096 encoder_new) [f]))) = Inr [f]"
proof -
  let ?f = "header_new (ascii ''x-a'') (ascii ''1'')"
  have "hpack_event (encoder_new, decoder_new) (encoder_set_max_capacity 4096 encoder_new, decoder_new)"
    by (rule Ceiling) (simp add: decoder_new_def DEFAULT_CAPACITY_def)
  then have run: "hpack_event\<^sup>*\<^sup>* (encoder_new, decoder_new) (encoder_set_max_capacity 4096 encoder_new, decoder_new)"
    by (rule r_into_rtranclp)
  have "is_utf8 (ascii ''x-a'')" "is_utf8 (ascii ''1'')" by code_simp+
  then have "\<forall>f\<in>set [?f]. field_ok f" by (simp add: field_ok_def header_new_def text_from_str_of)
  moreover have "weigh field_size [?f] \<le> de_max_decoded_size decoder_new"
    by (simp add: field_size_def header_new_def text_from_str_of text_len_of OVERHEAD_def decoder_new_def
        DEFAULT_MAX_DECODED_SIZE_def)
  ultimately show ?thesis using hpack_lockstep [OF run, of "[?f]"] by blast
qed

text \<open>C10: a dynamic table is at all times the longest run of its newest fields that fits: an insertion
  keeps those of the field and what the table held, dropping everything where the field alone is
  too large, a change of capacity those of what it held, and its recorded size is their size.\<close>

theorem table_newest:
  assumes "dt_ok t"
  shows "dt_fields (dt_insert f t) = fit field_size (dt_capacity t) (f # dt_fields t) \<and> dt_ok (dt_insert f t) \<and>
    dt_capacity (dt_insert f t) = dt_capacity t \<and>
    (c \<le> USIZE_MAX \<longrightarrow> dt_fields (dt_set_capacity c t) = fit field_size c (dt_fields t) \<and>
      dt_ok (dt_set_capacity c t) \<and> dt_capacity (dt_set_capacity c t) = c)"
  using assms by (simp add: dynamic.ins_contents dynamic.ins_ok dynamic.ins_capacity dynamic.resize_contents
      dynamic.resize_ok dynamic.resize_capacity)

theorem table_newest_witness:
  "dt_fields (dt_insert (header_new [97] [98]) (dt_new 40)) = [header_new [97] [98]]"
proof -
  have "dt_ok (dt_new 40)" by (simp add: dt_new_ok USIZE_MAX_def)
  from table_newest [OF this] show ?thesis
    by (simp add: dt_new_ok field_size_def header_new_def text_from_str_of text_len_of OVERHEAD_def)
qed

text \<open>C9: a decoder stays well-formed on any input, with a table no larger than the ceiling it
  advertised, and the fields it answers are well-formed and together within the size it accepts.\<close>

theorem hpack_decoder_safe:
  assumes "decoder_ok de" "hpack_decode de block = (de', r)"
  shows "decoder_ok de' \<and> dt_size (de_table de') \<le> de_max_capacity de \<and>
    (case r of Inl e \<Rightarrow> True
     | Inr fs \<Rightarrow> weigh field_size fs \<le> de_max_decoded_size de \<and> list_all texts_ok fs)"
proof -
  have "decoder_ok de' \<and> de_max_capacity de' = de_max_capacity de \<and>
      (\<forall>fs. r = Inr fs \<longrightarrow> weigh field_size fs \<le> de_max_decoded_size de \<and> (\<forall>f\<in>set fs. texts_ok f))"
    using hpack_loop_ok [OF assms(2) [unfolded hpack_decode_def] assms(1)] by simp
  then show ?thesis by (auto simp: decoder_ok_def dt_ok_def list_all_iff split: sum.split)
qed

theorem hpack_decoder_safe_witness: "decoder_ok (fst (hpack_decode decoder_new [0xbf]))"
proof -
  have "decoder_ok decoder_new"
    by (simp add: decoder_ok_def decoder_new_def dt_new_ok DEFAULT_CAPACITY_def USIZE_MAX_def)
  from hpack_decoder_safe [OF this surjective_pairing] show ?thesis by simp
qed

text \<open>An index the tables do not hold, zero included, a capacity above the advertised ceiling and a
  field past the accepted size each end the block with their own error.\<close>

lemma hpack_refusals:
  "(hpack_resolve de index = Inl (IndexOutOfRange index)) = (index = 0 \<or> length (indexed (de_table de)) < unat index) \<and>
   (de_max_capacity de < unat c \<longrightarrow>
      hpack_decode de (int_encode c 5 0x20 @ rest) = (de, Inl InvalidCapacityUpdate)) \<and>
   (0 < unat i \<and> unat i \<le> length (indexed (de_table de)) \<and>
    de_max_decoded_size de < field_size (indexed (de_table de) ! (unat i - 1)) \<longrightarrow>
      hpack_decode de (int_encode i 7 0x80 @ rest) = (de, Inl DecodedSizeExceeded))"
proof (intro conjI impI)
  show "(hpack_resolve de index = Inl (IndexOutOfRange index)) = (index = 0 \<or> length (indexed (de_table de)) < unat index)"
    by (simp add: resolve_spec)
next
  assume c: "de_max_capacity de < unat c"
  obtain o1 os where o1: "int_encode c 5 0x20 = o1 # os" by (metis int_encode_nonempty list.exhaust)
  have "hpack_step de (int_encode c 5 0x20 @ rest) (hd (int_encode c 5 0x20)) = (de, Inl InvalidCapacityUpdate)"
    unfolding hpack_step_def flag_tests using int_encode_heads(4-6) c by (simp add: int_decode_encode representation_flags)
  then show "hpack_decode de (int_encode c 5 0x20 @ rest) = (de, Inl InvalidCapacityUpdate)"
    by (simp add: hpack_decode_def o1)
next
  assume i: "0 < unat i \<and> unat i \<le> length (indexed (de_table de)) \<and>
    de_max_decoded_size de < field_size (indexed (de_table de) ! (unat i - 1))"
  obtain o1 os where o1: "int_encode i 7 0x80 = o1 # os" by (metis int_encode_nonempty list.exhaust)
  have "hpack_resolve de i = Inr (indexed (de_table de) ! (unat i - 1))"
    using i by (auto simp: resolve_spec)
  then have "hpack_step de (int_encode i 7 0x80 @ rest) (hd (int_encode i 7 0x80))
      = (de, Inr (length (int_encode i 7 0x80), Some (indexed (de_table de) ! (unat i - 1))))"
    unfolding hpack_step_def flag_tests using int_encode_heads(1) by (simp add: int_decode_encode representation_flags)
  then show "hpack_decode de (int_encode i 7 0x80 @ rest) = (de, Inl DecodedSizeExceeded)"
    using i by (simp add: hpack_decode_def o1)
qed

lemma hpack_refusals_witness:
  "hpack_decode decoder_new (int_encode 5000 5 0x20) = (decoder_new, Inl InvalidCapacityUpdate)"
proof -
  have "de_max_capacity decoder_new < unat (5000 :: u64)" by (simp add: decoder_new_def DEFAULT_CAPACITY_def)
  then show ?thesis using hpack_refusals [of decoder_new 0 5000 "[]" 0] by simp
qed

text \<open>Whatever a block holds, the sensitive fields of the table are among those it held before.\<close>

lemma encode_field_sensitive:
  assumes "dt_ok (en_table en)" "hpack_encode_field en f = (en', out)"
  shows "dt_ok (en_table en') \<and> (\<forall>g\<in>set (dt_fields (en_table en')). sensitive g \<longrightarrow> g \<in> set (dt_fields (en_table en)))"
proof -
  have "en' = en \<or> \<not> sensitive f \<and> en' = en\<lparr> en_table := dt_insert f (en_table en) \<rparr>"
    using assms(2) by (auto simp: hpack_encode_field_def Let_def split: option.splits bool.splits if_splits)
  then show ?thesis using assms(1) dynamic.ins_ok [OF assms(1)] dynamic.ins_elem [OF assms(1), of f] by auto
qed

lemma encode_fields_sensitive:
  assumes "dt_ok (en_table en)" "hpack_encode_fields en fs = (en', out)"
  shows "\<forall>g\<in>set (dt_fields (en_table en')). sensitive g \<longrightarrow> g \<in> set (dt_fields (en_table en))"
  using assms
proof (induction fs arbitrary: en out)
  case (Cons f fs)
  obtain en1 out1 where one: "hpack_encode_field en f = (en1, out1)" by fastforce
  obtain out2 where "hpack_encode_fields en1 fs = (en', out2)" using Cons(3) one by (auto simp: Let_def split: prod.splits)
  then show ?case using Cons(1) encode_field_sensitive [OF Cons(2) one] by blast
qed simp

text \<open>C32: a sensitive field enters no table. Where the index space holds it whole already it is written
  as the index of such an entry, and everywhere else in the form that asks nobody to index it; and no
  block, whatever is in it, brings a sensitive field to the table.\<close>

theorem sensitive_never_indexed:
  assumes "dt_ok (en_table en)" "list_all field_ok (dt_fields (en_table en))" "field_ok f" "sensitive f"
  shows "fst (hpack_encode_field en f) = en \<and>
    (if f \<in> set (indexed (en_table en))
     then \<exists>i. 0 < i \<and> i \<le> length (indexed (en_table en)) \<and> indexed (en_table en) ! (i - 1) = f \<and>
       snd (hpack_encode_field en f) = int_encode (word_of_nat i) 7 0x80
     else drop_bit 4 (hd (snd (hpack_encode_field en f))) = 1) \<and>
    (\<forall>fs. \<forall>g\<in>set (dt_fields (en_table (fst (hpack_encode en fs)))). sensitive g \<longrightarrow> g \<in> set (dt_fields (en_table en)))"
proof -
  have ok: "\<forall>g\<in>set (dt_fields (en_table en)). field_ok g" using assms(2) by (simp add: list_all_iff)
  have head: "drop_bit 4 b = 1 \<longleftrightarrow> \<not> bit b 7 \<and> \<not> bit b 6 \<and> \<not> bit b 5 \<and> bit b 4" for b :: octet
    by (rule octet_all) code_simp
  have four: "bit (hd (int_encode i 4 0x10)) 4" for i
    using int_encode_head [OF representation_flags(4), of 4 i] by (simp add: bit_simps)
  note sound = reference_sound [OF assms(3,1) ok]
  have "drop_bit 4 (hd (snd (hpack_encode_field en f))) = 1" if "f \<notin> set (indexed (en_table en))"
    using assms(4) sound [of _ True] that int_encode_heads(7-9) four
    by (auto simp: hpack_encode_field_def Let_def head split: option.splits bool.splits)
  moreover have "\<exists>i. 0 < i \<and> i \<le> length (indexed (en_table en)) \<and> indexed (en_table en) ! (i - 1) = f \<and>
      snd (hpack_encode_field en f) = int_encode (word_of_nat i) 7 0x80" if "f \<in> set (indexed (en_table en))"
  proof -
    note whole = reference_exact [OF assms(3,1) ok that]
    obtain i where i: "hpack_reference en f = Some (i, True)" by (rule whole)
    then show ?thesis using sound [OF i] by (intro exI [of _ i]) (simp add: hpack_encode_field_def)
  qed
  moreover have "fst (hpack_encode_field en f) = en"
    using assms(4) by (auto simp: hpack_encode_field_def Let_def split: option.splits bool.splits)
  moreover have "\<forall>g\<in>set (dt_fields (en_table (fst (hpack_encode en fs)))). sensitive g \<longrightarrow> g \<in> set (dt_fields (en_table en))" for fs
    using encode_fields_sensitive [of "en\<lparr> en_pending := None \<rparr>" fs] assms(1)
    by (auto simp: hpack_encode_def split: prod.split)
  ultimately show ?thesis by (cases "f \<in> set (indexed (en_table en))"; intro conjI allI; simp only: if_True if_False simp_thms)
qed

theorem sensitive_never_indexed_witness:
  "fst (hpack_encode_field encoder_new (header_new (ascii ''cookie'') (ascii ''a=b''))) = encoder_new"
proof -
  let ?f = "header_new (ascii ''cookie'') (ascii ''a=b'')"
  have "dt_ok (en_table encoder_new)" "dt_fields (en_table encoder_new) = []"
    by (simp_all add: encoder_new_def dt_new_ok DEFAULT_CAPACITY_def USIZE_MAX_def)
  moreover have "is_utf8 (ascii ''cookie'')" "is_utf8 (ascii ''a=b'')" by code_simp+
  then have "field_ok ?f" by (simp add: field_ok_def header_new_def text_from_str_of)
  moreover have "sensitive ?f" by (simp add: sensitive_spec header_new_def text_from_str_of SENSITIVE_def)
  ultimately show ?thesis using sensitive_never_indexed [of encoder_new ?f] by simp
qed

end
