(* ===== verification/Qpack.thy ===== *)
theory Qpack
  imports Hpack
begin

section \<open>QPACK (src/src/helpers/qpack.rs)\<close>

text \<open>
  The tables, the instructions of both streams, the prefix of a field section, the encoder and the
  decoder. Absolute indices are 64-bit words and wrap where the code adds without a check, as a
  release build does. An operation that can fail after having changed its object returns the object
  beside its result. Scratch buffers and idle capacities change no octets and are left out.
\<close>

subsection \<open>The static table\<close>

definition QPACK_TABLE :: "(string \<times> string) list" where
  "QPACK_TABLE =
    [('':authority'', ''''), ('':path'', ''/''),
     (''age'', ''0''), (''content-disposition'', ''''),
     (''content-length'', ''0''), (''cookie'', ''''),
     (''date'', ''''), (''etag'', ''''),
     (''if-modified-since'', ''''), (''if-none-match'', ''''),
     (''last-modified'', ''''), (''link'', ''''),
     (''location'', ''''), (''referer'', ''''),
     (''set-cookie'', ''''), ('':method'', ''CONNECT''),
     ('':method'', ''DELETE''), ('':method'', ''GET''),
     ('':method'', ''HEAD''), ('':method'', ''OPTIONS''),
     ('':method'', ''POST''), ('':method'', ''PUT''),
     ('':scheme'', ''http''), ('':scheme'', ''https''),
     ('':status'', ''103''), ('':status'', ''200''),
     ('':status'', ''304''), ('':status'', ''404''),
     ('':status'', ''503''), (''accept'', ''*/*''),
     (''accept'', ''application/dns-message''), (''accept-encoding'', ''gzip, deflate, br''),
     (''accept-ranges'', ''bytes''), (''access-control-allow-headers'', ''cache-control''),
     (''access-control-allow-headers'', ''content-type''), (''access-control-allow-origin'', ''*''),
     (''cache-control'', ''max-age=0''), (''cache-control'', ''max-age=2592000''),
     (''cache-control'', ''max-age=604800''), (''cache-control'', ''no-cache''),
     (''cache-control'', ''no-store''), (''cache-control'', ''public, max-age=31536000''),
     (''content-encoding'', ''br''), (''content-encoding'', ''gzip''),
     (''content-type'', ''application/dns-message''), (''content-type'', ''application/javascript''),
     (''content-type'', ''application/json''), (''content-type'', ''application/x-www-form-urlencoded''),
     (''content-type'', ''image/gif''), (''content-type'', ''image/jpeg''),
     (''content-type'', ''image/png''), (''content-type'', ''text/css''),
     (''content-type'', ''text/html; charset=utf-8''), (''content-type'', ''text/plain''),
     (''content-type'', ''text/plain;charset=utf-8''), (''range'', ''bytes=0-''),
     (''strict-transport-security'', ''max-age=31536000''), (''strict-transport-security'', ''max-age=31536000; includesubdomains''),
     (''strict-transport-security'', ''max-age=31536000; includesubdomains; preload''), (''vary'', ''accept-encoding''),
     (''vary'', ''origin''), (''x-content-type-options'', ''nosniff''),
     (''x-xss-protection'', ''1; mode=block''), ('':status'', ''100''),
     ('':status'', ''204''), ('':status'', ''206''),
     ('':status'', ''302''), ('':status'', ''400''),
     ('':status'', ''403''), ('':status'', ''421''),
     ('':status'', ''425''), ('':status'', ''500''),
     (''accept-language'', ''''), (''access-control-allow-credentials'', ''FALSE''),
     (''access-control-allow-credentials'', ''TRUE''), (''access-control-allow-headers'', ''*''),
     (''access-control-allow-methods'', ''get''), (''access-control-allow-methods'', ''get, post, options''),
     (''access-control-allow-methods'', ''options''), (''access-control-expose-headers'', ''content-length''),
     (''access-control-request-headers'', ''content-type''), (''access-control-request-method'', ''get''),
     (''access-control-request-method'', ''post''), (''alt-svc'', ''clear''),
     (''authorization'', ''''), (''content-security-policy'', ''script-src 'none'; object-src 'none'; base-uri 'none'' @ [CHR 0x27]),
     (''early-data'', ''1''), (''expect-ct'', ''''),
     (''forwarded'', ''''), (''if-range'', ''''),
     (''origin'', ''''), (''purpose'', ''prefetch''),
     (''server'', ''''), (''timing-allow-origin'', ''*''),
     (''upgrade-insecure-requests'', ''1''), (''user-agent'', ''''),
     (''x-forwarded-for'', ''''), (''x-frame-options'', ''deny''),
     (''x-frame-options'', ''sameorigin'')]"

definition qstatic_entries :: "header_field list" where
  "qstatic_entries = map (\<lambda>(name, value). header_new (ascii name) (ascii value)) QPACK_TABLE"

definition qstatic_reverse :: static_index where
  "qstatic_reverse = static_index_new (map octets_of qstatic_entries) 0"

definition qstatic_find :: "header_field \<Rightarrow> (u64 \<times> bool) option" where
  "qstatic_find f =
     (case static_lookup qstatic_reverse (text_bytes (hf_name f)) (text_bytes (hf_value f)) of
        (_, Some index) \<Rightarrow> Some (word_of_nat index, True)
      | (Some index, None) \<Rightarrow> Some (word_of_nat index, False)
      | (None, None) \<Rightarrow> None)"

subsection \<open>The dynamic table\<close>

record qtable =
  qt_entries :: "entry list"
  qt_size :: nat
  qt_capacity :: nat
  qt_inserted :: u64

definition Q_DEFAULT_CAPACITY :: nat where "Q_DEFAULT_CAPACITY = 0"

definition qt_new :: "nat \<Rightarrow> qtable" where
  "qt_new capacity = \<lparr> qt_entries = [], qt_size = 0, qt_capacity = capacity, qt_inserted = 0 \<rparr>"

text \<open>The loop of \<open>insert\<close> and \<open>set_capacity\<close>: entries leave from the back until \<open>need\<close> more octets fit.\<close>

function qt_evict :: "nat \<Rightarrow> qtable \<Rightarrow> qtable" where
  "qt_evict need t =
     (if qt_capacity t < qt_size t + need \<and> qt_entries t \<noteq> [] then
        qt_evict need (t\<lparr> qt_entries := butlast (qt_entries t), qt_size := qt_size t - entry_size (last (qt_entries t)) \<rparr>)
      else t)"
  by pat_completeness auto
termination by (relation "measure (\<lambda>(need, t). length (qt_entries t))") auto

declare qt_evict.simps [simp del]

definition qt_insert :: "header_field \<Rightarrow> qtable \<Rightarrow> qtable \<times> u64" where
  "qt_insert f t =
     (let t = qt_evict (field_size f) t;
          t = t\<lparr> qt_size := qt_size t + field_size f, qt_entries := entry_of f # qt_entries t, qt_inserted := qt_inserted t + 1 \<rparr>
      in (t, qt_inserted t - 1))"

definition qt_fits :: "qtable \<Rightarrow> header_field \<Rightarrow> bool" where
  "qt_fits t f \<longleftrightarrow> field_size f \<le> qt_capacity t"

definition qt_oldest :: "qtable \<Rightarrow> u64" where
  "qt_oldest t = qt_inserted t - word_of_nat (length (qt_entries t))"

text \<open>The walk from the far end; \<open>None\<close> is the early return of \<open>false\<close>.\<close>

fun admits_walk :: "nat \<Rightarrow> nat \<Rightarrow> u64 \<Rightarrow> u64 \<Rightarrow> nat \<Rightarrow> entry list \<Rightarrow> nat option" where
  "admits_walk capacity need floor absolute held [] = Some held"
| "admits_walk capacity need floor absolute held (e # es) =
     (if held + need \<le> capacity then Some held
      else if floor \<le> absolute then None
      else admits_walk capacity need floor (absolute + 1) (held - entry_size e) es)"

definition qt_admits :: "qtable \<Rightarrow> header_field \<Rightarrow> u64 \<Rightarrow> bool" where
  "qt_admits t f floor \<longleftrightarrow>
     qt_fits t f \<and>
     (case admits_walk (qt_capacity t) (field_size f) floor (qt_oldest t) (qt_size t) (rev (qt_entries t)) of
        None \<Rightarrow> False
      | Some held \<Rightarrow> held + field_size f \<le> qt_capacity t)"

definition word_checked_sub :: "u64 \<Rightarrow> u64 \<Rightarrow> u64 option" where
  "word_checked_sub a b = (if b \<le> a then Some (a - b) else None)"

definition word_saturating_sub :: "u64 \<Rightarrow> u64 \<Rightarrow> u64" where
  "word_saturating_sub a b = (if b \<le> a then a - b else 0)"

definition U64_MAX :: u64 where "U64_MAX = 0xffffffffffffffff"

definition word_saturating_add :: "u64 \<Rightarrow> u64 \<Rightarrow> u64" where
  "word_saturating_add a b = (case checked_add a b of Some c \<Rightarrow> c | None \<Rightarrow> U64_MAX)"

definition qt_get :: "qtable \<Rightarrow> u64 \<Rightarrow> header_field option" where
  "qt_get t absolute =
     Option.bind (word_checked_sub (qt_inserted t) (absolute + 1)) (\<lambda>offset.
       map_option en_field (get_at (qt_entries t) (unat offset)))"

definition qt_set_capacity :: "nat \<Rightarrow> qtable \<Rightarrow> qtable" where
  "qt_set_capacity capacity t = qt_evict 0 (t\<lparr> qt_capacity := capacity \<rparr>)"

definition below_count :: "qtable \<Rightarrow> u64 option \<Rightarrow> u64 option" where
  "below_count t absolute = Option.bind absolute (\<lambda>absolute. if absolute < qt_inserted t then Some absolute else None)"

definition qt_relative :: "qtable \<Rightarrow> u64 \<Rightarrow> u64 option" where
  "qt_relative t index = word_checked_sub (qt_inserted t) (index + 1)"

definition qt_indexed :: "qtable \<Rightarrow> u64 \<Rightarrow> u64 \<Rightarrow> u64 option" where
  "qt_indexed t base index = below_count t (word_checked_sub base (index + 1))"

definition qt_post_base :: "qtable \<Rightarrow> u64 \<Rightarrow> u64 \<Rightarrow> u64 option" where
  "qt_post_base t base index = below_count t (checked_add base index)"

text \<open>The walks of \<open>probe\<close> and \<open>find\<close>, newest entry first.\<close>

fun probe_walk :: "u64 \<Rightarrow> u64 \<Rightarrow> header_field \<Rightarrow> u64 \<Rightarrow> u64 option \<Rightarrow> bool \<Rightarrow> nat \<Rightarrow> entry list \<Rightarrow> (u64 \<times> bool) option \<times> bool" where
  "probe_walk inserted mark f below name_only anywhere offset [] = (map_option (\<lambda>a. (a, False)) name_only, anywhere)"
| "probe_walk inserted mark f below name_only anywhere offset (e # es) =
     (if \<not> entry_named e mark f then probe_walk inserted mark f below name_only anywhere (offset + 1) es
      else case word_checked_sub inserted (word_of_nat offset + 1) of
        None \<Rightarrow> (map_option (\<lambda>a. (a, False)) name_only, anywhere)
      | Some absolute \<Rightarrow>
          if entry_valued e f then
            if absolute < below then (Some (absolute, True), True)
            else probe_walk inserted mark f below name_only True (offset + 1) es
          else if absolute < below then
            probe_walk inserted mark f below (case name_only of None \<Rightarrow> Some absolute | Some a \<Rightarrow> Some a) anywhere (offset + 1) es
          else probe_walk inserted mark f below name_only anywhere (offset + 1) es)"

definition qt_probe :: "qtable \<Rightarrow> header_field \<Rightarrow> u64 \<Rightarrow> (u64 \<times> bool) option \<times> bool" where
  "qt_probe t f below = probe_walk (qt_inserted t) (mark_of (text_bytes (hf_name f))) f below None False 0 (qt_entries t)"

fun find_walk :: "u64 \<Rightarrow> u64 \<Rightarrow> header_field \<Rightarrow> u64 option \<Rightarrow> nat \<Rightarrow> entry list \<Rightarrow> (u64 \<times> bool) option" where
  "find_walk inserted mark f name_only offset [] = map_option (\<lambda>a. (a, False)) name_only"
| "find_walk inserted mark f name_only offset (e # es) =
     (if \<not> entry_named e mark f then find_walk inserted mark f name_only (offset + 1) es
      else case word_checked_sub inserted (word_of_nat offset + 1) of
        None \<Rightarrow> map_option (\<lambda>a. (a, False)) name_only
      | Some absolute \<Rightarrow>
          if entry_valued e f then Some (absolute, True)
          else find_walk inserted mark f (case name_only of None \<Rightarrow> Some absolute | Some a \<Rightarrow> Some a) (offset + 1) es)"

definition qt_find :: "qtable \<Rightarrow> header_field \<Rightarrow> (u64 \<times> bool) option" where
  "qt_find t f = find_walk (qt_inserted t) (mark_of (text_bytes (hf_name f))) f None 0 (qt_entries t)"

subsection \<open>Errors\<close>

datatype qpack_error =
    QIndexOutOfRange u64
  | QIntegerOverflow
  | QInvalidCapacityUpdate
  | QInvalidInsertCount
  | QInvalidBase
  | QEntryTooLarge
  | QInstructionTooLarge
  | QTooManyBlockedStreams
  | QIncomplete
  | QBlocked
  | QHuffman huff_error
  | QDecodedSizeExceeded

fun qpack_error_of :: "fields_error \<Rightarrow> qpack_error" where
  "qpack_error_of fields_error.IntegerOverflow = QIntegerOverflow"
| "qpack_error_of fields_error.Incomplete = QIncomplete"
| "qpack_error_of (fields_error.Huffman e) = QHuffman e"

definition q_int :: "bytes \<Rightarrow> nat \<Rightarrow> qpack_error + nat \<times> u64" where
  "q_int input prefix_bits = map_err qpack_error_of (int_decode input prefix_bits)"

definition q_literal :: "bytes \<Rightarrow> nat \<Rightarrow> qpack_error + nat \<times> bool \<times> bytes" where
  "q_literal input prefix_bits = map_err qpack_error_of (literal_at input prefix_bits)"

subsection \<open>The instructions of the two streams\<close>

datatype encoder_instruction =
    SetDynamicTableCapacity nat
  | InsertWithNameReference bool u64 bytes
  | InsertWithLiteralName bytes bytes
  | Duplicate u64

definition bit_octet :: "bool \<Rightarrow> nat \<Rightarrow> octet" where
  "bit_octet b n = push_bit n (of_bool b)"

fun ei_encode :: "encoder_instruction \<Rightarrow> bytes" where
  "ei_encode (SetDynamicTableCapacity capacity) = int_encode (word_of_nat capacity) 5 0x20"
| "ei_encode (InsertWithNameReference from_static name_index v) =
     int_encode name_index 6 (0x80 OR bit_octet from_static 6) @ literal_encode_shorter v 7 0"
| "ei_encode (InsertWithLiteralName name v) = literal_encode_shorter name 5 0x40 @ literal_encode_shorter v 7 0"
| "ei_encode (Duplicate index) = int_encode index 5 0"

definition ei_decode :: "bytes \<Rightarrow> qpack_error + nat \<times> encoder_instruction" where
  "ei_decode input =
     res_bind (ok_or QIncomplete (get_at input 0)) (\<lambda>first.
       if first AND 0x80 \<noteq> 0 then
         res_bind (q_int input 6) (\<lambda>(consumed, name_index).
         res_bind (q_literal (drop consumed input) 7) (\<lambda>(taken, _, v).
           Inr (consumed + taken, InsertWithNameReference (first AND 0x40 \<noteq> 0) name_index v)))
       else if first AND 0x40 \<noteq> 0 then
         res_bind (q_literal input 5) (\<lambda>(consumed, _, name).
         res_bind (q_literal (drop consumed input) 7) (\<lambda>(taken, _, v).
           Inr (consumed + taken, InsertWithLiteralName name v)))
       else if first AND 0x20 \<noteq> 0 then
         res_bind (q_int input 5) (\<lambda>(consumed, capacity). Inr (consumed, SetDynamicTableCapacity (unat capacity)))
       else res_bind (q_int input 5) (\<lambda>(consumed, index). Inr (consumed, Duplicate index)))"

datatype decoder_instruction =
    SectionAcknowledgment u64
  | StreamCancellation u64
  | InsertCountIncrement u64

fun di_encode :: "decoder_instruction \<Rightarrow> bytes" where
  "di_encode (SectionAcknowledgment sid) = int_encode sid 7 0x80"
| "di_encode (StreamCancellation sid) = int_encode sid 6 0x40"
| "di_encode (InsertCountIncrement increment) = int_encode increment 6 0"

definition di_decode :: "bytes \<Rightarrow> qpack_error + nat \<times> decoder_instruction" where
  "di_decode input =
     res_bind (ok_or QIncomplete (get_at input 0)) (\<lambda>first.
       if first AND 0x80 \<noteq> 0 then
         res_bind (q_int input 7) (\<lambda>(consumed, sid). Inr (consumed, SectionAcknowledgment sid))
       else if first AND 0x40 \<noteq> 0 then
         res_bind (q_int input 6) (\<lambda>(consumed, sid). Inr (consumed, StreamCancellation sid))
       else res_bind (q_int input 6) (\<lambda>(consumed, increment). Inr (consumed, InsertCountIncrement increment)))"

subsection \<open>The prefix of a field section\<close>

definition prefix_max_entries :: "nat \<Rightarrow> u64" where
  "prefix_max_entries max_capacity = word_of_nat (max_capacity div OVERHEAD)"

definition prefix_relative :: "u64 \<Rightarrow> u64 \<Rightarrow> u64" where
  "prefix_relative base absolute = word_saturating_sub (word_saturating_sub base absolute) 1"

definition encode_insert_count :: "u64 \<Rightarrow> nat \<Rightarrow> u64" where
  "encode_insert_count required max_capacity =
     (let full_range = 2 * prefix_max_entries max_capacity
      in if required = 0 \<or> full_range = 0 then 0 else required mod full_range + 1)"

definition decode_insert_count :: "u64 \<Rightarrow> u64 \<Rightarrow> nat \<Rightarrow> qpack_error + u64" where
  "decode_insert_count encoded inserted max_capacity =
     (if encoded = 0 then Inr 0
      else let full_range = 2 * prefix_max_entries max_capacity
        in if full_range = 0 \<or> full_range < encoded then Inl QInvalidInsertCount
           else let max_value = word_saturating_add inserted (prefix_max_entries max_capacity);
                    max_wrapped = max_value div full_range * full_range;
                    required = word_saturating_sub (word_saturating_add max_wrapped encoded) 1
             in if max_value < required \<and> required \<le> full_range then Inl QInvalidInsertCount
                else let required = (if max_value < required then required - full_range else required)
                  in if required = 0 then Inl QInvalidInsertCount else Inr required)"

subsection \<open>The encoder\<close>

record section_sent =
  sec_stream :: u64
  sec_required :: u64
  sec_floor :: u64

record qencoder =
  qe_table :: qtable
  qe_known :: u64
  qe_max_capacity :: nat
  qe_capacity_limit :: nat
  qe_max_outstanding :: nat
  qe_max_instruction :: nat
  qe_sections :: "section_sent list"
  qe_floor :: u64
  qe_out :: bytes
  qe_recv :: bytes

text \<open>A reference: whether into the static table, the index, and whether the value matched too.\<close>

type_synonym qreference = "bool \<times> u64 \<times> bool"

definition Q_CAPACITY_LIMIT :: nat where "Q_CAPACITY_LIMIT = 4096"
definition Q_MAX_OUTSTANDING :: nat where "Q_MAX_OUTSTANDING = 512"
definition Q_MAX_INSTRUCTION :: nat where "Q_MAX_INSTRUCTION = 64 * 1024"

definition qencoder_new :: qencoder where
  "qencoder_new = \<lparr> qe_table = qt_new 0, qe_known = 0, qe_max_capacity = Q_DEFAULT_CAPACITY,
     qe_capacity_limit = Q_CAPACITY_LIMIT, qe_max_outstanding = Q_MAX_OUTSTANDING, qe_max_instruction = Q_MAX_INSTRUCTION,
     qe_sections = [], qe_floor = U64_MAX, qe_out = [], qe_recv = [] \<rparr>"

definition qe_set_max_outstanding :: "nat \<Rightarrow> qencoder \<Rightarrow> qencoder" where
  "qe_set_max_outstanding n en = en\<lparr> qe_max_outstanding := n \<rparr>"

definition qe_set_max_instruction :: "nat \<Rightarrow> qencoder \<Rightarrow> qencoder" where
  "qe_set_max_instruction n en = en\<lparr> qe_max_instruction := n \<rparr>"

definition qe_queue :: "encoder_instruction list \<Rightarrow> qencoder \<Rightarrow> qencoder" where
  "qe_queue instructions en = en\<lparr> qe_out := qe_out en @ concat (map ei_encode instructions) \<rparr>"

definition qe_take_stream :: "qencoder \<Rightarrow> qencoder \<times> bytes" where
  "qe_take_stream en = (en\<lparr> qe_out := [] \<rparr>, qe_out en)"

definition qe_reclaim_stream :: "bytes \<Rightarrow> qencoder \<Rightarrow> qencoder" where
  "qe_reclaim_stream buffer en = en\<lparr> qe_out := [] @ qe_out en \<rparr>"

definition qe_cancel :: "u64 \<Rightarrow> qencoder \<Rightarrow> qencoder" where
  "qe_cancel sid en = en\<lparr> qe_sections := filter (\<lambda>s. sec_stream s \<noteq> sid) (qe_sections en) \<rparr>"

definition on_decoder_instruction :: "decoder_instruction \<Rightarrow> qencoder \<Rightarrow> qencoder" where
  "on_decoder_instruction instruction en =
     (case instruction of
        SectionAcknowledgment sid \<Rightarrow>
          (case position (\<lambda>s. sec_stream s = sid) (qe_sections en) of
             None \<Rightarrow> en
           | Some offset \<Rightarrow>
               en\<lparr> qe_sections := take offset (qe_sections en) @ drop (offset + 1) (qe_sections en),
                   qe_known := max (qe_known en) (sec_required (qe_sections en ! offset)) \<rparr>)
      | InsertCountIncrement increment \<Rightarrow> en\<lparr> qe_known := word_saturating_add (qe_known en) increment \<rparr>
      | StreamCancellation sid \<Rightarrow> qe_cancel sid en)"

lemma q_int_bound: "q_int input n = Inr (consumed, v) \<Longrightarrow> 0 < consumed \<and> consumed \<le> length input"
  using int_decode_value [of input n consumed v] by (auto simp: q_int_def)

lemma q_literal_bound: "q_literal input n = Inr (consumed, plain, v) \<Longrightarrow> 0 < consumed \<and> consumed \<le> length input"
  using literal_at_bound [of input n consumed plain v] by (auto simp: q_literal_def)

lemma di_decode_bound: "di_decode input = Inr (consumed, i) \<Longrightarrow> 0 < consumed \<and> consumed \<le> length input"
  by (auto simp: di_decode_def res_bind_Inr_iff dest: q_int_bound split: if_splits)

lemma ei_decode_bound: "ei_decode input = Inr (consumed, i) \<Longrightarrow> 0 < consumed \<and> consumed \<le> length input"
  by (auto simp: ei_decode_def res_bind_Inr_iff dest!: q_int_bound q_literal_bound split: if_splits)

text \<open>The instructions buffered so far are taken off one by one until one is not all there.\<close>

function decoder_stream_loop :: "bytes \<Rightarrow> qencoder \<Rightarrow> qencoder \<times> (qpack_error + unit)" where
  "decoder_stream_loop recv en =
     (case di_decode recv of
        Inr (consumed, instruction) \<Rightarrow>
          (let recv = drop consumed recv
           in decoder_stream_loop recv (on_decoder_instruction instruction en))
      | Inl e \<Rightarrow> (en\<lparr> qe_recv := recv \<rparr>, if e = QIncomplete then Inr () else Inl e))"
  by pat_completeness auto
termination by (relation "measure (\<lambda>(recv, en). length recv)") (auto dest!: di_decode_bound)

declare decoder_stream_loop.simps [simp del]

definition on_decoder_stream :: "bytes \<Rightarrow> qencoder \<Rightarrow> qencoder \<times> (qpack_error + unit)" where
  "on_decoder_stream octets en =
     (let en = en\<lparr> qe_recv := qe_recv en @ octets \<rparr>
      in if qe_max_instruction en < length (qe_recv en) then (en, Inl QInstructionTooLarge)
         else decoder_stream_loop (qe_recv en) en)"

definition qe_referenced :: "qencoder \<Rightarrow> u64" where
  "qe_referenced en =
     min (case map sec_floor (qe_sections en) of [] \<Rightarrow> U64_MAX | f # fs \<Rightarrow> fold min fs f) (qe_floor en)"

definition qe_reference :: "qencoder \<Rightarrow> header_field \<Rightarrow> qreference option" where
  "qe_reference en f =
     (let in_static = qstatic_find f in
      case in_static of
        Some (index, True) \<Rightarrow> Some (True, index, True)
      | _ \<Rightarrow>
          (let in_dynamic = Option.bind (qt_find (qe_table en) f)
                 (\<lambda>(absolute, exact). if absolute < qe_known en then Some (absolute, exact) else None)
           in case in_dynamic of
                Some (absolute, True) \<Rightarrow> Some (False, absolute, True)
              | _ \<Rightarrow> (case in_static of
                    Some (index, _) \<Rightarrow> Some (True, index, False)
                  | None \<Rightarrow> map_option (\<lambda>(absolute, _). (False, absolute, False)) in_dynamic)))"

definition qe_insert :: "header_field \<Rightarrow> qreference option \<Rightarrow> qencoder \<Rightarrow> qencoder \<times> bool" where
  "qe_insert f matched en =
     (if \<not> qt_admits (qe_table en) f (qe_referenced en) then (en, False)
      else let octets = (case matched of
                 Some (from_static, index, _) \<Rightarrow>
                   (let name_index = (if from_static then index
                          else word_saturating_sub (word_saturating_sub (qt_inserted (qe_table en)) index) 1)
                    in int_encode name_index 6 (0x80 OR bit_octet from_static 6)
                         @ literal_encode_shorter (text_bytes (hf_value f)) 7 0)
               | None \<Rightarrow> literal_encode_shorter (text_bytes (hf_name f)) 5 0x40
                         @ literal_encode_shorter (text_bytes (hf_value f)) 7 0)
           in (en\<lparr> qe_out := qe_out en @ octets, qe_table := fst (qt_insert f (qe_table en)) \<rparr>, True))"

definition qe_encode_field :: "header_field \<Rightarrow> qreference option \<Rightarrow> u64 \<Rightarrow> bytes" where
  "qe_encode_field f matched base =
     (let never = sensitive f; v = text_bytes (hf_value f)
      in case matched of
           Some (True, index, True) \<Rightarrow> int_encode index 6 0xc0
         | Some (False, absolute, True) \<Rightarrow> int_encode (prefix_relative base absolute) 6 0x80
         | Some (True, index, False) \<Rightarrow> int_encode index 4 (0x50 OR bit_octet never 5) @ literal_encode_shorter v 7 0
         | Some (False, absolute, False) \<Rightarrow>
             int_encode (prefix_relative base absolute) 4 (0x40 OR bit_octet never 5) @ literal_encode_shorter v 7 0
         | None \<Rightarrow> literal_encode_shorter (text_bytes (hf_name f)) 3 (0x20 OR bit_octet never 4) @ literal_encode_shorter v 7 0)"

text \<open>The reference for one field, and whether an exact copy makes inserting it pointless.\<close>

definition qe_match :: "bool \<Rightarrow> header_field \<Rightarrow> qencoder \<Rightarrow> qreference option \<times> bool" where
  "qe_match tracked f en =
     (let in_static = qstatic_find f
      in case in_static of
           Some (index, True) \<Rightarrow> (Some (True, index, True), True)
         | _ \<Rightarrow>
             if \<not> tracked then (map_option (\<lambda>(index, _). (True, index, False)) in_static, False)
             else let (dynamic, anywhere) = qt_probe (qe_table en) f (qe_known en);
                      matched = (case dynamic of
                          Some (absolute, True) \<Rightarrow> Some (False, absolute, True)
                        | _ \<Rightarrow> (case in_static of
                              Some (index, _) \<Rightarrow> Some (True, index, False)
                            | None \<Rightarrow> map_option (\<lambda>(absolute, _). (False, absolute, False)) dynamic))
               in (matched, anywhere))"

text \<open>One turn of the matching loop: the insert count required so far and the encoder.\<close>

definition qe_match_field :: "bool \<Rightarrow> header_field \<Rightarrow> u64 \<times> qencoder \<Rightarrow> (u64 \<times> qencoder) \<times> qreference option" where
  "qe_match_field tracked f state =
     (case state of (required, en) \<Rightarrow>
        let (matched, indexed) = qe_match tracked f en;
            (required, en) = (case matched of
                Some (False, absolute, _) \<Rightarrow>
                  (max required (word_saturating_add absolute 1), en\<lparr> qe_floor := min (qe_floor en) absolute \<rparr>)
              | _ \<Rightarrow> (required, en));
            en = (if tracked \<and> \<not> indexed \<and> \<not> sensitive f then fst (qe_insert f matched en) else en)
        in ((required, en), matched))"

fun qe_match_fields :: "bool \<Rightarrow> header_field list \<Rightarrow> u64 \<times> qencoder \<Rightarrow> (u64 \<times> qencoder) \<times> qreference option list" where
  "qe_match_fields tracked [] state = (state, [])"
| "qe_match_fields tracked (f # fs) state =
     (let (state, matched) = qe_match_field tracked f state; (state, others) = qe_match_fields tracked fs state
      in (state, matched # others))"

definition qpack_encode :: "u64 \<Rightarrow> header_field list \<Rightarrow> qencoder \<Rightarrow> qencoder \<times> bytes" where
  "qpack_encode sid fs en =
     (let tracked = length (qe_sections en) < qe_max_outstanding en;
          ((required, en), matches) = qe_match_fields tracked fs (0, en\<lparr> qe_floor := U64_MAX \<rparr>);
          out = int_encode (encode_insert_count required (qe_max_capacity en)) 8 0 @ int_encode 0 7 0
            @ concat (map (\<lambda>(f, matched). qe_encode_field f matched required) (zip fs matches));
          en = (if 0 < required
                then en\<lparr> qe_sections := qe_sections en @ [\<lparr> sec_stream = sid, sec_required = required, sec_floor = qe_floor en \<rparr>] \<rparr>
                else en)
      in (en\<lparr> qe_floor := U64_MAX \<rparr>, out))"

definition qe_set_max_capacity :: "nat \<Rightarrow> qencoder \<Rightarrow> qencoder \<times> encoder_instruction option" where
  "qe_set_max_capacity max_capacity en =
     (let en = en\<lparr> qe_max_capacity := max_capacity \<rparr>; capacity = min max_capacity (qe_capacity_limit en)
      in if capacity = qt_capacity (qe_table en) then (en, None)
         else (en\<lparr> qe_table := qt_set_capacity capacity (qe_table en) \<rparr>, Some (SetDynamicTableCapacity capacity)))"

definition qe_set_capacity_limit :: "nat \<Rightarrow> qencoder \<Rightarrow> qencoder \<times> encoder_instruction option" where
  "qe_set_capacity_limit limit en =
     (let en = en\<lparr> qe_capacity_limit := limit \<rparr>; capacity = min (qe_max_capacity en) limit
      in if qt_capacity (qe_table en) \<le> capacity then (en, None)
         else (en\<lparr> qe_table := qt_set_capacity capacity (qe_table en) \<rparr>, Some (SetDynamicTableCapacity capacity)))"

subsection \<open>The decoder\<close>

text \<open>The blocked streams are an association list; the order a hash map answers in is not theirs.\<close>

record qdecoder =
  qd_table :: qtable
  qd_max_capacity :: nat
  qd_max_decoded_size :: nat
  qd_max_instruction :: nat
  qd_max_blocked :: nat
  qd_blocked :: "(u64 \<times> u64) list"
  qd_section :: nat
  qd_out :: bytes
  qd_recv :: bytes

definition Q_MAX_CAPACITY :: nat where "Q_MAX_CAPACITY = 4096"
definition Q_MAX_DECODED_SIZE :: nat where "Q_MAX_DECODED_SIZE = 64 * 1024"
definition Q_MAX_BLOCKED :: nat where "Q_MAX_BLOCKED = 16"

definition qdecoder_new :: qdecoder where
  "qdecoder_new = \<lparr> qd_table = qt_new Q_MAX_CAPACITY, qd_max_capacity = Q_MAX_CAPACITY, qd_max_decoded_size = Q_MAX_DECODED_SIZE,
     qd_max_instruction = Q_MAX_INSTRUCTION, qd_max_blocked = Q_MAX_BLOCKED, qd_blocked = [], qd_section = SECTION_FLOOR,
     qd_out = [], qd_recv = [] \<rparr>"

definition qd_set_max_decoded_size :: "nat \<Rightarrow> qdecoder \<Rightarrow> qdecoder" where
  "qd_set_max_decoded_size n de = de\<lparr> qd_max_decoded_size := n \<rparr>"

definition qd_set_max_instruction :: "nat \<Rightarrow> qdecoder \<Rightarrow> qdecoder" where
  "qd_set_max_instruction n de = de\<lparr> qd_max_instruction := n \<rparr>"

definition qd_set_max_blocked :: "nat \<Rightarrow> qdecoder \<Rightarrow> qdecoder" where
  "qd_set_max_blocked n de = de\<lparr> qd_max_blocked := n \<rparr>"

definition qd_queue :: "decoder_instruction list \<Rightarrow> qdecoder \<Rightarrow> qdecoder" where
  "qd_queue instructions de = de\<lparr> qd_out := qd_out de @ concat (map di_encode instructions) \<rparr>"

definition qd_take_stream :: "qdecoder \<Rightarrow> qdecoder \<times> bytes" where
  "qd_take_stream de = (de\<lparr> qd_out := [] \<rparr>, qd_out de)"

definition qd_unblocked :: "qdecoder \<Rightarrow> u64 list" where
  "qd_unblocked de = map fst (filter (\<lambda>(_, required). required \<le> qt_inserted (qd_table de)) (qd_blocked de))"

definition qd_cancel :: "u64 \<Rightarrow> qdecoder \<Rightarrow> qdecoder" where
  "qd_cancel sid de = de\<lparr> qd_blocked := filter (\<lambda>(s, _). s \<noteq> sid) (qd_blocked de) \<rparr>"

definition qd_entry_relative :: "qdecoder \<Rightarrow> u64 \<Rightarrow> qpack_error + header_field" where
  "qd_entry_relative de index =
     res_bind (ok_or (QIndexOutOfRange index) (qt_relative (qd_table de) index)) (\<lambda>absolute.
       ok_or (QIndexOutOfRange absolute) (qt_get (qd_table de) absolute))"

text \<open>The field an instruction inserts.\<close>

definition qd_inserted_field :: "qdecoder \<Rightarrow> encoder_instruction \<Rightarrow> qpack_error + header_field" where
  "qd_inserted_field de instruction =
     (case instruction of
        InsertWithNameReference from_static name_index v \<Rightarrow>
          res_bind
            (if from_static then ok_or (QIndexOutOfRange name_index) (get_at qstatic_entries (unat name_index))
             else qd_entry_relative de name_index)
            (\<lambda>f. Inr \<lparr> hf_name = hf_name f, hf_value = text_from_utf8_lossy v \<rparr>)
      | InsertWithLiteralName name v \<Rightarrow> Inr \<lparr> hf_name = text_from_utf8_lossy name, hf_value = text_from_utf8_lossy v \<rparr>
      | Duplicate index \<Rightarrow> qd_entry_relative de index
      | SetDynamicTableCapacity capacity \<Rightarrow> Inl QInvalidCapacityUpdate)"

definition on_encoder_instruction :: "encoder_instruction \<Rightarrow> qdecoder \<Rightarrow> qdecoder \<times> (qpack_error + decoder_instruction option)" where
  "on_encoder_instruction instruction de =
     (case instruction of
        SetDynamicTableCapacity capacity \<Rightarrow>
          if qd_max_capacity de < capacity then (de, Inl QInvalidCapacityUpdate)
          else (de\<lparr> qd_table := qt_set_capacity capacity (qd_table de) \<rparr>, Inr None)
      | _ \<Rightarrow>
          (case qd_inserted_field de instruction of
             Inl e \<Rightarrow> (de, Inl e)
           | Inr f \<Rightarrow>
               if \<not> qt_fits (qd_table de) f then (de, Inl QEntryTooLarge)
               else (de\<lparr> qd_table := fst (qt_insert f (qd_table de)) \<rparr>, Inr (Some (InsertCountIncrement 1)))))"

function encoder_stream_loop :: "bytes \<Rightarrow> qdecoder \<Rightarrow> qdecoder \<times> (qpack_error + unit)" where
  "encoder_stream_loop recv de =
     (case ei_decode recv of
        Inr (consumed, instruction) \<Rightarrow>
          (let recv = drop consumed recv
           in case on_encoder_instruction instruction de of
                (de, Inl e) \<Rightarrow> (de\<lparr> qd_recv := recv \<rparr>, Inl e)
              | (de, Inr None) \<Rightarrow> encoder_stream_loop recv de
              | (de, Inr (Some answer)) \<Rightarrow> encoder_stream_loop recv (de\<lparr> qd_out := qd_out de @ di_encode answer \<rparr>))
      | Inl e \<Rightarrow> (de\<lparr> qd_recv := recv \<rparr>, if e = QIncomplete then Inr () else Inl e))"
  by pat_completeness auto
termination by (relation "measure (\<lambda>(recv, de). length recv)") (auto dest!: ei_decode_bound)

declare encoder_stream_loop.simps [simp del]

definition on_encoder_stream :: "bytes \<Rightarrow> qdecoder \<Rightarrow> qdecoder \<times> (qpack_error + unit)" where
  "on_encoder_stream octets de =
     (let de = de\<lparr> qd_recv := qd_recv de @ octets \<rparr>
      in if qd_max_instruction de < length (qd_recv de) then (de, Inl QInstructionTooLarge)
         else encoder_stream_loop (qd_recv de) de)"

definition qd_dynamic :: "qdecoder \<Rightarrow> u64 \<Rightarrow> u64 option \<Rightarrow> qpack_error + header_field" where
  "qd_dynamic de index found =
     res_bind (ok_or (QIndexOutOfRange index) found) (\<lambda>absolute.
       ok_or (QIndexOutOfRange absolute) (qt_get (qd_table de) absolute))"

definition qd_resolve :: "qdecoder \<Rightarrow> bool \<Rightarrow> u64 \<Rightarrow> u64 \<Rightarrow> qpack_error + header_field" where
  "qd_resolve de from_static base index =
     (if from_static then ok_or (QIndexOutOfRange index) (get_at qstatic_entries (unat index))
      else qd_dynamic de index (qt_indexed (qd_table de) base index))"

definition qd_resolve_name :: "qdecoder \<Rightarrow> bool \<Rightarrow> u64 \<Rightarrow> u64 \<Rightarrow> qpack_error + utext" where
  "qd_resolve_name de from_static base index =
     (if from_static then
        res_bind (ok_or (QIndexOutOfRange index) (get_at qstatic_entries (unat index))) (\<lambda>f. Inr (hf_name f))
      else res_bind (qd_dynamic de index (qt_indexed (qd_table de) base index)) (\<lambda>f. Inr (hf_name f)))"

text \<open>One representation off the front of the block.\<close>

definition qd_step :: "qdecoder \<Rightarrow> u64 \<Rightarrow> bytes \<Rightarrow> octet \<Rightarrow> qpack_error + nat \<times> header_field" where
  "qd_step de base rest first =
     (let valued = (\<lambda>consumed name. res_bind (q_literal (drop consumed rest) 7) (\<lambda>(taken, plain, v).
            Inr (consumed + taken, \<lparr> hf_name = name, hf_value = literal_text v plain \<rparr>)))
      in if first AND 0x80 \<noteq> 0 then
           res_bind (q_int rest 6) (\<lambda>(consumed, index).
           res_bind (qd_resolve de (first AND 0x40 \<noteq> 0) base index) (\<lambda>f. Inr (consumed, f)))
         else if first AND 0x40 \<noteq> 0 then
           res_bind (q_int rest 4) (\<lambda>(consumed, index).
           res_bind (qd_resolve_name de (first AND 0x10 \<noteq> 0) base index) (\<lambda>name. valued consumed name))
         else if first AND 0x20 \<noteq> 0 then
           res_bind (q_literal rest 3) (\<lambda>(consumed, plain, name). valued consumed (literal_text name plain))
         else if first AND 0x10 \<noteq> 0 then
           res_bind (q_int rest 4) (\<lambda>(consumed, index).
           res_bind (qd_dynamic de index (qt_post_base (qd_table de) base index)) (\<lambda>f. Inr (consumed, f)))
         else
           res_bind (q_int rest 3) (\<lambda>(consumed, index).
           res_bind (qd_dynamic de index (qt_post_base (qd_table de) base index)) (\<lambda>f. valued consumed (hf_name f))))"

lemma qd_step_bound: "qd_step de base rest first = Inr (consumed, f) \<Longrightarrow> 0 < consumed \<and> consumed \<le> length rest"
  by (auto simp: qd_step_def Let_def res_bind_Inr_iff dest!: q_int_bound q_literal_bound split: if_splits)

function qd_loop :: "qdecoder \<Rightarrow> u64 \<Rightarrow> bytes \<Rightarrow> header_field list \<Rightarrow> nat \<Rightarrow> qpack_error + header_field list" where
  "qd_loop de base [] headers held = Inr headers"
| "qd_loop de base (first # others) headers held =
     (case qd_step de base (first # others) first of
        Inl e \<Rightarrow> Inl e
      | Inr (consumed, f) \<Rightarrow>
          if qd_max_decoded_size de < held + field_size f then Inl QDecodedSizeExceeded
          else qd_loop de base (drop consumed (first # others)) (headers @ [f]) (held + field_size f))"
  by pat_completeness auto
termination
  by (relation "measure (\<lambda>(de, base, rest, headers, held). length rest)") (auto dest!: qd_step_bound)

text \<open>The base of a block, from the sign and the delta behind the insert count.\<close>

definition qd_base :: "u64 \<Rightarrow> bool \<Rightarrow> u64 \<Rightarrow> qpack_error + u64" where
  "qd_base required negative delta =
     (if negative then
        res_bind (ok_or QInvalidBase (checked_add delta 1)) (\<lambda>d. ok_or QInvalidBase (word_checked_sub required d))
      else ok_or QIntegerOverflow (checked_add required delta))"

definition qpack_decode :: "u64 \<Rightarrow> bytes \<Rightarrow> qdecoder \<Rightarrow> qdecoder \<times> (qpack_error + header_field list \<times> decoder_instruction option)" where
  "qpack_decode sid block de =
     (case res_bind (q_int block 8) (\<lambda>(consumed, encoded).
             res_bind (decode_insert_count encoded (qt_inserted (qd_table de)) (qd_max_capacity de)) (\<lambda>required. Inr (consumed, required))) of
        Inl e \<Rightarrow> (de, Inl e)
      | Inr (consumed, required) \<Rightarrow>
          if qt_inserted (qd_table de) < required then
            if sid \<notin> fst ` set (qd_blocked de) \<and> qd_max_blocked de \<le> length (qd_blocked de) then (de, Inl QTooManyBlockedStreams)
            else (de\<lparr> qd_blocked := (sid, required) # filter (\<lambda>(s, _). s \<noteq> sid) (qd_blocked de) \<rparr>, Inl QBlocked)
          else let de = qd_cancel sid de
            in case res_bind (ok_or QIncomplete (get_at block consumed)) (\<lambda>sign.
                      res_bind (q_int (drop consumed block) 7) (\<lambda>(taken, delta).
                      res_bind (qd_base required (sign AND 0x80 \<noteq> 0) delta) (\<lambda>base.
                        qd_loop de base (drop (consumed + taken) block) [] 0))) of
                 Inl e \<Rightarrow> (de, Inl e)
               | Inr headers \<Rightarrow>
                   (de\<lparr> qd_section := length headers \<rparr>,
                    Inr (headers, if 0 < required then Some (SectionAcknowledgment sid) else None)))"

definition qd_set_max_capacity :: "nat \<Rightarrow> qdecoder \<Rightarrow> qdecoder" where
  "qd_set_max_capacity max_capacity de =
     (let de = de\<lparr> qd_max_capacity := max_capacity \<rparr>
      in if max_capacity < qt_capacity (qd_table de)
         then de\<lparr> qd_table := qt_set_capacity max_capacity (qd_table de) \<rparr> else de)"

end
