(* ===== verification/Qpack_Table.thy ===== *)
theory Qpack_Table
  imports Qpack
begin

section \<open>QPACK: the dynamic table by absolute index\<close>

text \<open>
  The table seen from outside is a partial function from absolute indices to fields: an index keeps
  its field until it is evicted, and eviction takes the lowest indices first. The lemmas here say
  what insertion, resizing and the encoder's guard against eviction do to that function, and that a
  search of the table or of the static table answers an index of what was asked for.
\<close>

definition qt_fields :: "qtable \<Rightarrow> header_field list" where
  "qt_fields t = map en_field (qt_entries t)"

definition qt_ok :: "qtable \<Rightarrow> bool" where
  "qt_ok t \<longleftrightarrow> qt_entries t = map entry_of (qt_fields t) \<and> qt_size t = weigh field_size (qt_fields t) \<and>
     qt_size t \<le> qt_capacity t \<and> qt_capacity t \<le> USIZE_MAX \<and> length (qt_fields t) \<le> unat (qt_inserted t)"

definition qt_at :: "qtable \<Rightarrow> nat \<Rightarrow> header_field option" where
  "qt_at t i = (let n = unat (qt_inserted t)
     in if i < n \<and> n - 1 - i < length (qt_fields t) then Some (qt_fields t ! (n - 1 - i)) else None)"

lemma qt_evict_spec:
  assumes "qt_entries t = map entry_of fs" "qt_size t = weigh field_size fs"
  shows "qt_evict need t =
    t\<lparr> qt_entries := map entry_of (if need \<le> qt_capacity t then fit field_size (qt_capacity t - need) fs else []),
       qt_size := weigh field_size (if need \<le> qt_capacity t then fit field_size (qt_capacity t - need) fs else []) \<rparr>"
  using assms
proof (induction need t arbitrary: fs rule: qt_evict.induct)
  case (1 need t)
  show ?case
  proof (cases "qt_capacity t < qt_size t + need")
    case True
    show ?thesis
    proof (cases fs rule: rev_cases)
      case Nil
      then have "qt_evict need t = t" using 1(2) by (subst qt_evict.simps) simp
      then show ?thesis using 1(2,3) True Nil by (cases t) simp
    next
      case (snoc gs g)
      let ?u = "t\<lparr> qt_entries := butlast (qt_entries t), qt_size := qt_size t - entry_size (last (qt_entries t)) \<rparr>"
      have "qt_evict need t = qt_evict need ?u" using 1(2) True snoc by (subst qt_evict.simps) simp
      moreover have "fit field_size (qt_capacity t - need) fs = fit field_size (qt_capacity t - need) gs"
        if "need \<le> qt_capacity t"
        using True 1(3) that unfolding snoc by (intro fit_snoc) simp
      ultimately show ?thesis using 1(1) [of gs] True 1(2,3) snoc by simp
    qed
  next
    case False
    then have "qt_evict need t = t" by (subst qt_evict.simps) simp
    moreover have "fit field_size (qt_capacity t - need) fs = fs" using False 1(3) by (intro fit_all) simp
    ultimately show ?thesis using False 1(2,3) by (cases t) simp
  qed
qed

lemma qt_insert_spec:
  assumes "qt_ok t" "qt_fits t f" "unat (qt_inserted t) + 1 < 2 ^ 64"
  shows "qt_fields (fst (qt_insert f t)) = f # fit field_size (qt_capacity t - field_size f) (qt_fields t)"
    "qt_ok (fst (qt_insert f t))" "qt_capacity (fst (qt_insert f t)) = qt_capacity t"
    "unat (qt_inserted (fst (qt_insert f t))) = unat (qt_inserted t) + 1" "snd (qt_insert f t) = qt_inserted t"
proof -
  let ?gs = "fit field_size (qt_capacity t - field_size f) (qt_fields t)"
  have "qt_entries t = map entry_of (qt_fields t)" "qt_size t = weigh field_size (qt_fields t)"
    using assms(1) by (auto simp: qt_ok_def)
  note evict = qt_evict_spec [OF this, of "field_size f"]
  have fits: "field_size f \<le> qt_capacity t" using assms(2) by (simp add: qt_fits_def)
  have insert: "qt_insert f t = (t\<lparr> qt_entries := map entry_of (f # ?gs), qt_size := weigh field_size (f # ?gs),
      qt_inserted := qt_inserted t + 1 \<rparr>, qt_inserted t)"
    unfolding qt_insert_def evict using fits by (simp add: Let_def add.commute)
  show "qt_fields (fst (qt_insert f t)) = f # ?gs" "qt_capacity (fst (qt_insert f t)) = qt_capacity t"
    "snd (qt_insert f t) = qt_inserted t"
    unfolding insert by (simp_all add: qt_fields_def comp_def)
  show count: "unat (qt_inserted (fst (qt_insert f t))) = unat (qt_inserted t) + 1"
    unfolding insert using assms(3) by (simp add: unat_word_ariths)
  have "length ?gs \<le> length (qt_fields t)" by (rule prefix_length_le [OF fit_prefix])
  then show "qt_ok (fst (qt_insert f t))"
    using assms(1) fits count fit_weight [of field_size "qt_capacity t - field_size f" "qt_fields t"]
    unfolding insert by (auto simp: qt_ok_def qt_fields_def comp_def)
qed

lemma qt_set_capacity_spec:
  assumes "qt_ok t"
  shows "qt_fields (qt_set_capacity c t) = fit field_size c (qt_fields t)"
    "c \<le> USIZE_MAX \<Longrightarrow> qt_ok (qt_set_capacity c t)" "qt_capacity (qt_set_capacity c t) = c"
    "qt_inserted (qt_set_capacity c t) = qt_inserted t"
proof -
  have "qt_entries (t\<lparr> qt_capacity := c \<rparr>) = map entry_of (qt_fields t)"
    "qt_size (t\<lparr> qt_capacity := c \<rparr>) = weigh field_size (qt_fields t)"
    using assms by (auto simp: qt_ok_def)
  note evict = qt_evict_spec [OF this, of 0]
  have set: "qt_set_capacity c t = t\<lparr> qt_capacity := c, qt_entries := map entry_of (fit field_size c (qt_fields t)),
      qt_size := weigh field_size (fit field_size c (qt_fields t)) \<rparr>"
    unfolding qt_set_capacity_def evict by simp
  show "qt_fields (qt_set_capacity c t) = fit field_size c (qt_fields t)" "qt_capacity (qt_set_capacity c t) = c"
    "qt_inserted (qt_set_capacity c t) = qt_inserted t"
    unfolding set by (simp_all add: qt_fields_def comp_def)
  have "length (fit field_size c (qt_fields t)) \<le> length (qt_fields t)" by (rule prefix_length_le [OF fit_prefix])
  then show "c \<le> USIZE_MAX \<Longrightarrow> qt_ok (qt_set_capacity c t)"
    using assms fit_weight [of field_size c "qt_fields t"] unfolding set by (auto simp: qt_ok_def qt_fields_def comp_def)
qed

lemma qt_new_ok: "c \<le> USIZE_MAX \<Longrightarrow> qt_ok (qt_new c)" "qt_fields (qt_new c) = []" "qt_at (qt_new c) i = None"
  by (simp_all add: qt_ok_def qt_new_def qt_fields_def qt_at_def)

subsection \<open>What an index means\<close>

lemma nth_prefix: "prefix xs ys \<Longrightarrow> i < length xs \<Longrightarrow> ys ! i = xs ! i"
  by (auto simp: prefix_def nth_append)

lemma qt_get_spec:
  assumes "qt_ok t"
  shows "qt_get t absolute = qt_at t (unat absolute)"
proof -
  have entries: "get_at (qt_entries t) k = (if k < length (qt_fields t) then Some (qt_entries t ! k) else None)" for k
    using assms by (simp add: get_at_def qt_ok_def)
  show ?thesis
  proof (cases "absolute + 1 = 0")
    case True
    then have "absolute = - 1" by (simp add: eq_neg_iff_add_eq_0)
    then have "unat absolute = 2 ^ 64 - 1" by (simp add: unsigned_minus_1_eq_mask mask_eq_exp_minus_1)
    moreover have "unat (qt_inserted t) < 2 ^ 64" by (rule unat_less_64)
    moreover have "length (qt_fields t) \<le> unat (qt_inserted t)" using assms by (simp add: qt_ok_def)
    ultimately show ?thesis using True by (simp add: qt_get_def word_checked_sub_def entries qt_at_def)
  next
    case False
    then have succ: "unat (absolute + 1) = unat absolute + 1" using unatSuc [of absolute] by (simp add: add.commute)
    show ?thesis
    proof (cases "absolute + 1 \<le> qt_inserted t")
      case True
      then have "unat (qt_inserted t - (absolute + 1)) = unat (qt_inserted t) - (unat absolute + 1)"
        using succ by (simp add: unat_sub)
      moreover have "unat absolute < unat (qt_inserted t)" using True succ by (simp add: word_le_nat_alt)
      ultimately show ?thesis using True entries
        by (simp add: qt_get_def word_checked_sub_def qt_at_def qt_fields_def)
    next
      case False
      then have "\<not> unat absolute < unat (qt_inserted t)" using succ by (simp add: word_le_nat_alt)
      then show ?thesis using False by (simp add: qt_get_def word_checked_sub_def qt_at_def)
    qed
  qed
qed

lemma qt_at_bound: "qt_at t i = Some f \<Longrightarrow> i < unat (qt_inserted t)"
  by (auto simp: qt_at_def Let_def split: if_splits)

lemma qt_at_in: "qt_at t i = Some f \<Longrightarrow> f \<in> set (qt_fields t)"
  by (auto simp: qt_at_def Let_def split: if_splits)

text \<open>An insertion takes the next index, takes indices away from below, and changes no other.\<close>

lemma qt_at_insert:
  assumes "qt_ok t" "qt_fits t f" "unat (qt_inserted t) + 1 < 2 ^ 64"
  shows "qt_at (fst (qt_insert f t)) (unat (qt_inserted t)) = Some f"
    "i < unat (qt_inserted t) \<Longrightarrow> qt_at (fst (qt_insert f t)) i =
      (if unat (qt_inserted t) - 1 - i < length (fit field_size (qt_capacity t - field_size f) (qt_fields t)) then qt_at t i else None)"
proof -
  note ins = qt_insert_spec [OF assms]
  show "qt_at (fst (qt_insert f t)) (unat (qt_inserted t)) = Some f" by (simp add: qt_at_def ins)
  assume i: "i < unat (qt_inserted t)"
  let ?gs = "fit field_size (qt_capacity t - field_size f) (qt_fields t)" and ?k = "unat (qt_inserted t) - 1 - i"
  have k: "unat (qt_inserted t) - i = Suc ?k" using i by simp
  have "length ?gs \<le> length (qt_fields t)" by (rule prefix_length_le [OF fit_prefix])
  moreover have "?k < length ?gs \<Longrightarrow> qt_fields t ! ?k = ?gs ! ?k" by (rule nth_prefix [OF fit_prefix])
  ultimately show "qt_at (fst (qt_insert f t)) i = (if ?k < length ?gs then qt_at t i else None)"
    using i by (simp add: qt_at_def ins k)
qed

text \<open>The encoder's guard: what it admits evicts nothing at or above the floor.\<close>

lemma admits_walk_spec:
  "admits_walk capacity need floor absolute (weigh field_size gs) (map entry_of gs) = Some held \<Longrightarrow>
   unat absolute + length gs < 2 ^ 64 \<Longrightarrow>
   \<exists>k \<le> length gs. held = weigh field_size (drop k gs) \<and> (0 < k \<longrightarrow> unat absolute + k \<le> unat floor)"
proof (induction gs arbitrary: absolute)
  case (Cons g gs)
  show ?case
  proof (cases "weigh field_size (g # gs) + need \<le> capacity")
    case True
    then show ?thesis using Cons(2) by (intro exI [of _ 0]) simp
  next
    case False
    then have floor: "absolute < floor" and rec: "admits_walk capacity need floor (absolute + 1) (weigh field_size gs) (map entry_of gs) = Some held"
      using Cons(2) by (auto split: if_splits simp: not_le)
    have succ: "unat (absolute + 1) = unat absolute + 1" using Cons(3) by (simp add: unat_word_ariths)
    obtain k where "k \<le> length gs" "held = weigh field_size (drop k gs)" "0 < k \<longrightarrow> unat (absolute + 1) + k \<le> unat floor"
      using Cons(1) [OF rec] Cons(3) succ by auto
    then show ?thesis using floor succ by (intro exI [of _ "Suc k"]) (auto simp: word_less_nat_alt)
  qed
qed auto

lemma qt_oldest_spec:
  assumes "qt_ok t"
  shows "unat (qt_oldest t) = unat (qt_inserted t) - length (qt_fields t)" "unat (qt_oldest t) + length (qt_fields t) < 2 ^ 64"
proof -
  have len: "length (qt_entries t) \<le> unat (qt_inserted t)" "length (qt_entries t) = length (qt_fields t)"
    using assms by (auto simp: qt_ok_def qt_fields_def)
  have n: "unat (word_of_nat (length (qt_entries t)) :: u64) = length (qt_entries t)"
    using len(1) unat_less_64 [of "qt_inserted t"] by (simp add: unat_of_nat)
  then have "(word_of_nat (length (qt_entries t)) :: u64) \<le> qt_inserted t" using len(1) by (simp add: word_le_nat_alt)
  then show "unat (qt_oldest t) = unat (qt_inserted t) - length (qt_fields t)"
    using n len(2) by (simp add: qt_oldest_def unat_sub)
  then show "unat (qt_oldest t) + length (qt_fields t) < 2 ^ 64" using len unat_less_64 [of "qt_inserted t"] by simp
qed

lemma qt_admits_keeps:
  assumes "qt_ok t" "qt_admits t f floor" "unat (qt_inserted t) + 1 < 2 ^ 64" "unat floor \<le> i" "qt_at t i = Some g"
  shows "qt_at (fst (qt_insert f t)) i = Some g"
proof -
  let ?fs = "qt_fields t" and ?n = "unat (qt_inserted t)"
  have fits: "qt_fits t f" "field_size f \<le> qt_capacity t" using assms(2) by (auto simp: qt_admits_def qt_fits_def)
  have entries: "qt_entries t = map entry_of ?fs" "qt_size t = weigh field_size ?fs" using assms(1) by (simp_all add: qt_ok_def)
  have "rev (qt_entries t) = map entry_of (rev ?fs)" unfolding entries(1) by (simp only: rev_map)
  moreover have "qt_size t = weigh field_size (rev ?fs)" unfolding entries(2) by (simp only: rev_map [symmetric] sum_list_rev)
  ultimately obtain held where held: "admits_walk (qt_capacity t) (field_size f) floor (qt_oldest t) (weigh field_size (rev ?fs)) (map entry_of (rev ?fs)) = Some held"
    "held + field_size f \<le> qt_capacity t"
    using assms(2) by (auto simp: qt_admits_def split: option.splits)
  obtain k where k: "k \<le> length ?fs" "held = weigh field_size (drop k (rev ?fs))" "0 < k \<longrightarrow> unat (qt_oldest t) + k \<le> unat floor"
    using admits_walk_spec [OF held(1)] qt_oldest_spec(2) [OF assms(1)] by auto
  let ?kept = "take (length ?fs - k) ?fs"
  have "weigh field_size ?kept = held" unfolding k(2) by (simp add: drop_rev rev_map [symmetric])
  then have "prefix ?kept (fit field_size (qt_capacity t - field_size f) ?fs)"
    using held(2) by (intro fit_longest take_is_prefix) simp
  then have "length ?fs - k \<le> length (fit field_size (qt_capacity t - field_size f) ?fs)"
    using prefix_length_le by fastforce
  moreover have "i < ?n" "?n - 1 - i < length ?fs" using assms(5) by (auto simp: qt_at_def Let_def split: if_splits)
  moreover have "k = 0 \<or> ?n - length ?fs + k \<le> i" using k(3) assms(4) qt_oldest_spec(1) [OF assms(1)] by auto
  moreover have "length ?fs \<le> ?n" using assms(1) by (simp add: qt_ok_def)
  ultimately show ?thesis using assms(5) qt_at_insert(2) [OF assms(1) fits(1) assms(3), of i] by auto
qed


subsection \<open>References found are references to what was asked for\<close>

definition names_field :: "header_field option \<Rightarrow> bool \<Rightarrow> header_field \<Rightarrow> bool" where
  "names_field found exact f \<longleftrightarrow> (\<exists>g. found = Some g \<and> hf_name g = hf_name f \<and> (exact \<longrightarrow> g = f))"

lemma length_qstatic [simp]: "length qstatic_entries = 99"
  by (simp add: qstatic_entries_def QPACK_TABLE_def)

lemma qstatic_ok: "f \<in> set qstatic_entries \<Longrightarrow> field_ok f"
proof -
  have "\<forall>(n, v) \<in> set QPACK_TABLE. is_utf8 (ascii n) \<and> is_utf8 (ascii v) \<and> length n < 128 \<and> length v < 128"
    by code_simp
  then show "f \<in> set qstatic_entries \<Longrightarrow> field_ok f"
    by (auto simp: qstatic_entries_def field_ok_def header_new_def text_from_str_of)
qed

lemma qstatic_marks: "inj_on mark_of (fst ` set (map octets_of qstatic_entries))"
proof -
  have "list_all (\<lambda>name. name \<in> set STATIC_NAMES) (map fst QPACK_TABLE)" by code_simp
  then have "inj_on mark_of (set (map ascii (map fst QPACK_TABLE)))" by (rule static_marks_inj)
  moreover have "fst ` set (map octets_of qstatic_entries) = set (map ascii (map fst QPACK_TABLE))"
    by (auto simp: qstatic_entries_def octets_of_def header_new_def text_from_str_of image_image case_prod_beta')
  ultimately show ?thesis by simp
qed

lemma qstatic_find_sound:
  assumes "field_ok f" "qstatic_find f = Some (index, exact)"
  shows "names_field (get_at qstatic_entries (unat index)) exact f"
proof -
  have map: "position P (map g xs) = position (P \<circ> g) xs" for P :: "bytes \<times> bytes \<Rightarrow> bool" and g :: "header_field \<Rightarrow> bytes \<times> bytes" and xs
    by (induction xs) auto
  obtain i where i: "index = word_of_nat i" and at: "if exact then position (\<lambda>e. octets_of e = octets_of f) qstatic_entries = Some i
      else position (\<lambda>e. text_bytes (hf_name e) = text_bytes (hf_name f)) qstatic_entries = Some i"
    using assms(2)
    by (auto simp: qstatic_find_def qstatic_reverse_def static_lookup_search [OF qstatic_marks] static_search_def map
        octets_of_def comp_def split: option.splits)
  have "i < 99" "text_bytes (hf_name (qstatic_entries ! i)) = text_bytes (hf_name f)"
    "exact \<longrightarrow> octets_of (qstatic_entries ! i) = octets_of f"
    using at position_SomeD [of _ qstatic_entries i] by (fastforce simp: octets_of_def split: if_splits)+
  moreover have "field_ok (qstatic_entries ! i)" using calculation(1) by (intro qstatic_ok nth_mem) simp
  moreover have "unat index = i" using calculation(1) unfolding i by (simp add: unat_of_nat)
  ultimately show ?thesis using field_ok_eq [OF _ assms(1)] by (auto simp: names_field_def get_at_def)
qed

lemma probe_walk_sound:
  assumes "field_ok f" "\<forall>g\<in>set gs. field_ok g" "offset + length gs \<le> unat inserted"
    and "\<And>a. name_only = Some a \<Longrightarrow> a < below \<and> names_field (view (unat a)) False f"
    and "\<And>k. k < length gs \<Longrightarrow> view (unat inserted - (offset + k + 1)) = Some (gs ! k)"
    and "probe_walk inserted (mark_of (text_bytes (hf_name f))) f below name_only anywhere offset (map entry_of gs) = (Some (a, exact), any)"
  shows "a < below \<and> names_field (view (unat a)) exact f"
  using assms(2-)
proof (induction gs arbitrary: offset name_only anywhere)
  case Nil
  then show ?case by auto
next
  case (Cons g gs)
  have offset: "unat (word_of_nat offset + 1 :: u64) = offset + 1"
    using Cons(3) unat_less_64 [of inserted] by (simp add: unat_word_ariths unat_of_nat)
  have le: "word_of_nat offset + 1 \<le> inserted" using offset Cons(3) by (simp add: word_le_nat_alt)
  define absolute where "absolute = inserted - (word_of_nat offset + 1)"
  have absolute: "unat absolute = unat inserted - (offset + 1)" unfolding absolute_def using le offset by (simp add: unat_sub)
  have here: "view (unat absolute) = Some g" using Cons(5) [of 0] absolute by simp
  have rest: "view (unat inserted - (offset + 1 + k + 1)) = Some (gs ! k)" if "k < length gs" for k
    using Cons(5) [of "Suc k"] that by simp
  have named: "entry_named (entry_of g) (mark_of (text_bytes (hf_name f))) f \<longleftrightarrow> hf_name g = hf_name f"
    and valued: "entry_valued (entry_of g) f \<longleftrightarrow> hf_value g = hf_value f"
    using assms(1) Cons(2) by (auto simp: entry_named_def entry_valued_def entry_of_def field_ok_def text_eq_spec)
  have sub: "word_checked_sub inserted (word_of_nat offset + 1) = Some absolute" using le by (simp add: word_checked_sub_def absolute_def)
  note IH = Cons(1) [of "offset + 1", OF _ _ _ rest]
  show ?case
  proof (cases "hf_name g = hf_name f")
    case False
    then show ?thesis using Cons(6) named by (intro IH [of name_only anywhere]) (use Cons in auto)
  next
    case name: True
    show ?thesis
    proof (cases "hf_value g = hf_value f \<and> absolute < below")
      case True
      then show ?thesis using Cons(6) named valued name sub here
        by (auto simp: names_field_def header_field_eq_iff)
    next
      case False
      define name_only' where "name_only' = (if hf_value g = hf_value f \<or> \<not> absolute < below then name_only
        else case name_only of None \<Rightarrow> Some absolute | Some a \<Rightarrow> Some a)"
      have "probe_walk inserted (mark_of (text_bytes (hf_name f))) f below name_only' (if hf_value g = hf_value f then True else anywhere)
          (offset + 1) (map entry_of gs) = (Some (a, exact), any)"
        using False Cons(6) named valued name sub by (auto simp: name_only'_def split: if_splits)
      moreover have "a < below \<and> names_field (view (unat a)) False f" if "name_only' = Some a" for a
        using that Cons(4) here name by (auto simp: name_only'_def names_field_def split: if_splits option.splits)
      ultimately show ?thesis using Cons by (intro IH) auto
    qed
  qed
qed

lemma qt_probe_sound:
  assumes "field_ok f" "qt_ok t" "\<forall>g\<in>set (qt_fields t). field_ok g" "qt_probe t f below = (Some (absolute, exact), any)"
  shows "absolute < below \<and> names_field (qt_at t (unat absolute)) exact f"
proof -
  have entries: "qt_entries t = map entry_of (qt_fields t)" and len: "length (qt_fields t) \<le> unat (qt_inserted t)"
    using assms(2) by (simp_all add: qt_ok_def)
  have at: "qt_at t (unat (qt_inserted t) - (0 + k + 1)) = Some (qt_fields t ! k)" if "k < length (qt_fields t)" for k
    using that len by (simp add: qt_at_def)
  show ?thesis
  proof (rule probe_walk_sound [OF assms(1,3)])
    show "probe_walk (qt_inserted t) (mark_of (text_bytes (hf_name f))) f below None False 0 (map entry_of (qt_fields t))
        = (Some (absolute, exact), any)"
      using assms(4) unfolding qt_probe_def by (simp only: entries [symmetric])
  qed (use at len in simp_all)
qed

end
