(* ===== verification/Qpack_Sync.thy ===== *)
theory Qpack_Sync
  imports Qpack_Table
begin

section \<open>QPACK: what one end writes, the other reads\<close>

subsection \<open>One field\<close>

lemma q_flag_tests:
  "b AND 0x80 \<noteq> 0 \<longleftrightarrow> bit b 7" "b AND 0x40 \<noteq> 0 \<longleftrightarrow> bit b 6" "b AND 0x20 \<noteq> 0 \<longleftrightarrow> bit b 5"
  "b AND 0x10 \<noteq> 0 \<longleftrightarrow> bit (b :: octet) 4"
  using and_exp_eq_0_iff_not_bit [of b 7] and_exp_eq_0_iff_not_bit [of b 6] and_exp_eq_0_iff_not_bit [of b 5]
    and_exp_eq_0_iff_not_bit [of b 4] by simp_all

lemma q_octets:
  "0x50 OR bit_octet never 5 = (if never then 0x70 else 0x50)" "0x40 OR bit_octet never 5 = (if never then 0x60 else 0x40)"
  "0x20 OR bit_octet never 4 = (if never then 0x30 else 0x20)" "0x80 OR bit_octet s 6 = (if s then 0xc0 else 0x80)"
  by (simp_all add: bit_octet_def)

lemma q_constant_flags:
  "flags_ok 6 0xc0" "flags_ok 6 0x80" "flags_ok 4 0x70" "flags_ok 4 0x50" "flags_ok 4 0x60" "flags_ok 4 0x40"
  "flags_ok 4 0x30" "flags_ok 4 0x20" "flags_ok 6 0x40" "flags_ok 8 0" "flags_ok 7 0" "flags_ok 5 0x20" "flags_ok 5 0"
  "flags_ok 7 0x80" "flags_ok 6 0" "flags_ok 6 0x40" "flags_ok 8 0"
  by code_simp+

lemma q_flags_ok:
  "flags_ok 4 (0x50 OR bit_octet never 5)" "flags_ok 4 (0x40 OR bit_octet never 5)"
  "flags_ok 4 (0x20 OR bit_octet never 4)" "flags_ok 6 (0x80 OR bit_octet s 6)"
  unfolding q_octets using q_constant_flags by simp_all

lemma q_constant_bits:
  "bit (0xc0 :: octet) 7" "bit (0xc0 :: octet) 6" "bit (0x80 :: octet) 7" "\<not> bit (0x80 :: octet) 6"
  "\<not> bit (0x70 :: octet) 7" "bit (0x70 :: octet) 6" "bit (0x70 :: octet) 4" "\<not> bit (0x50 :: octet) 7" "bit (0x50 :: octet) 6"
  "bit (0x50 :: octet) 4" "\<not> bit (0x60 :: octet) 7" "bit (0x60 :: octet) 6" "\<not> bit (0x60 :: octet) 4"
  "\<not> bit (0x40 :: octet) 7" "bit (0x40 :: octet) 6" "\<not> bit (0x40 :: octet) 4" "\<not> bit (0x30 :: octet) 7"
  "\<not> bit (0x30 :: octet) 6" "bit (0x30 :: octet) 5" "\<not> bit (0x20 :: octet) 7" "\<not> bit (0x20 :: octet) 6" "bit (0x20 :: octet) 5"
  by code_simp+

lemma q_flag_bits:
  "\<not> bit (0x50 OR bit_octet never 5) 7" "bit (0x50 OR bit_octet never 5) 6" "bit (0x50 OR bit_octet never 5) 4"
  "\<not> bit (0x40 OR bit_octet never 5) 7" "bit (0x40 OR bit_octet never 5) 6" "\<not> bit (0x40 OR bit_octet never 5) 4"
  "\<not> bit (0x20 OR bit_octet never 4) 7" "\<not> bit (0x20 OR bit_octet never 4) 6" "bit (0x20 OR bit_octet never 4) 5"
  "bit (0x80 OR bit_octet s 6) 7" "bit (0x80 OR bit_octet s 6) 6 = s"
  unfolding q_octets using q_constant_bits by (simp_all split: if_split)

lemma q_head:
  assumes "flags_ok prefix_bits flags" "prefix_bits \<le> n"
  shows "bit (hd (int_encode v prefix_bits flags)) n = bit flags n"
  using int_encode_first [OF assms(1), of v] assms(2) by (metis list.sel(1))

lemma q_literal_head:
  assumes "literal_ok p flags v" "p < n"
  shows "bit (hd (literal_encode_shorter v p flags)) n = bit flags n"
proof -
  have mark: "\<not> bit (huffman_mark p) n" using assms(2) by (auto simp: huffman_mark_def bit_simps)
  have "min p MAX_PREFIX_BITS = p" using assms(1) by (simp add: MAX_PREFIX_BITS_def literal_ok_def)
  then show ?thesis using q_head [OF literal_flags(1) [OF assms(1)], of n] q_head [OF literal_flags(3) [OF assms(1)], of n] assms(2) mark
    by (simp add: literal_encode_shorter_def Let_def bit_or_iff)
qed

lemma q_literal_ok:
  assumes "length v < 2 ^ 60"
  shows "literal_ok 7 0 v" "literal_ok 3 (0x20 OR bit_octet never 4) v" "literal_ok 5 0x40 v"
proof -
  have len: "length v + encoded_len v + 11 \<le> USIZE_MAX" using assms encoded_len_bound [of v] by (simp add: USIZE_MAX_def)
  have "flags_ok (7 + 1) 0" "flags_ok (3 + 1) (0x20 OR bit_octet never 4)" "flags_ok (5 + 1) 0x40"
    using q_constant_flags q_flags_ok by simp_all
  then show "literal_ok 7 0 v" "literal_ok 3 (0x20 OR bit_octet never 4) v" "literal_ok 5 0x40 v"
    using len by (simp_all add: literal_ok_def)
qed

lemma literal_shorter_nonempty [simp]: "literal_encode_shorter v n flags \<noteq> []"
  by (simp add: literal_shorter)

lemma q_int_encode: "flags_ok n flags \<Longrightarrow> q_int (int_encode v n flags @ rest) n = Inr (length (int_encode v n flags), v)"
  by (simp add: q_int_def int_decode_encode)

lemma q_literal_encode:
  "literal_ok n flags v \<Longrightarrow> q_literal (literal_encode_shorter v n flags @ rest) n
     = Inr (length (literal_encode_shorter v n flags), is_ascii v, v)"
  by (simp add: q_literal_def literal_at_encode)

definition reference_ok :: "qtable \<Rightarrow> u64 \<Rightarrow> header_field \<Rightarrow> qreference option \<Rightarrow> bool" where
  "reference_ok t required f matched \<longleftrightarrow>
     (case matched of
        None \<Rightarrow> True
      | Some (True, index, exact) \<Rightarrow> names_field (get_at qstatic_entries (unat index)) exact f
      | Some (False, absolute, exact) \<Rightarrow> absolute < required \<and> names_field (qt_at t (unat absolute)) exact f)"

lemma relative_indexed:
  assumes "absolute < base" "absolute < qt_inserted t"
  shows "qt_indexed t base (prefix_relative base absolute) = Some absolute"
proof -
  have le: "absolute \<le> base" "1 \<le> base - absolute"
    using assms(1) by (simp_all add: word_le_nat_alt word_less_nat_alt unat_sub)
  have "prefix_relative base absolute + 1 = base - absolute"
    using le by (simp add: prefix_relative_def word_saturating_sub_def)
  moreover have "base - absolute \<le> base" using le(1) by (simp add: word_le_nat_alt unat_sub)
  ultimately show ?thesis using assms(2) by (simp add: qt_indexed_def below_count_def word_checked_sub_def)
qed

lemma qd_dynamic_at:
  assumes "qt_ok (qd_table de)" "absolute < base" "qt_at (qd_table de) (unat absolute) = Some g"
  shows "qd_dynamic de index (qt_indexed (qd_table de) base (prefix_relative base absolute)) = Inr g"
  using relative_indexed [OF assms(2), of "qd_table de"] qt_at_bound [OF assms(3)] qt_get_spec [OF assms(1)] assms(3)
  by (simp add: qd_dynamic_def word_less_nat_alt)

text \<open>A name, however it was read, with the value behind it.\<close>

lemma q_value:
  assumes "field_ok f"
  shows "q_literal (literal_encode_shorter (text_bytes (hf_value f)) 7 0 @ rest) 7
      = Inr (length (literal_encode_shorter (text_bytes (hf_value f)) 7 0), is_ascii (text_bytes (hf_value f)), text_bytes (hf_value f))"
    "literal_text (text_bytes (hf_value f)) (is_ascii (text_bytes (hf_value f))) = hf_value f"
    "literal_text (text_bytes (hf_name f)) (is_ascii (text_bytes (hf_name f))) = hf_name f"
proof -
  have ok: "is_utf8 (text_bytes (hf_value f))" "is_utf8 (text_bytes (hf_name f))"
    "text_of (text_bytes (hf_value f)) = hf_value f" "text_of (text_bytes (hf_name f)) = hf_name f"
    and short: "length (text_bytes (hf_value f)) < 2 ^ 60"
    using assms by (auto simp: field_ok_def text_ok_def)
  show "q_literal (literal_encode_shorter (text_bytes (hf_value f)) 7 0 @ rest) 7
      = Inr (length (literal_encode_shorter (text_bytes (hf_value f)) 7 0), is_ascii (text_bytes (hf_value f)), text_bytes (hf_value f))"
    by (rule q_literal_encode [OF q_literal_ok(1) [OF short]])
  show "literal_text (text_bytes (hf_value f)) (is_ascii (text_bytes (hf_value f))) = hf_value f"
    "literal_text (text_bytes (hf_name f)) (is_ascii (text_bytes (hf_name f))) = hf_name f"
    using ok by (simp_all add: literal_text_decoded)
qed

lemma header_field_parts [simp]: "\<lparr> hf_name = hf_name f, hf_value = hf_value f \<rparr> = (f :: header_field)"
  by (cases f) simp

lemma qd_step_encode:
  assumes "qt_ok (qd_table de)" "field_ok f" "reference_ok (qd_table de) base f matched"
  shows "qd_step de base (qe_encode_field f matched base @ rest) (hd (qe_encode_field f matched base))
    = Inr (length (qe_encode_field f matched base), f)"
proof (cases matched)
  case None
  have short: "length (text_bytes (hf_name f)) < 2 ^ 60" using assms(2) by (simp add: field_ok_def)
  note ok = q_literal_ok(2) [OF short, of "sensitive f"]
  have head: "hd (literal_encode_shorter (text_bytes (hf_name f)) 3 (0x20 OR bit_octet (sensitive f) 4) @ others)
      = hd (literal_encode_shorter (text_bytes (hf_name f)) 3 (0x20 OR bit_octet (sensitive f) 4))" for others by simp
  show ?thesis
    unfolding None qe_encode_field_def Let_def option.case qd_step_def q_flag_tests head append_assoc
    using q_value [OF assms(2)] q_literal_encode [OF ok]
    by (simp add: q_literal_head [OF ok] q_flag_bits)
next
  case (Some r)
  obtain static index exact where r: "r = (static, index, exact)" by (cases r) auto
  have int_head: "hd (int_encode v n flags @ others) = hd (int_encode v n flags)" for v n flags others by simp
  note simps = q_head q_flags_ok q_flag_bits q_constant_flags q_constant_bits q_int_encode
  show ?thesis
  proof (cases static)
    case True
    then obtain g where g: "get_at qstatic_entries (unat index) = Some g" "hf_name g = hf_name f" "exact \<longrightarrow> g = f"
      using assms(3) Some r by (auto simp: reference_ok_def names_field_def)
    show ?thesis
      unfolding Some r qe_encode_field_def Let_def option.case prod.case qd_step_def q_flag_tests
      using g q_value [OF assms(2)] True
      by (cases exact) (simp_all add: simps qd_resolve_def qd_resolve_name_def)
  next
    case False
    then obtain g where g: "index < base" "qt_at (qd_table de) (unat index) = Some g" "hf_name g = hf_name f" "exact \<longrightarrow> g = f"
      using assms(3) Some r by (auto simp: reference_ok_def names_field_def)
    note found = qd_dynamic_at [OF assms(1) g(1,2)]
    show ?thesis
      unfolding Some r qe_encode_field_def Let_def option.case prod.case qd_step_def q_flag_tests
      using g q_value [OF assms(2)] False
      by (cases exact) (simp_all add: simps qd_resolve_def qd_resolve_name_def found)
  qed
qed

lemma qe_encode_field_nonempty [simp]: "qe_encode_field f matched base \<noteq> []"
  by (auto simp: qe_encode_field_def Let_def split: option.split bool.split)

lemma qd_loop_encode:
  assumes "qt_ok (qd_table de)" "length matches = length fs"
    and "\<forall>(f, matched) \<in> set (zip fs matches). field_ok f \<and> reference_ok (qd_table de) base f matched"
    and "held + weigh field_size fs \<le> qd_max_decoded_size de"
  shows "qd_loop de base (concat (map (\<lambda>(f, matched). qe_encode_field f matched base) (zip fs matches))) headers held
    = Inr (headers @ fs)"
  using assms(2-)
proof (induction fs arbitrary: matches headers held)
  case (Cons f fs)
  obtain m ms where ms: "matches = m # ms" using Cons(2) by (cases matches) auto
  let ?others = "concat (map (\<lambda>(f, matched). qe_encode_field f matched base) (zip fs ms))"
  obtain b bs where b: "qe_encode_field f m base = b # bs" using qe_encode_field_nonempty by (metis list.exhaust)
  have "qd_step de base ((b # bs) @ ?others) b = Inr (length (b # bs), f)"
    using qd_step_encode [OF assms(1), of f base m ?others] Cons(3) by (simp add: ms b)
  then show ?case using Cons(1) [of ms "held + field_size f" "headers @ [f]"] Cons(2-) by (simp add: ms b)
qed simp

end
