(* ===== verification/Qpack_Stream.thy ===== *)
theory Qpack_Stream
  imports Qpack_Sync
begin

section \<open>QPACK: the instruction streams\<close>

text \<open>
  Every instruction is read back as it was written, from the front of whatever follows it, and a
  decoder that is handed the octets an encoder queued ends with the encoder's table.
\<close>

subsection \<open>Instructions\<close>

definition ei_ok :: "encoder_instruction \<Rightarrow> bool" where
  "ei_ok i \<longleftrightarrow>
     (case i of
        SetDynamicTableCapacity capacity \<Rightarrow> capacity \<le> USIZE_MAX
      | InsertWithNameReference from_static name_index v \<Rightarrow> length v < 2 ^ 60
      | InsertWithLiteralName name v \<Rightarrow> length name < 2 ^ 60 \<and> length v < 2 ^ 60
      | Duplicate index \<Rightarrow> True)"

lemma get_at_head: "xs \<noteq> [] \<Longrightarrow> get_at (xs @ rest) 0 = Some (hd xs)"
  by (cases xs) (simp_all add: get_at_def)

lemma instruction_bits:
  "\<not> bit (0x20 :: octet) 7" "\<not> bit (0x20 :: octet) 6" "bit (0x20 :: octet) 5" "\<not> bit (0 :: octet) n"
  "\<not> bit (0x40 :: octet) 7" "bit (0x40 :: octet) 6" "bit (0x80 :: octet) 7"
  using q_constant_bits by simp_all

lemma ei_decode_encode:
  assumes "ei_ok i"
  shows "ei_decode (ei_encode i @ rest) = Inr (length (ei_encode i), i)"
proof -
  note simps = q_head q_flags_ok q_flag_bits q_constant_flags instruction_bits q_int_encode q_literal_encode get_at_head
  show ?thesis
  proof (cases i)
    case (SetDynamicTableCapacity capacity)
    then have "unat (word_of_nat capacity :: u64) = capacity" using assms by (simp add: ei_ok_def USIZE_MAX_def unat_of_nat)
    then show ?thesis unfolding SetDynamicTableCapacity ei_decode_def q_flag_tests by (simp add: simps)
  next
    case (InsertWithNameReference from_static name_index v)
    then have "literal_ok 7 0 v" using assms by (simp add: ei_ok_def q_literal_ok)
    then show ?thesis unfolding InsertWithNameReference ei_decode_def q_flag_tests by (simp add: simps)
  next
    case (InsertWithLiteralName name v)
    then have ok: "literal_ok 5 0x40 name" "literal_ok 7 0 v" using assms by (simp_all add: ei_ok_def q_literal_ok)
    show ?thesis unfolding InsertWithLiteralName ei_decode_def q_flag_tests
      using q_literal_head [OF ok(1)] ok by (simp add: simps)
  next
    case (Duplicate index)
    then show ?thesis unfolding Duplicate ei_decode_def q_flag_tests by (simp add: simps)
  qed
qed

lemma di_decode_encode: "di_decode (di_encode i @ rest) = Inr (length (di_encode i), i)"
  by (cases i; simp add: di_decode_def q_flag_tests q_head q_constant_flags instruction_bits q_int_encode get_at_head)

lemma ei_encode_nonempty [simp]: "ei_encode i \<noteq> []"
  by (cases i) simp_all

lemma di_encode_nonempty [simp]: "di_encode i \<noteq> []"
  by (cases i) simp_all

interpretation encoder_wire: prefix_codec "\<lambda>_::unit. ei_ok" "\<lambda>_. ei_encode" "\<lambda>_ input. ok_of (ei_decode input)"
  by unfold_locales (simp_all add: ei_decode_encode)

interpretation decoder_wire: prefix_codec "\<lambda>_::unit. \<lambda>_. True" "\<lambda>_. di_encode" "\<lambda>_ input. ok_of (di_decode input)"
  by unfold_locales (simp_all add: di_decode_encode)

lemma ei_decode_nil [simp]: "ei_decode [] = Inl QIncomplete"
  by (simp add: ei_decode_def get_at_def)

lemma di_decode_nil [simp]: "di_decode [] = Inl QIncomplete"
  by (simp add: di_decode_def get_at_def)

lemma decoder_stream_loop_encode:
  "decoder_stream_loop (concat (map di_encode is)) en = (fold on_decoder_instruction is en\<lparr> qe_recv := [] \<rparr>, Inr ())"
  by (induction "is" arbitrary: en) (simp_all add: decoder_stream_loop.simps di_decode_encode)

subsection \<open>Insertions\<close>

text \<open>What a decoder's table comes to when the instruction is carried out.\<close>

definition ei_field :: "qtable \<Rightarrow> encoder_instruction \<Rightarrow> header_field option" where
  "ei_field t i =
     (case i of
        SetDynamicTableCapacity _ \<Rightarrow> None
      | InsertWithNameReference True index v \<Rightarrow>
          map_option (\<lambda>f. \<lparr> hf_name = hf_name f, hf_value = text_from_utf8_lossy v \<rparr>) (get_at qstatic_entries (unat index))
      | InsertWithNameReference False index v \<Rightarrow>
          map_option (\<lambda>f. \<lparr> hf_name = hf_name f, hf_value = text_from_utf8_lossy v \<rparr>)
            (Option.bind (qt_relative t index) (qt_get t))
      | InsertWithLiteralName name v \<Rightarrow> Some \<lparr> hf_name = text_from_utf8_lossy name, hf_value = text_from_utf8_lossy v \<rparr>
      | Duplicate index \<Rightarrow> Option.bind (qt_relative t index) (qt_get t))"

lemma qd_entry_relative_Some:
  "Option.bind (qt_relative (qd_table de) index) (qt_get (qd_table de)) = Some f \<Longrightarrow> qd_entry_relative de index = Inr f"
  by (auto simp: qd_entry_relative_def Option.bind_eq_Some_conv)

lemma on_encoder_insert:
  assumes "ei_field (qd_table de) i = Some f" "qt_fits (qd_table de) f"
  shows "on_encoder_instruction i de = (de\<lparr> qd_table := fst (qt_insert f (qd_table de)) \<rparr>, Inr (Some (InsertCountIncrement 1)))"
proof -
  have "qd_inserted_field de i = Inr f"
    using assms(1) by (auto simp: qd_inserted_field_def ei_field_def qd_entry_relative_Some
        split: encoder_instruction.splits bool.splits)
  moreover have "\<not> (\<exists>c. i = SetDynamicTableCapacity c)" using assms(1) by (auto simp: ei_field_def)
  ultimately show ?thesis using assms(2) by (cases i) (auto simp: on_encoder_instruction_def)
qed

text \<open>
  Octets on their way: the table they find, the octets, the table they leave, and the insertions
  among them, each written in no more octets than the size of the field it inserts.
\<close>

inductive queued :: "nat \<Rightarrow> qtable \<Rightarrow> bytes \<Rightarrow> nat \<Rightarrow> qtable \<Rightarrow> bool" for limit where
  queued_none: "queued limit t [] 0 t"
| queued_insert:
    "ei_ok i \<Longrightarrow> ei_field t i = Some f \<Longrightarrow> qt_fits t f \<Longrightarrow> length (ei_encode i) \<le> field_size f \<Longrightarrow>
       queued limit (fst (qt_insert f t)) out n u \<Longrightarrow> queued limit t (ei_encode i @ out) (Suc n) u"
| queued_resize:
    "c \<le> limit \<Longrightarrow> c \<le> USIZE_MAX \<Longrightarrow> queued limit (qt_set_capacity c t) out n u
       \<Longrightarrow> queued limit t (ei_encode (SetDynamicTableCapacity c) @ out) n u"

lemma queued_trans: "queued limit t out n u \<Longrightarrow> queued limit u others m v \<Longrightarrow> queued limit t (out @ others) (n + m) v"
  by (induction rule: queued.induct) (auto intro: queued.intros simp del: ei_encode.simps)

lemma queued_one:
  "ei_ok i \<Longrightarrow> ei_field t i = Some f \<Longrightarrow> qt_fits t f \<Longrightarrow> length (ei_encode i) \<le> field_size f \<Longrightarrow>
   queued limit t (ei_encode i) 1 (fst (qt_insert f t))"
  using queued_insert [OF _ _ _ _ queued_none, of i t f limit] by simp

text \<open>Handed over, they take the decoder's table to where they lead, and are acknowledged one by one.\<close>

lemma encoder_stream_loop_queued:
  assumes "queued limit t out n u" "t = qd_table de" "limit \<le> qd_max_capacity de"
  shows "encoder_stream_loop out de =
    (de\<lparr> qd_table := u, qd_out := qd_out de @ concat (replicate n (di_encode (InsertCountIncrement 1))), qd_recv := [] \<rparr>, Inr ())"
  using assms
proof (induction arbitrary: de rule: queued.induct)
  case (queued_none t)
  then show ?case by (subst encoder_stream_loop.simps) simp
next
  case (queued_insert i t f out n u)
  have carried: "on_encoder_instruction i de = (de\<lparr> qd_table := fst (qt_insert f (qd_table de)) \<rparr>, Inr (Some (InsertCountIncrement 1)))"
    using queued_insert by (intro on_encoder_insert) simp_all
  show ?case
    using queued_insert.IH [of "de\<lparr> qd_table := fst (qt_insert f (qd_table de)), qd_out := qd_out de @ di_encode (InsertCountIncrement 1) \<rparr>"]
      queued_insert.prems
    by (subst encoder_stream_loop.simps) (simp add: ei_decode_encode queued_insert.hyps(1) carried)
next
  case (queued_resize c t out n u)
  have carried: "on_encoder_instruction (SetDynamicTableCapacity c) de = (de\<lparr> qd_table := qt_set_capacity c (qd_table de) \<rparr>, Inr None)"
    using queued_resize.hyps(1) queued_resize.prems by (simp add: on_encoder_instruction_def)
  have "ei_ok (SetDynamicTableCapacity c)" using queued_resize.hyps(2) by (simp add: ei_ok_def)
  then show ?case
    using queued_resize.IH [of "de\<lparr> qd_table := qt_set_capacity c (qd_table de) \<rparr>"] queued_resize.prems
    by (subst encoder_stream_loop.simps) (simp add: ei_decode_encode carried del: ei_encode.simps)
qed

end
