(* ===== verification/Qpack_Encode.thy ===== *)
theory Qpack_Encode
  imports Qpack_Stream
begin

section \<open>QPACK: the encoder\<close>

text \<open>
  What encoding a block does to the encoder: the references it chose hold in its table when the
  block is done, although entries were inserted and evicted meanwhile, they are all below the
  number of insertions the peer is known to have received, and the octets queued for the encoder
  stream lead from the table before to the table after.
\<close>

definition qencoder_ok :: "qencoder \<Rightarrow> bool" where
  "qencoder_ok en \<longleftrightarrow> qt_ok (qe_table en) \<and> (\<forall>g\<in>set (qt_fields (qe_table en)). field_ok g) \<and>
     qe_known en \<le> qt_inserted (qe_table en)"

lemma fold_min_le: "fold min xs a \<le> a \<and> (\<forall>x\<in>set xs. fold min xs a \<le> (x :: 'a::linorder))"
proof (induction xs arbitrary: a)
  case (Cons x xs)
  have "fold min xs (min x a) \<le> min x a" using Cons by blast
  then show ?case using Cons by simp
qed simp

lemma qe_referenced_le: "qe_referenced en \<le> qe_floor en" "s \<in> set (qe_sections en) \<Longrightarrow> qe_referenced en \<le> sec_floor s"
proof -
  show "qe_referenced en \<le> qe_floor en" by (simp add: qe_referenced_def)
  assume "s \<in> set (qe_sections en)"
  then have "(case map sec_floor (qe_sections en) of [] \<Rightarrow> U64_MAX | f # fs \<Rightarrow> fold min fs f) \<le> sec_floor s"
    using fold_min_le by (cases "qe_sections en") auto
  then show "qe_referenced en \<le> sec_floor s" by (simp add: qe_referenced_def min_le_iff_disj)
qed

subsection \<open>One field\<close>

definition match_ok :: "qencoder \<Rightarrow> header_field \<Rightarrow> qreference option \<Rightarrow> bool" where
  "match_ok en f matched \<longleftrightarrow> reference_ok (qe_table en) (qe_known en) f matched"

lemma qe_match_sound:
  assumes "qencoder_ok en" "field_ok f" "qe_match tracked f en = (matched, any)"
  shows "match_ok en f matched"
proof -
  have static: "names_field (get_at qstatic_entries (unat i)) exact f" if "qstatic_find f = Some (i, exact)" for i exact
    using qstatic_find_sound [OF assms(2) that] .
  have loose: "names_field found exact f \<Longrightarrow> names_field found False f" for found exact by (auto simp: names_field_def)
  have dynamic: "a < qe_known en \<and> names_field (qt_at (qe_table en) (unat a)) exact f"
    if "qt_probe (qe_table en) f (qe_known en) = (Some (a, exact), any)" for a exact any
    using qt_probe_sound [OF assms(2) _ _ that] assms(1) by (simp add: qencoder_ok_def)
  obtain found any where probe: "qt_probe (qe_table en) f (qe_known en) = (found, any)" by fastforce
  show ?thesis
    using assms(3) static loose dynamic probe unfolding qe_match_def Let_def match_ok_def reference_ok_def
    by (auto split: option.splits bool.splits prod.splits if_splits)
qed

definition insert_instruction :: "qencoder \<Rightarrow> header_field \<Rightarrow> qreference option \<Rightarrow> encoder_instruction" where
  "insert_instruction en f matched =
     (case matched of
        Some (from_static, index, _) \<Rightarrow>
          InsertWithNameReference from_static
            (if from_static then index else word_saturating_sub (word_saturating_sub (qt_inserted (qe_table en)) index) 1)
            (text_bytes (hf_value f))
      | None \<Rightarrow> InsertWithLiteralName (text_bytes (hf_name f)) (text_bytes (hf_value f)))"

lemma relative_of_absolute:
  assumes "absolute < qt_inserted t"
  shows "qt_relative t (word_saturating_sub (word_saturating_sub (qt_inserted t) absolute) 1) = Some absolute"
proof -
  have "absolute \<le> qt_inserted t" "1 \<le> qt_inserted t - absolute"
    using assms by (simp_all add: word_le_nat_alt word_less_nat_alt unat_sub)
  moreover have "qt_inserted t - absolute \<le> qt_inserted t" using calculation(1) by (simp add: word_le_nat_alt unat_sub)
  ultimately show ?thesis by (simp add: qt_relative_def word_checked_sub_def word_saturating_sub_def)
qed

lemma lossy_texts: "field_ok f \<Longrightarrow> text_from_utf8_lossy (text_bytes (hf_value f)) = hf_value f \<and>
    text_from_utf8_lossy (text_bytes (hf_name f)) = hf_name f"
  by (auto simp: field_ok_def text_ok_def text_from_utf8_lossy_of utf8_lossy_id)

lemma insert_instruction_field:
  assumes "qencoder_ok en" "field_ok f" "match_ok en f matched"
  shows "ei_ok (insert_instruction en f matched)" "ei_field (qe_table en) (insert_instruction en f matched) = Some f"
proof -
  show "ei_ok (insert_instruction en f matched)"
    using assms(2) by (auto simp: insert_instruction_def ei_ok_def field_ok_def split: option.split)
  have "a < qt_inserted (qe_table en)" if "a < qe_known en" for a
    using assms(1) less_le_trans [OF that] by (simp add: qencoder_ok_def)
  moreover have "qt_get (qe_table en) a = qt_at (qe_table en) (unat a)" for a
    using assms(1) by (simp add: qencoder_ok_def qt_get_spec)
  moreover have "\<exists>g. found = Some g \<and> hf_name g = hf_name f" if "names_field found exact f" for found exact
    using that by (auto simp: names_field_def)
  ultimately show "ei_field (qe_table en) (insert_instruction en f matched) = Some f"
    using assms(3) lossy_texts [OF assms(2)]
    by (fastforce simp: insert_instruction_def ei_field_def match_ok_def reference_ok_def relative_of_absolute
        split: option.splits bool.splits)
qed

text \<open>An instruction is never longer than the table holds its field to be.\<close>

lemma literal_shorter_length:
  assumes "literal_ok p flags v"
  shows "length (literal_encode_shorter v p flags) \<le> 11 + length v"
proof -
  have "min p MAX_PREFIX_BITS = p" using assms by (simp add: literal_ok_def MAX_PREFIX_BITS_def)
  moreover have "length (encode_sized v []) = encoded_len v" using length_huff_encode [of v] by (simp add: huff_encode_def)
  ultimately show ?thesis
    using int_encode_length [OF literal_flags(1) [OF assms], of "word_of_nat (length v)"]
      int_encode_length [OF literal_flags(3) [OF assms], of "word_of_nat (encoded_len v)"]
    by (auto simp: literal_encode_shorter_def Let_def)
qed

lemma insert_instruction_length:
  assumes "field_ok f"
  shows "length (ei_encode (insert_instruction en f matched)) \<le> field_size f"
proof -
  have short: "length (text_bytes (hf_value f)) < 2 ^ 60" "length (text_bytes (hf_name f)) < 2 ^ 60"
    using assms by (simp_all add: field_ok_def)
  have len: "text_len (hf_value f) = length (text_bytes (hf_value f))" "text_len (hf_name f) = length (text_bytes (hf_name f))"
    using assms text_ok_len by (auto simp: field_ok_def)
  have ints: "length (int_encode index 6 (0x80 OR bit_octet s 6)) \<le> 11" for index s
    by (rule int_encode_length) (simp add: q_flags_ok)
  note lits = literal_shorter_length [OF q_literal_ok(1) [OF short(1)]] literal_shorter_length [OF q_literal_ok(3) [OF short(2)]]
  show ?thesis
  proof (cases matched)
    case None
    then show ?thesis using lits by (simp add: insert_instruction_def field_size_def OVERHEAD_def len)
  next
    case (Some r)
    obtain s index exact where r: "r = (s, index, exact)" by (cases r) auto
    obtain j where j: "insert_instruction en f matched = InsertWithNameReference s j (text_bytes (hf_value f))"
      by (simp add: insert_instruction_def Some r)
    show ?thesis using lits(1) ints [of j s] by (simp add: j field_size_def OVERHEAD_def len)
  qed
qed

lemma qe_insert_cases:
  assumes "qencoder_ok en" "field_ok f" "match_ok en f matched"
  obtains "qe_insert f matched en = (en, False)"
  | "qt_admits (qe_table en) f (qe_referenced en)"
    "qe_insert f matched en = (en\<lparr> qe_out := qe_out en @ ei_encode (insert_instruction en f matched),
       qe_table := fst (qt_insert f (qe_table en)) \<rparr>, True)"
proof (cases "qt_admits (qe_table en) f (qe_referenced en)")
  case True
  then show ?thesis using that(2)
    by (auto simp: qe_insert_def insert_instruction_def Let_def bit_octet_def split: option.split prod.split)
next
  case False
  then show ?thesis using that(1) by (simp add: qe_insert_def)
qed

subsection \<open>The matching loop\<close>

text \<open>What the loop keeps, from the encoder it starts with to the one it has come to.\<close>

definition advances :: "nat \<Rightarrow> u64 \<times> qencoder \<Rightarrow> u64 \<times> qencoder \<Rightarrow> bool" where
  "advances n s s' \<longleftrightarrow>
     (case (s, s') of ((required, en), (required', en')) \<Rightarrow>
        qencoder_ok en' \<and> required \<le> required' \<and> (required \<le> qe_known en \<longrightarrow> required' \<le> qe_known en) \<and>
        en' = en\<lparr> qe_table := qe_table en', qe_out := qe_out en', qe_floor := qe_floor en' \<rparr> \<and>
        qe_floor en' \<le> qe_floor en \<and> qe_referenced en' \<le> qe_referenced en \<and>
        (\<forall>i g. unat (qe_referenced en) \<le> i \<longrightarrow> qt_at (qe_table en) i = Some g \<longrightarrow> qt_at (qe_table en') i = Some g) \<and>
        qt_capacity (qe_table en') = qt_capacity (qe_table en) \<and>
        (\<exists>out k. k \<le> n \<and> qe_out en' = qe_out en @ out \<and> unat (qt_inserted (qe_table en')) = unat (qt_inserted (qe_table en)) + k \<and>
           (\<forall>limit. queued limit (qe_table en) out k (qe_table en'))))"

text \<open>A reference a block still relies on, and the one its insert count comes from.\<close>

definition reference_held :: "qencoder \<Rightarrow> u64 \<Rightarrow> header_field \<Rightarrow> qreference option \<Rightarrow> bool" where
  "reference_held en required f matched \<longleftrightarrow> reference_ok (qe_table en) required f matched \<and>
     (\<forall>absolute exact. matched = Some (False, absolute, exact) \<longrightarrow> qe_floor en \<le> absolute)"

definition count_held :: "qencoder \<Rightarrow> u64 \<Rightarrow> bool" where
  "count_held en required \<longleftrightarrow>
     required = 0 \<or> (\<exists>a. required = a + 1 \<and> a < required \<and> qe_floor en \<le> a \<and> qt_at (qe_table en) (unat a) \<noteq> None)"

lemma qe_referenced_mono:
  "qe_sections en' = qe_sections en \<Longrightarrow> qe_floor en' \<le> qe_floor en \<Longrightarrow> qe_referenced en' \<le> qe_referenced en"
  by (simp add: qe_referenced_def min.coboundedI2 min_le_iff_disj)

lemma advances_refl: "qencoder_ok en \<Longrightarrow> advances 0 (required, en) (required, en)"
  using queued_none by (fastforce simp: advances_def)

lemma advances_weaken: "advances n s s' \<Longrightarrow> n \<le> m \<Longrightarrow> advances m s s'"
  unfolding advances_def by (auto intro: order_trans)

text \<open>What a block relies on outlives the insertions that follow.\<close>

lemma reference_held_advances:
  assumes "advances n (required, en) (required', en')" "reference_held en required f matched"
  shows "reference_held en' required' f matched"
proof -
  have *: "required \<le> required'" "qe_floor en' \<le> qe_floor en"
    "\<And>i g. unat (qe_referenced en) \<le> i \<Longrightarrow> qt_at (qe_table en) i = Some g \<Longrightarrow> qt_at (qe_table en') i = Some g"
    using assms(1) by (auto simp: advances_def)
  show ?thesis
  proof (cases "\<exists>a exact. matched = Some (False, a, exact)")
    case True
    then obtain a exact where m: "matched = Some (False, a, exact)" by blast
    then have a: "a < required" "names_field (qt_at (qe_table en) (unat a)) exact f" "qe_floor en \<le> a"
      using assms(2) by (auto simp: reference_held_def reference_ok_def)
    have "qe_referenced en \<le> a" using qe_referenced_le(1) a(3) by (rule order_trans)
    then have "names_field (qt_at (qe_table en') (unat a)) exact f"
      using a(2) * (3) by (auto simp: names_field_def word_le_nat_alt)
    then show ?thesis using a * (1,2) m by (auto simp: reference_held_def reference_ok_def intro: less_le_trans order_trans)
  next
    case False
    then show ?thesis using assms(2) by (auto simp: reference_held_def reference_ok_def split: option.splits bool.splits)
  qed
qed

lemma count_held_advances:
  assumes "advances n (r, en) (r', en')" "count_held en required"
  shows "count_held en' required"
proof (cases "required = 0")
  case False
  then obtain a g where a: "required = a + 1" "a < required" "qe_floor en \<le> a" "qt_at (qe_table en) (unat a) = Some g"
    using assms(2) by (auto simp: count_held_def)
  have "qe_referenced en \<le> a" using qe_referenced_le(1) a(3) by (rule order_trans)
  then have "qt_at (qe_table en') (unat a) = Some g" "qe_floor en' \<le> a"
    using a assms(1) by (auto simp: advances_def word_le_nat_alt)
  then show ?thesis using a by (auto simp: count_held_def)
qed (simp add: count_held_def)

lemma advances_trans:
  assumes "advances n s s'" "advances m s' s''"
  shows "advances (n + m) s s''"
proof -
  obtain r en r' en' r'' en'' where s: "s = (r, en)" "s' = (r', en')" "s'' = (r'', en'')" by (metis prod.exhaust)
  obtain out k others l where out: "k \<le> n" "l \<le> m" "qe_out en' = qe_out en @ out" "qe_out en'' = qe_out en' @ others"
    "unat (qt_inserted (qe_table en')) = unat (qt_inserted (qe_table en)) + k"
    "unat (qt_inserted (qe_table en'')) = unat (qt_inserted (qe_table en')) + l"
    "\<forall>limit. queued limit (qe_table en) out k (qe_table en')" "\<forall>limit. queued limit (qe_table en') others l (qe_table en'')"
    using assms unfolding advances_def s by auto
  have q: "\<exists>out k. k \<le> n + m \<and> qe_out en'' = qe_out en @ out \<and> unat (qt_inserted (qe_table en'')) = unat (qt_inserted (qe_table en)) + k \<and>
      (\<forall>limit. queued limit (qe_table en) out k (qe_table en''))"
    using out(1-6) queued_trans [OF spec [OF out(7)] spec [OF out(8)]]
    by (intro exI [of _ "out @ others"] exI [of _ "k + l"]) simp
  have en: "en'' = en'\<lparr> qe_table := qe_table en'', qe_out := qe_out en'', qe_floor := qe_floor en'' \<rparr>"
    "en' = en\<lparr> qe_table := qe_table en', qe_out := qe_out en', qe_floor := qe_floor en' \<rparr>"
    using assms unfolding advances_def s by auto
  then have same: "qe_known en' = qe_known en" "en'' = en\<lparr> qe_table := qe_table en'', qe_out := qe_out en'', qe_floor := qe_floor en'' \<rparr>"
    by (cases en, cases en', cases en'', simp)+
  have ref: "qe_referenced en' \<le> qe_referenced en" "qe_referenced en'' \<le> qe_referenced en'"
    and keep: "\<And>i g. unat (qe_referenced en) \<le> i \<Longrightarrow> qt_at (qe_table en) i = Some g \<Longrightarrow> qt_at (qe_table en') i = Some g"
      "\<And>i g. unat (qe_referenced en') \<le> i \<Longrightarrow> qt_at (qe_table en') i = Some g \<Longrightarrow> qt_at (qe_table en'') i = Some g"
    and order: "r \<le> r'" "r' \<le> r''" "r \<le> qe_known en \<longrightarrow> r' \<le> qe_known en" "r' \<le> qe_known en' \<longrightarrow> r'' \<le> qe_known en'"
      "qe_floor en' \<le> qe_floor en" "qe_floor en'' \<le> qe_floor en'"
    and "qencoder_ok en''" "qt_capacity (qe_table en'') = qt_capacity (qe_table en)"
    using assms unfolding advances_def s by simp_all
  moreover have "unat (qe_referenced en') \<le> unat (qe_referenced en)" using ref(1) by (simp add: word_le_nat_alt)
  then have "qt_at (qe_table en'') i = Some g" if "unat (qe_referenced en) \<le> i" "qt_at (qe_table en) i = Some g" for i g
    using keep that by (meson order_trans)
  moreover have "r \<le> r''" "qe_floor en'' \<le> qe_floor en" "qe_referenced en'' \<le> qe_referenced en"
    using order ref by (auto intro: order_trans)
  ultimately show ?thesis using q same unfolding advances_def s by auto
qed

lemma qt_insert_fields_ok:
  assumes "qt_ok t" "qt_fits t f" "unat (qt_inserted t) + 1 < 2 ^ 64" "field_ok f" "\<forall>g\<in>set (qt_fields t). field_ok g"
  shows "\<forall>g\<in>set (qt_fields (fst (qt_insert f t))). field_ok g"
  using assms(4,5) set_mono_prefix [OF fit_prefix [of field_size "qt_capacity t - field_size f" "qt_fields t"]]
  by (auto simp: qt_insert_spec [OF assms(1-3)])

lemma qe_insert_advances:
  assumes "qencoder_ok en" "field_ok f" "match_ok en f matched" "unat (qt_inserted (qe_table en)) + 1 < 2 ^ 64"
  shows "advances 1 (required, en) (required, fst (qe_insert f matched en))"
  using assms(1-3)
proof (cases rule: qe_insert_cases)
  case 1
  then show ?thesis using advances_trans [OF advances_refl [OF assms(1)] advances_refl [OF assms(1)], of required]
    advances_refl [OF assms(1), of required] by (fastforce simp: advances_def)
next
  case 2
  let ?t = "qe_table en"
  have ok: "qt_ok ?t" "\<forall>g\<in>set (qt_fields ?t). field_ok g" "qt_fits ?t f" and known: "qe_known en \<le> qt_inserted ?t"
    using assms(1) 2(1) by (simp_all add: qencoder_ok_def qt_admits_def)
  note ins = qt_insert_spec [OF ok(1,3) assms(4)]
  have one: "queued limit ?t (ei_encode (insert_instruction en f matched)) 1 (fst (qt_insert f ?t))" for limit
    using queued_one [OF insert_instruction_field [OF assms(1-3)] ok(3) insert_instruction_length [OF assms(2)]] .
  have "qe_known en \<le> qt_inserted (fst (qt_insert f ?t))"
    using known ins(4) unfolding word_le_nat_alt by simp
  then have "qencoder_ok (fst (qe_insert f matched en))"
    unfolding 2(2) using ins(2) qt_insert_fields_ok [OF ok(1,3) assms(4,2) ok(2)] by (simp add: qencoder_ok_def)
  moreover have "qt_at (fst (qt_insert f ?t)) i = Some g" if "unat (qe_referenced en) \<le> i" "qt_at ?t i = Some g" for i g
    using qt_admits_keeps [OF ok(1) 2(1) assms(4) that] .
  moreover have "qe_referenced (fst (qe_insert f matched en)) = qe_referenced en" unfolding 2(2) by (simp add: qe_referenced_def)
  ultimately show ?thesis using one ins unfolding advances_def 2(2) by (auto intro!: exI [of _ 1])
qed

lemma qe_match_field_step:
  assumes "qencoder_ok en" "field_ok f" "unat (qt_inserted (qe_table en)) + 1 < 2 ^ 64"
    and "qe_match_field tracked f (required, en) = ((required', en'), matched)"
  shows "advances 1 (required, en) (required', en')" "reference_held en' required' f matched"
    "count_held en required \<Longrightarrow> count_held en' required'"
proof -
  obtain any where m: "qe_match tracked f en = (matched, any)"
    using assms(4) by (auto simp: qe_match_field_def Let_def split: prod.splits)
  have ok: "match_ok en f matched" using qe_match_sound [OF assms(1,2) m] .
  define mid where "mid = (case matched of Some (False, absolute, _) \<Rightarrow>
      (max required (word_saturating_add absolute 1), en\<lparr> qe_floor := min (qe_floor en) absolute \<rparr>) | _ \<Rightarrow> (required, en))"
  obtain r1 en1 where mid: "mid = (r1, en1)" by fastforce
  have succ: "word_saturating_add a 1 = a + 1" "unat (a + 1) = unat a + 1" if "a < qe_known en" for a
  proof -
    have "unat a + 1 < 2 ^ 64" using that unat_less_64 [of "qe_known en"] by (simp add: word_less_nat_alt)
    then show "word_saturating_add a 1 = a + 1" "unat (a + 1) = unat a + 1"
      by (simp_all add: word_saturating_add_def checked_add_unat unat_word_ariths)
  qed
  have below: "a + 1 \<le> qe_known en" if "a < qe_known en" for a
    using succ(2) [OF that] that by (simp add: word_le_nat_alt word_less_nat_alt)
  have mid_cases: "r1 = required \<and> en1 = en \<and> (\<forall>a exact. matched \<noteq> Some (False, a, exact)) \<or>
      (\<exists>a exact. matched = Some (False, a, exact) \<and> a < qe_known en \<and> r1 = max required (a + 1) \<and>
        en1 = en\<lparr> qe_floor := min (qe_floor en) a \<rparr>)"
    using mid ok succ(1) unfolding mid_def match_ok_def reference_ok_def by (fastforce split: option.splits bool.splits prod.splits)
  have en1: "qencoder_ok en1" "qe_table en1 = qe_table en" "qe_known en1 = qe_known en"
    "en1 = en\<lparr> qe_floor := qe_floor en1 \<rparr>" "qe_floor en1 \<le> qe_floor en" "qe_out en1 = qe_out en"
    using mid_cases assms(1) by (auto simp: qencoder_ok_def)
  have "qe_referenced en1 \<le> qe_referenced en"
    using en1(4,5) by (intro qe_referenced_mono) (metis qencoder.select_convs(7) qencoder.surjective qencoder.update_convs(8))
  moreover have "required \<le> r1" "required \<le> qe_known en \<longrightarrow> r1 \<le> qe_known en"
    using mid_cases below by auto
  ultimately have adv: "advances 0 (required, en) (r1, en1)"
    using en1 queued_none unfolding advances_def by (auto intro: exI [of _ "[]"])
  have held: "reference_held en1 r1 f matched"
    using mid_cases
  proof (elim disjE exE conjE)
    assume "r1 = required" "\<forall>a exact. matched \<noteq> Some (False, a, exact)"
    then show ?thesis using ok en1(2)
      by (auto simp: reference_held_def match_ok_def reference_ok_def split: option.splits bool.splits)
  next
    fix a exact assume a: "matched = Some (False, a, exact)" "a < qe_known en" "r1 = max required (a + 1)"
      "en1 = en\<lparr> qe_floor := min (qe_floor en) a \<rparr>"
    have "a < a + 1" using succ(2) [OF a(2)] by (simp add: word_less_nat_alt)
    then have "a < r1" using a(3) by (simp add: less_max_iff_disj)
    moreover have "qe_floor en1 \<le> a" using a(4) by simp
    ultimately show ?thesis using ok en1(2) a(1)
      by (auto simp: reference_held_def match_ok_def reference_ok_def split: option.splits bool.splits)
  qed
  have count: "count_held en1 r1" if "count_held en required"
    using mid_cases
  proof (elim disjE exE conjE)
    assume "r1 = required" "en1 = en"
    then show ?thesis using that by simp
  next
    fix a exact assume a: "matched = Some (False, a, exact)" "a < qe_known en" "r1 = max required (a + 1)"
      "en1 = en\<lparr> qe_floor := min (qe_floor en) a \<rparr>"
    have "a < a + 1" using succ(2) [OF a(2)] by (simp add: word_less_nat_alt)
    moreover have "qt_at (qe_table en1) (unat a) \<noteq> None"
      using ok a(1) en1(2) by (auto simp: match_ok_def reference_ok_def names_field_def)
    ultimately have "count_held en1 (a + 1)" using a(4) by (auto simp: count_held_def)
    moreover have "count_held en1 required" using count_held_advances [OF adv that] .
    ultimately show ?thesis using a(3) by (simp add: max_def)
  qed
  have ok1: "match_ok en1 f matched" using ok by (simp add: match_ok_def en1(2,3))
  have result: "required' = r1" "en' = (if tracked \<and> \<not> any \<and> \<not> sensitive f then fst (qe_insert f matched en1) else en1)"
    using assms(4) m mid unfolding mid_def qe_match_field_def by (auto simp: Let_def)
  note adv1 = qe_insert_advances [OF en1(1) assms(2) ok1, unfolded en1(2), OF assms(3)]
  have adv2: "advances 1 (r1, en1) (r1, en')"
    unfolding result(2) using adv1 advances_weaken [OF advances_refl [OF en1(1)], of 1] by simp
  show "advances 1 (required, en) (required', en')" using advances_trans [OF adv adv2] by (simp add: result(1))
  show "reference_held en' required' f matched" using reference_held_advances [OF adv2 held] by (simp add: result(1))
  show "count_held en' required'" if "count_held en required"
    using count_held_advances [OF adv2 count [OF that]] by (simp add: result(1))
qed

text \<open>The whole loop: every reference it chose holds when it is done.\<close>

lemma qe_match_fields_step:
  assumes "qencoder_ok en" "\<forall>f\<in>set fs. field_ok f" "unat (qt_inserted (qe_table en)) + length fs < 2 ^ 64"
    and "qe_match_fields tracked fs (required, en) = ((required', en'), matches)"
  shows "advances (length fs) (required, en) (required', en') \<and> length matches = length fs \<and>
    (\<forall>(f, matched) \<in> set (zip fs matches). reference_held en' required' f matched) \<and>
    (count_held en required \<longrightarrow> count_held en' required')"
  using assms
proof (induction fs arbitrary: required en matches)
  case Nil
  then show ?case by (simp add: advances_refl)
next
  case (Cons f fs)
  obtain r1 en1 m where one: "qe_match_field tracked f (required, en) = ((r1, en1), m)" by (metis prod.exhaust)
  obtain ms where rest: "qe_match_fields tracked fs (r1, en1) = ((required', en'), ms)" and matches: "matches = m # ms"
    using Cons(5) one by (auto split: prod.splits)
  have step: "advances 1 (required, en) (r1, en1)" "reference_held en1 r1 f m" "count_held en required \<longrightarrow> count_held en1 r1"
    using qe_match_field_step [OF _ _ _ one] Cons(2-4) by simp_all
  then have "qencoder_ok en1" "unat (qt_inserted (qe_table en1)) \<le> unat (qt_inserted (qe_table en)) + 1"
    by (auto simp: advances_def)
  then have IH: "advances (length fs) (r1, en1) (required', en') \<and> length ms = length fs \<and>
      (\<forall>(f, matched) \<in> set (zip fs ms). reference_held en' required' f matched) \<and>
      (count_held en1 r1 \<longrightarrow> count_held en' required')"
    using Cons(1) [OF _ _ _ rest] Cons(3,4) by simp
  then have "advances (length (f # fs)) (required, en) (required', en')"
    using advances_trans [OF step(1) conjunct1 [OF IH]] by simp
  moreover have "reference_held en' required' f m" using reference_held_advances [OF conjunct1 [OF IH] step(2)] .
  ultimately show ?case using IH matches step(3) by simp
qed

subsection \<open>The insert count\<close>

lemma prefix_max_entries_unat: "max_capacity < 2 ^ 64 \<Longrightarrow> unat (prefix_max_entries max_capacity) = max_capacity div 32"
proof -
  assume "max_capacity < 2 ^ 64"
  then have "max_capacity div 32 < 2 ^ 64" by (rule order_le_less_trans [OF div_le_dividend])
  then show ?thesis by (simp add: prefix_max_entries_def OVERHEAD_def unat_of_nat)
qed

text \<open>In the window around the decoder's insertions, the count comes back from its remainder.\<close>

lemma window_mod:
  fixes r n m :: nat
  assumes "0 < m" "n < r + m" "r \<le> n + m"
  defines "w \<equiv> (n + m) div (2 * m) * (2 * m) + r mod (2 * m)"
  shows "w = r \<or> w = r + 2 * m \<and> n + m < w"
proof -
  define q where "q = (n + m) div (2 * m)"
  have q: "q * (2 * m) \<le> n + m" "n + m < q * (2 * m) + 2 * m"
    using div_times_less_eq_dividend [of "n + m" "2 * m"] dividend_less_div_times [of "2 * m" "n + m"] assms(1) by (simp_all add: q_def)
  show ?thesis
  proof (cases "q * (2 * m) \<le> r")
    case True
    then have "r div (2 * m) = q" using assms(3) q by (intro div_nat_eqI) (simp_all add: algebra_simps)
    then have "w = r" using div_mult_mod_eq [of r "2 * m"] by (simp add: w_def q_def)
    then show ?thesis ..
  next
    case False
    then obtain p where p: "q = Suc p" by (cases q) simp_all
    have "r div (2 * m) = p" using False assms(2) q unfolding p by (intro div_nat_eqI) (simp_all add: algebra_simps)
    then have "w = r + 2 * m" using div_mult_mod_eq [of r "2 * m"] p by (simp add: w_def q_def [symmetric])
    then show ?thesis using assms(2) by simp
  qed
qed

lemma insert_count_roundtrip:
  assumes "max_capacity < 2 ^ 60" "32 \<le> max_capacity" "0 < required" "unat required \<le> unat inserted + max_capacity div 32"
    "unat inserted < unat required + max_capacity div 32" "unat inserted < 2 ^ 63"
  shows "decode_insert_count (encode_insert_count required max_capacity) inserted max_capacity = Inr required"
proof -
  define m r n where "m = max_capacity div 32" and "r = unat required" and "n = unat inserted"
  define e where "e = prefix_max_entries max_capacity"
  define full where "full = 2 * e"
  have m: "0 < m" "m < 2 ^ 55" and r: "0 < r" "r \<le> n + m" "n < r + m" "n < 2 ^ 63"
    using assms by (simp_all add: m_def r_def n_def unat_gt_0 word_gt_0)
  have e: "unat e = m" using assms(1) by (simp add: e_def m_def prefix_max_entries_unat)
  have full: "unat full = 2 * m" "full \<noteq> 0"
  proof -
    show "unat full = 2 * m" using m(2) e by (simp add: full_def unat_word_ariths)
    then show "full \<noteq> 0" using m(1) by auto
  qed
  define encoded where "encoded = required mod full + 1"
  have rest: "r mod (2 * m) < 2 * m" using m(1) by simp
  then have encoded: "unat encoded = r mod (2 * m) + 1"
    using m(2) full(1) by (simp add: encoded_def unat_word_ariths unat_mod r_def)
  have max_value: "word_saturating_add inserted e = inserted + e" "unat (inserted + e) = n + m"
    using r(4) m(2) e by (simp_all add: word_saturating_add_def checked_add_unat unat_word_ariths n_def)
  define wrapped where "wrapped = (inserted + e) div full * full"
  have le: "(n + m) div (2 * m) * (2 * m) \<le> n + m" by simp
  then have wrapped: "unat wrapped = (n + m) div (2 * m) * (2 * m)"
  proof -
    have "unat ((inserted + e) div full) = (n + m) div (2 * m)" by (simp only: unat_div max_value(2) full(1))
    moreover have "(n + m) div (2 * m) * (2 * m) < 2 ^ LENGTH(64)" by (rule order_le_less_trans [OF le]) (use r(4) m(2) in simp)
    ultimately show ?thesis unfolding wrapped_def using unat_mult_lem [of "(inserted + e) div full" full] full(1) by metis
  qed
  define w where "w = (n + m) div (2 * m) * (2 * m) + r mod (2 * m)"
  have "w < n + m + 2 * m" unfolding w_def by (rule add_le_less_mono [OF le rest])
  then have "w < 2 ^ 64 - 1" using r(4) m(2) by simp
  then have sum: "word_saturating_add wrapped encoded = wrapped + encoded" "unat (wrapped + encoded) = w + 1"
    using wrapped encoded by (simp_all add: word_saturating_add_def checked_add_unat unat_word_ariths w_def)
  then have "1 \<le> wrapped + encoded" by (simp add: word_le_nat_alt)
  define found where "found = word_saturating_sub (wrapped + encoded) 1"
  have found: "unat found = w" using \<open>1 \<le> wrapped + encoded\<close> sum(2) by (simp add: found_def word_saturating_sub_def unat_sub)
  have "w = r \<or> w = r + 2 * m \<and> n + m < w" unfolding w_def using window_mod m(1) r by blast
  then have out: "(if inserted + e < found then found - full else found) = required" "\<not> (inserted + e < found \<and> found \<le> full)"
  proof -
    assume w: "w = r \<or> w = r + 2 * m \<and> n + m < w"
    have "full \<le> found" if "w = r + 2 * m" using that found full(1) by (simp add: word_le_nat_alt)
    then have "unat (found - full) = r" if "w = r + 2 * m" using that found full(1) by (simp add: unat_sub)
    then show "(if inserted + e < found then found - full else found) = required"
      using w found max_value(2) r(2) by (auto simp: word_less_nat_alt r_def intro: unsigned_word_eqI)
    show "\<not> (inserted + e < found \<and> found \<le> full)"
      using w found max_value(2) r(1,2) full(1) by (auto simp: word_less_nat_alt word_le_nat_alt)
  qed
  have "encoded \<noteq> 0" using encoded by auto
  moreover have "\<not> full < encoded" using encoded full(1) rest by (simp add: word_less_nat_alt)
  moreover have "encode_insert_count required max_capacity = encoded"
    using assms(3) full(2) by (auto simp: encode_insert_count_def Let_def full_def e_def encoded_def)
  ultimately show ?thesis
    using out assms(3) full(2) max_value(1) sum(1)
    unfolding decode_insert_count_def e_def [symmetric] full_def [symmetric] Let_def
    by (auto simp: wrapped_def [symmetric] found_def [symmetric] split: if_splits)
qed

end
