(* ===== verification/Qpack_Run.thy ===== *)
theory Qpack_Run
  imports Qpack_Encode
begin

section \<open>QPACK: every run of a connection\<close>

text \<open>
  The blocks travel apart from the two instruction streams, each at its own pace. An encoder only
  refers to insertions it knows to have arrived and evicts nothing a block still on its way refers
  to, so a block is decoded, whole and at once, whenever it arrives.
\<close>

subsection \<open>A table at an earlier time\<close>

lemma qt_at_set_capacity:
  assumes "qt_ok t" "qt_at (qt_set_capacity c t) i = Some g"
  shows "qt_at t i = Some g"
proof -
  note set = qt_set_capacity_spec [OF assms(1), of c]
  have "length (fit field_size c (qt_fields t)) \<le> length (qt_fields t)" by (rule prefix_length_le [OF fit_prefix])
  then show ?thesis
    using assms(2) nth_prefix [OF fit_prefix, of "unat (qt_inserted t) - Suc i" field_size c "qt_fields t"]
    by (auto simp: qt_at_def set(1,4) Let_def split: if_splits)
qed

text \<open>What the later table holds below the earlier count, the earlier table holds.\<close>

lemma queued_earlier:
  assumes "queued limit t out n u" "qt_ok t" "unat (qt_inserted t) + n < 2 ^ 64"
  shows "qt_ok u \<and> unat (qt_inserted u) = unat (qt_inserted t) + n \<and>
    (\<forall>i g. i < unat (qt_inserted t) \<longrightarrow> qt_at u i = Some g \<longrightarrow> qt_at t i = Some g)"
  using assms
proof (induction rule: queued.induct)
  case (queued_insert i t f out n u)
  have small: "unat (qt_inserted t) + 1 < 2 ^ 64" using queued_insert.prems by simp
  note ins = qt_insert_spec [OF queued_insert.prems(1) queued_insert.hyps(3) small]
  have "unat (qt_inserted (fst (qt_insert f t))) + n < 2 ^ 64" using queued_insert.prems ins(4) by simp
  note IH = queued_insert.IH [OF ins(2) this]
  have "qt_at t i = Some g" if "i < unat (qt_inserted t)" "qt_at u i = Some g" for i g
  proof -
    have "i < unat (qt_inserted (fst (qt_insert f t)))" using that(1) ins(4) by simp
    then have "qt_at (fst (qt_insert f t)) i = Some g" using IH that by blast
    then show ?thesis using qt_at_insert(2) [OF queued_insert.prems(1) queued_insert.hyps(3) small that(1)] by (simp split: if_splits)
  qed
  then show ?case using IH ins(4) by auto
next
  case (queued_resize c t out n u)
  note set = qt_set_capacity_spec [OF queued_resize.prems(1), of c]
  have "unat (qt_inserted (qt_set_capacity c t)) + n < 2 ^ 64" using queued_resize.prems set(4) by simp
  note IH = queued_resize.IH [OF set(2) [OF queued_resize.hyps(2)] this]
  then show ?case using qt_at_set_capacity [OF queued_resize.prems(1)] set(4) by auto
qed simp

subsection \<open>A block on its way\<close>

record flight =
  fl_stream :: u64
  fl_fields :: "header_field list"
  fl_block :: bytes
  fl_section :: "section_sent option"

text \<open>The block was written with these references, and the encoder's table still holds every one.\<close>

definition flight_ok :: "qencoder \<Rightarrow> nat \<Rightarrow> flight \<Rightarrow> bool" where
  "flight_ok en max_size fl \<longleftrightarrow>
     (\<exists>required floor matches.
        fl_block fl = int_encode (encode_insert_count required (qe_max_capacity en)) 8 0 @ int_encode 0 7 0
          @ concat (map (\<lambda>(f, matched). qe_encode_field f matched required) (zip (fl_fields fl) matches)) \<and>
        required \<le> qe_known en \<and> length matches = length (fl_fields fl) \<and> weigh field_size (fl_fields fl) \<le> max_size \<and>
        fl_section fl = (if 0 < required then Some \<lparr> sec_stream = fl_stream fl, sec_required = required, sec_floor = floor \<rparr> else None) \<and>
        count_held (en\<lparr> qe_floor := floor \<rparr>) required \<and>
        (\<forall>(f, matched) \<in> set (zip (fl_fields fl) matches). field_ok f \<and> reference_held (en\<lparr> qe_floor := floor \<rparr>) required f matched))"

lemma flight_section: "flight_ok en m fl \<Longrightarrow> fl_section fl = Some s \<Longrightarrow> sec_stream s = fl_stream fl"
  unfolding flight_ok_def by (elim exE conjE) (simp split: if_splits, metis section_sent.select_convs(1))

text \<open>Where the insert count stands in the table, as seen from the decoder.\<close>

lemma qt_length:
  assumes "qt_ok t"
  shows "length (qt_fields t) \<le> qt_capacity t div 32"
proof -
  have "32 * length fs \<le> weigh field_size fs" for fs :: "header_field list"
    by (induction fs) (auto simp: field_size_def OVERHEAD_def)
  then have "32 * length (qt_fields t) \<le> qt_capacity t" using assms order_trans unfolding qt_ok_def by metis
  then show ?thesis by (simp add: less_eq_div_iff_mult_less_eq mult.commute)
qed

lemma count_window:
  assumes "qt_ok (qe_table en)" "qt_capacity (qe_table en) \<le> qe_max_capacity en" "count_held en required" "0 < required"
  shows "unat (qt_inserted (qe_table en)) < unat required + qe_max_capacity en div 32" "32 \<le> qe_max_capacity en"
proof -
  obtain a where a: "required = a + 1" "a < required" "qt_at (qe_table en) (unat a) \<noteq> None"
    using assms(3,4) by (auto simp: count_held_def)
  have "unat required = unat a + 1" using a(1,2) unatSuc [of a]
    by (cases "1 + a = 0") (auto simp: add.commute word_less_nat_alt)
  moreover have "length (qt_fields (qe_table en)) \<le> qe_max_capacity en div 32"
    using qt_length [OF assms(1)] div_le_mono [OF assms(2), of 32] by simp
  moreover have "unat (qt_inserted (qe_table en)) - 1 - unat a < length (qt_fields (qe_table en))"
    using a(3) by (auto simp: qt_at_def Let_def split: if_splits)
  ultimately show "unat (qt_inserted (qe_table en)) < unat required + qe_max_capacity en div 32" "32 \<le> qe_max_capacity en"
    by (auto simp: Suc_le_eq intro: ccontr)
qed

text \<open>Two ends of a connection, the blocks between them, and the octets each has queued.\<close>

record qlink =
  lk_encoder :: qencoder
  lk_decoder :: qdecoder
  lk_blocks :: "flight list"

definition tables_ok :: "qencoder \<Rightarrow> qdecoder \<Rightarrow> bool" where
  "tables_ok en de \<longleftrightarrow>
     qencoder_ok en \<and> qt_capacity (qe_table en) \<le> qe_max_capacity en \<and> qe_max_capacity en < 2 ^ 60 \<and>
     unat (qt_inserted (qe_table en)) < 2 ^ 63 \<and> qe_floor en = U64_MAX \<and> qe_recv en = [] \<and>
     qt_ok (qd_table de) \<and> qd_max_capacity de = qe_max_capacity en \<and> qd_recv de = [] \<and>
     qe_known en \<le> qt_inserted (qd_table de) \<and>
     (\<exists>n. queued (qd_max_capacity de) (qd_table de) (qe_out en) n (qe_table en) \<and>
        unat (qt_inserted (qd_table de)) + n = unat (qt_inserted (qe_table en)))"

lemma tables_earlier:
  assumes "tables_ok en de" "i < unat (qt_inserted (qd_table de))" "qt_at (qe_table en) i = Some g"
  shows "qt_at (qd_table de) i = Some g"
proof -
  obtain n where "queued (qd_max_capacity de) (qd_table de) (qe_out en) n (qe_table en)"
    "unat (qt_inserted (qd_table de)) + n = unat (qt_inserted (qe_table en))"
    using assms(1) by (auto simp: tables_ok_def)
  with queued_earlier [OF this(1)] assms show ?thesis by (auto simp: tables_ok_def)
qed

lemma flight_decodes:
  assumes "tables_ok en de" "flight_ok en (qd_max_decoded_size de) fl"
  shows "qpack_decode (fl_stream fl) (fl_block fl) de = (qd_cancel (fl_stream fl) de\<lparr> qd_section := length (fl_fields fl) \<rparr>,
    Inr (fl_fields fl, if fl_section fl = None then None else Some (SectionAcknowledgment (fl_stream fl))))"
proof -
  obtain required floor matches where fl:
    "fl_block fl = int_encode (encode_insert_count required (qe_max_capacity en)) 8 0 @ int_encode 0 7 0
      @ concat (map (\<lambda>(f, matched). qe_encode_field f matched required) (zip (fl_fields fl) matches))"
    "required \<le> qe_known en" "length matches = length (fl_fields fl)" "weigh field_size (fl_fields fl) \<le> qd_max_decoded_size de"
    "fl_section fl = None \<longleftrightarrow> required = 0" "count_held (en\<lparr> qe_floor := floor \<rparr>) required"
    "\<forall>(f, matched) \<in> set (zip (fl_fields fl) matches). field_ok f \<and> reference_held (en\<lparr> qe_floor := floor \<rparr>) required f matched"
    using assms(2) by (auto simp: flight_ok_def word_gt_0)
  let ?inserted = "qt_inserted (qd_table de)"
  have ok: "qt_ok (qd_table de)" "qd_max_capacity de = qe_max_capacity en" and here: "required \<le> ?inserted"
    and ahead: "unat ?inserted \<le> unat (qt_inserted (qe_table en))"
    using assms(1) fl(2) by (auto simp: tables_ok_def)
  have count: "decode_insert_count (encode_insert_count required (qe_max_capacity en)) ?inserted (qd_max_capacity de) = Inr required"
  proof (cases "required = 0")
    case False
    then have "0 < required" by (simp add: word_gt_0)
    note window = count_window [OF _ _ fl(6) this]
    show ?thesis unfolding ok(2)
      by (rule insert_count_roundtrip) (use assms(1) window ahead here \<open>0 < required\<close> in \<open>auto simp: tables_ok_def qencoder_ok_def word_le_nat_alt\<close>)
  qed (simp add: decode_insert_count_def encode_insert_count_def Let_def)
  have "reference_ok (qd_table de) required f matched" if "reference_held (en\<lparr> qe_floor := floor \<rparr>) required f matched" for f matched
  proof -
    have "reference_ok (qe_table en) required f matched" using that by (simp add: reference_held_def)
    moreover have "unat a < unat ?inserted" if "a < required" for a using that here by (simp add: word_less_nat_alt word_le_nat_alt)
    ultimately show ?thesis using tables_earlier [OF assms(1)]
      by (fastforce simp: reference_ok_def names_field_def split: option.splits bool.splits)
  qed
  then have refs: "\<forall>(f, matched) \<in> set (zip (fl_fields fl) matches). field_ok f \<and> reference_ok (qd_table de) required f matched"
    using fl(7) by fastforce
  let ?de = "qd_cancel (fl_stream fl) de"
  have loop: "qd_loop ?de required (concat (map (\<lambda>(f, matched). qe_encode_field f matched required) (zip (fl_fields fl) matches))) [] 0
      = Inr (fl_fields fl)"
    using qd_loop_encode [of ?de matches "fl_fields fl" required 0 "[]"] ok refs fl(3,4) by (simp add: qd_cancel_def)
  have zero: "int_encode 0 7 0 = [0]" by code_simp
  have base: "qd_base required False 0 = Inr required" using unat_less_64 [of required] by (simp add: qd_base_def checked_add_unat)
  have q7: "q_int (0 # rest) 7 = Inr (1, 0)" for rest using q_int_encode [of 7 0 0 rest] q_constant_flags by (simp add: zero)
  have "q_int (fl_block fl) 8 = Inr (length (int_encode (encode_insert_count required (qe_max_capacity en)) 8 0),
      encode_insert_count required (qe_max_capacity en))"
    unfolding fl(1) by (rule q_int_encode) (simp add: q_constant_flags)
  then show ?thesis
    unfolding qpack_decode_def using count here fl(5) loop
    by (simp add: fl(1) zero get_at_def nth_append q7 base Let_def word_gt_0 not_less)
qed

subsection \<open>Steps\<close>

text \<open>
  A block is sent; a stretch of whole instructions arrives on either stream, no longer than the
  receiver takes at once; the oldest block of a stream arrives, and its acknowledgment is queued.
\<close>

inductive qlink_step :: "qlink \<Rightarrow> qlink \<Rightarrow> bool" where
  Send: "\<forall>f\<in>set fs. field_ok f \<Longrightarrow> weigh field_size fs \<le> qd_max_decoded_size de \<Longrightarrow>
    unat (qt_inserted (qe_table en)) + length fs < 2 ^ 63 \<Longrightarrow> qpack_encode sid fs en = (en', block) \<Longrightarrow>
    fl = \<lparr> fl_stream = sid, fl_fields = fs, fl_block = block,
      fl_section = (if qe_sections en' = qe_sections en then None else Some (last (qe_sections en'))) \<rparr> \<Longrightarrow>
    qlink_step \<lparr> lk_encoder = en, lk_decoder = de, lk_blocks = fls \<rparr> \<lparr> lk_encoder = en', lk_decoder = de, lk_blocks = fls @ [fl] \<rparr>"
| Insertions: "qe_out en = concat (map ei_encode instructions) @ others \<Longrightarrow> list_all ei_ok instructions \<Longrightarrow>
    length (concat (map ei_encode instructions)) \<le> qd_max_instruction de \<Longrightarrow>
    on_encoder_stream (concat (map ei_encode instructions)) de = (de', r) \<Longrightarrow>
    qlink_step \<lparr> lk_encoder = en, lk_decoder = de, lk_blocks = fls \<rparr>
      \<lparr> lk_encoder = en\<lparr> qe_out := others \<rparr>, lk_decoder = de', lk_blocks = fls \<rparr>"
| Receive: "fl_stream fl \<notin> fl_stream ` set xs \<Longrightarrow>
    qpack_decode (fl_stream fl) (fl_block fl) de = (de', Inr (headers, answer)) \<Longrightarrow>
    qlink_step \<lparr> lk_encoder = en, lk_decoder = de, lk_blocks = xs @ fl # ys \<rparr>
      \<lparr> lk_encoder = en, lk_decoder = qd_queue (case answer of None \<Rightarrow> [] | Some i \<Rightarrow> [i]) de', lk_blocks = xs @ ys \<rparr>"
| Answers: "qd_out de = concat (map di_encode instructions) @ others \<Longrightarrow>
    length (concat (map di_encode instructions)) \<le> qe_max_instruction en \<Longrightarrow>
    on_decoder_stream (concat (map di_encode instructions)) en = (en', r) \<Longrightarrow>
    qlink_step \<lparr> lk_encoder = en, lk_decoder = de, lk_blocks = fls \<rparr>
      \<lparr> lk_encoder = en', lk_decoder = de\<lparr> qd_out := others \<rparr>, lk_blocks = fls \<rparr>"

text \<open>What is on its way back accounts for the sections the encoder still waits for.\<close>

definition of_stream :: "u64 \<Rightarrow> section_sent list \<Rightarrow> section_sent list" where
  "of_stream sid ss = filter (\<lambda>s. sec_stream s = sid) ss"

abbreviation sections_of :: "flight list \<Rightarrow> section_sent list" where
  "sections_of fls \<equiv> List.map_filter fl_section fls"

inductive answered :: "decoder_instruction list \<Rightarrow> section_sent list \<Rightarrow> nat \<Rightarrow> bool" where
  answered_none: "answered [] [] 0"
| answered_insert: "answered is ss n \<Longrightarrow> answered (InsertCountIncrement 1 # is) ss (Suc n)"
| answered_section: "answered is ss n \<Longrightarrow> answered (SectionAcknowledgment (sec_stream s) # is) (s # ss) n"

definition books_ok :: "qencoder \<Rightarrow> qdecoder \<Rightarrow> flight list \<Rightarrow> bool" where
  "books_ok en de fls \<longleftrightarrow>
     (\<forall>s\<in>set (qe_sections en). sec_required s \<le> qe_known en) \<and>
     (\<exists>answers acked n. qd_out de = concat (map di_encode answers) \<and> answered answers acked n \<and>
        unat (qe_known en) + n = unat (qt_inserted (qd_table de)) \<and>
        (\<forall>sid. of_stream sid (qe_sections en) = of_stream sid (acked @ sections_of fls)))"

definition qlink_ok :: "qlink \<Rightarrow> bool" where
  "qlink_ok lk \<longleftrightarrow> tables_ok (lk_encoder lk) (lk_decoder lk) \<and>
     books_ok (lk_encoder lk) (lk_decoder lk) (lk_blocks lk) \<and>
     list_all (flight_ok (lk_encoder lk) (qd_max_decoded_size (lk_decoder lk))) (lk_blocks lk)"

lemma answered_append: "answered is ss n \<Longrightarrow> answered js ts m \<Longrightarrow> answered (is @ js) (ss @ ts) (n + m)"
  by (induction rule: answered.induct) (auto intro: answered.intros)

lemma answered_split:
  assumes "answered (is @ js) ss n"
  obtains ss1 ss2 n1 n2 where "answered is ss1 n1" "answered js ss2 n2" "ss = ss1 @ ss2" "n = n1 + n2"
  using assms
proof (induction "is" arbitrary: ss n thesis)
  case Nil
  then show ?case using answered_none by fastforce
next
  case (Cons i "is")
  from Cons(3) show ?case
  proof (cases rule: answered.cases)
    case (answered_insert is' n')
    then show ?thesis using Cons(1) [of ss n'] Cons(2) answered.answered_insert by (metis (no_types, lifting) add_Suc append_Cons list.inject)
  next
    case (answered_section is' ss' s)
    then show ?thesis using Cons(1) [of ss' n] Cons(2) answered.answered_section by (metis (no_types, lifting) append_Cons list.inject)
  qed simp
qed

lemma of_stream_simps [simp]:
  "of_stream sid [] = []" "of_stream sid (ss @ ts) = of_stream sid ss @ of_stream sid ts"
  "of_stream sid (s # ss) = (if sec_stream s = sid then s # of_stream sid ss else of_stream sid ss)"
  by (simp_all add: of_stream_def)

lemma in_of_stream: "s \<in> set ss \<longleftrightarrow> s \<in> set (of_stream (sec_stream s) ss)"
  by (simp add: of_stream_def)

lemma sections_append: "sections_of (xs @ ys) = sections_of xs @ sections_of ys"
  by (simp add: List.map_filter_def)

text \<open>An acknowledgment takes the oldest section of its stream.\<close>

lemma of_stream_take_first:
  assumes "of_stream sid ss = s # rest"
  obtains offset where "position (\<lambda>t. sec_stream t = sid) ss = Some offset" "ss ! offset = s"
    "of_stream other (take offset ss @ drop (offset + 1) ss) = (if other = sid then rest else of_stream other ss)"
  using assms
proof (induction ss arbitrary: thesis)
  case (Cons t ss)
  show ?case
  proof (cases "sec_stream t = sid")
    case True
    then show ?thesis using Cons(2) [of 0] Cons(3) by auto
  next
    case False
    then obtain offset where "position (\<lambda>t. sec_stream t = sid) ss = Some offset" "ss ! offset = s"
      "of_stream other (take offset ss @ drop (offset + 1) ss) = (if other = sid then rest else of_stream other ss)"
      using Cons(1) Cons(3) by auto
    then show ?thesis using Cons(2) [of "Suc offset"] False by (cases "sec_stream t = other") auto
  qed
qed simp

lemma answers_received:
  assumes "answered is acked n" "\<forall>s\<in>set (qe_sections en). sec_required s \<le> qe_known en" "unat (qe_known en) + n < 2 ^ 64"
    and "\<forall>sid. of_stream sid (qe_sections en) = of_stream sid (acked @ rest)"
  shows "\<exists>ss known. fold on_decoder_instruction is en = en\<lparr> qe_sections := ss, qe_known := known \<rparr> \<and>
    unat known = unat (qe_known en) + n \<and> (\<forall>sid. of_stream sid ss = of_stream sid rest) \<and> set ss \<subseteq> set (qe_sections en)"
  using assms
proof (induction arbitrary: en rule: answered.induct)
  case answered_none
  then show ?case by (intro exI [of _ "qe_sections en"] exI [of _ "qe_known en"]) simp
next
  case (answered_insert "is" ss n)
  let ?en = "en\<lparr> qe_known := qe_known en + 1 \<rparr>"
  have succ: "unat (qe_known en + 1) = unat (qe_known en) + 1" and sat: "word_saturating_add (qe_known en) 1 = qe_known en + 1"
    using answered_insert.prems(2) by (simp_all add: unat_word_ariths word_saturating_add_def checked_add_unat)
  have "qe_known en \<le> qe_known en + 1" using succ by (simp add: word_le_nat_alt)
  then have "\<forall>s\<in>set (qe_sections ?en). sec_required s \<le> qe_known ?en"
    using answered_insert.prems(1) by (auto intro: order_trans)
  moreover have "unat (qe_known ?en) + n < 2 ^ 64" using answered_insert.prems(2) succ by simp
  ultimately have "\<exists>ss known. fold on_decoder_instruction is ?en = ?en\<lparr> qe_sections := ss, qe_known := known \<rparr> \<and>
      unat known = unat (qe_known ?en) + n \<and> (\<forall>sid. of_stream sid ss = of_stream sid rest) \<and> set ss \<subseteq> set (qe_sections ?en)"
    by (intro answered_insert.IH) (use answered_insert.prems(3) in simp_all)
  moreover have "on_decoder_instruction (InsertCountIncrement 1) en = ?en" by (simp add: on_decoder_instruction_def sat)
  ultimately show ?case using succ by simp
next
  case (answered_section "is" ss n s)
  have first: "of_stream (sec_stream s) (qe_sections en) = s # of_stream (sec_stream s) (ss @ rest)"
    using answered_section.prems(3) by simp
  obtain offset where offset: "position (\<lambda>t. sec_stream t = sec_stream s) (qe_sections en) = Some offset" "qe_sections en ! offset = s"
    using of_stream_take_first [OF first] by metis
  define left where "left = take offset (qe_sections en) @ drop (offset + 1) (qe_sections en)"
  have left: "of_stream sid left = of_stream sid (ss @ rest)" for sid
    using of_stream_take_first [OF first, of sid] offset(1) answered_section.prems(3) unfolding left_def
    by (metis (no_types, lifting) of_stream_simps(2,3) append_Cons option.inject)
  have "s \<in> set (qe_sections en)" using first in_of_stream by (metis list.set_intros(1))
  then have "max (qe_known en) (sec_required s) = qe_known en" using answered_section.prems(1) by (simp add: max_absorb1)
  then have step: "on_decoder_instruction (SectionAcknowledgment (sec_stream s)) en = en\<lparr> qe_sections := left \<rparr>"
    using offset by (simp add: on_decoder_instruction_def left_def)
  have sub: "set left \<subseteq> set (qe_sections en)" unfolding left_def using set_take_subset set_drop_subset by force
  have "\<exists>ss known. fold on_decoder_instruction is (en\<lparr> qe_sections := left \<rparr>) = en\<lparr> qe_sections := left \<rparr>\<lparr> qe_sections := ss, qe_known := known \<rparr> \<and>
      unat known = unat (qe_known (en\<lparr> qe_sections := left \<rparr>)) + n \<and> (\<forall>sid. of_stream sid ss = of_stream sid rest) \<and>
      set ss \<subseteq> set (qe_sections (en\<lparr> qe_sections := left \<rparr>))"
    by (intro answered_section.IH) (use answered_section.prems sub left in auto)
  then obtain ts known where "fold on_decoder_instruction is (en\<lparr> qe_sections := left \<rparr>) = en\<lparr> qe_sections := ts, qe_known := known \<rparr>"
    "unat known = unat (qe_known en) + n" "\<forall>sid. of_stream sid ts = of_stream sid rest" "set ts \<subseteq> set left"
    by auto
  then show ?case using sub step by (intro exI [of _ ts] exI [of _ known]) auto
qed

lemma queued_split:
  assumes "queued limit t out n u" "out = concat (map ei_encode is) @ others" "list_all ei_ok is"
  shows "\<exists>mid n1 n2. queued limit t (concat (map ei_encode is)) n1 mid \<and> queued limit mid others n2 u \<and> n = n1 + n2"
  using assms
proof (induction arbitrary: "is" rule: queued.induct)
  case (queued_none t)
  then have "is = []" by (cases "is") simp_all
  then show ?case using queued_none queued.queued_none by fastforce
next
  case (queued_insert i t f out n u)
  show ?case
  proof (cases "is")
    case Nil
    then show ?thesis using queued.queued_insert [OF queued_insert.hyps] queued.queued_none queued_insert.prems by fastforce
  next
    case (Cons j js)
    have "i = j \<and> out = concat (map ei_encode js) @ others"
      using encoder_wire.enc_prefix [where x = i and y = j and r = out] queued_insert.hyps(1) queued_insert.prems Cons by simp
    moreover obtain mid n1 n2 where "queued limit (fst (qt_insert f t)) (concat (map ei_encode js)) n1 mid" "queued limit mid others n2 u" "n = n1 + n2"
      using queued_insert.IH [of js] queued_insert.prems Cons calculation by auto
    moreover have "queued limit t (ei_encode j @ concat (map ei_encode js)) (Suc n1) mid"
      using calculation queued.queued_insert [OF queued_insert.hyps(1-4)] by blast
    ultimately show ?thesis using Cons by (intro exI [of _ mid] exI [of _ "Suc n1"] exI [of _ n2]) simp
  qed
next
  case (queued_resize c t out n u)
  have ok: "ei_ok (SetDynamicTableCapacity c)" using queued_resize.hyps(2) by (simp add: ei_ok_def)
  show ?case
  proof (cases "is")
    case Nil
    then show ?thesis using queued.queued_resize [OF queued_resize.hyps] queued.queued_none queued_resize.prems by fastforce
  next
    case (Cons j js)
    have "SetDynamicTableCapacity c = j \<and> out = concat (map ei_encode js) @ others"
      using encoder_wire.enc_prefix [where x = "SetDynamicTableCapacity c" and y = j and r = out] ok queued_resize.prems Cons
      by (simp del: ei_encode.simps)
    moreover obtain mid n1 n2 where "queued limit (qt_set_capacity c t) (concat (map ei_encode js)) n1 mid" "queued limit mid others n2 u" "n = n1 + n2"
      using queued_resize.IH [of js] queued_resize.prems Cons calculation by auto
    moreover have "queued limit t (ei_encode j @ concat (map ei_encode js)) n1 mid"
      using calculation queued.queued_resize [OF queued_resize.hyps(1,2)] by blast
    ultimately show ?thesis using Cons by (intro exI [of _ mid] exI [of _ n1] exI [of _ n2]) simp
  qed
qed

lemma answers_split:
  "concat (map di_encode answers) = concat (map di_encode is) @ others \<Longrightarrow>
   \<exists>js. answers = is @ js \<and> others = concat (map di_encode js)"
proof (induction "is" arbitrary: answers)
  case (Cons i "is")
  then obtain j js where js: "answers = j # js" by (cases answers) simp_all
  have "j = i \<and> concat (map di_encode js) = concat (map di_encode is) @ others"
    using decoder_wire.enc_prefix [where x = j and y = i and r = "concat (map di_encode js)"] Cons(2) js by simp
  then show ?case using Cons(1) [of js] js by auto
qed auto

subsection \<open>Every step keeps the two ends together\<close>

lemma flight_ok_mono:
  assumes "flight_ok en m fl" "qe_max_capacity en' = qe_max_capacity en" "qe_known en \<le> qe_known en'"
    and "\<And>i g s. fl_section fl = Some s \<Longrightarrow> sec_floor s \<le> i \<Longrightarrow> qt_at (qe_table en) (unat i) = Some g \<Longrightarrow> qt_at (qe_table en') (unat i) = Some g"
  shows "flight_ok en' m fl"
proof -
  obtain required floor matches where fl:
    "fl_block fl = int_encode (encode_insert_count required (qe_max_capacity en)) 8 0 @ int_encode 0 7 0
      @ concat (map (\<lambda>(f, matched). qe_encode_field f matched required) (zip (fl_fields fl) matches))"
    "required \<le> qe_known en" "length matches = length (fl_fields fl)" "weigh field_size (fl_fields fl) \<le> m"
    "fl_section fl = (if 0 < required then Some \<lparr> sec_stream = fl_stream fl, sec_required = required, sec_floor = floor \<rparr> else None)"
    "count_held (en\<lparr> qe_floor := floor \<rparr>) required"
    "\<forall>(f, matched) \<in> set (zip (fl_fields fl) matches). field_ok f \<and> reference_held (en\<lparr> qe_floor := floor \<rparr>) required f matched"
    using assms(1) by (auto simp: flight_ok_def)
  have keep: "qt_at (qe_table en') (unat i) = Some g" if "0 < required" "floor \<le> i" "qt_at (qe_table en) (unat i) = Some g" for i g
    using assms(4) fl(5) that by auto
  have count: "count_held (en'\<lparr> qe_floor := floor \<rparr>) required"
    using fl(6) keep by (fastforce simp: count_held_def word_gt_0)
  have held: "reference_held (en'\<lparr> qe_floor := floor \<rparr>) required f matched"
    if held: "reference_held (en\<lparr> qe_floor := floor \<rparr>) required f matched" for f matched
  proof (cases "\<exists>a exact. matched = Some (False, a, exact)")
    case True
    then obtain a exact where "matched = Some (False, a, exact)" by blast
    moreover have "0 < required" if "a < required" using that by (cases "required = 0") (auto simp: word_gt_0)
    ultimately show ?thesis using held keep by (auto simp: reference_held_def reference_ok_def names_field_def)
  next
    case False
    then show ?thesis using held by (auto simp: reference_held_def reference_ok_def split: option.splits bool.splits)
  qed
  have "\<forall>(f, matched) \<in> set (zip (fl_fields fl) matches). field_ok f \<and> reference_held (en'\<lparr> qe_floor := floor \<rparr>) required f matched"
    using fl(7) held by auto
  moreover have "required \<le> qe_known en'" using fl(2) assms(3) by (rule order_trans)
  ultimately show ?thesis using count fl(1,3-5) unfolding flight_ok_def assms(2)
    by - (intro exI [of _ required] exI [of _ floor] exI [of _ matches] conjI; assumption)
qed

lemma send_ok:
  assumes "tables_ok en de" "books_ok en de fls" "list_all (flight_ok en (qd_max_decoded_size de)) fls"
    and "\<forall>f\<in>set fs. field_ok f" "weigh field_size fs \<le> qd_max_decoded_size de"
    and "unat (qt_inserted (qe_table en)) + length fs < 2 ^ 63" "qpack_encode sid fs en = (en', block)"
    and "fl = \<lparr> fl_stream = sid, fl_fields = fs, fl_block = block,
      fl_section = (if qe_sections en' = qe_sections en then None else Some (last (qe_sections en'))) \<rparr>"
  shows "tables_ok en' de \<and> books_ok en' de (fls @ [fl]) \<and> list_all (flight_ok en' (qd_max_decoded_size de)) (fls @ [fl])"
proof -
  define tracked where "tracked = (length (qe_sections en) < qe_max_outstanding en)"
  have start: "en\<lparr> qe_floor := U64_MAX \<rparr> = en" using assms(1) by (cases en) (simp add: tables_ok_def)
  obtain required en1 matches where match: "qe_match_fields tracked fs (0, en) = ((required, en1), matches)" by (metis prod.exhaust)
  have "unat (qt_inserted (qe_table en)) + length fs < 2 ^ 64" using assms(6) by simp
  from qe_match_fields_step [OF _ assms(4) this match]
  have adv: "advances (length fs) (0, en) (required, en1)" and len: "length matches = length fs"
    and held: "\<forall>(f, matched) \<in> set (zip fs matches). reference_held en1 required f matched" and count: "count_held en1 required"
    using assms(1) by (auto simp: tables_ok_def count_held_def)
  define s where "s = \<lparr> sec_stream = sid, sec_required = required, sec_floor = qe_floor en1 \<rparr>"
  have en': "en' = (if 0 < required then en1\<lparr> qe_sections := qe_sections en1 @ [s] \<rparr> else en1)\<lparr> qe_floor := U64_MAX \<rparr>"
    and block: "block = int_encode (encode_insert_count required (qe_max_capacity en1)) 8 0 @ int_encode 0 7 0
      @ concat (map (\<lambda>(f, matched). qe_encode_field f matched required) (zip fs matches))"
    using assms(7) match unfolding qpack_encode_def start tracked_def [symmetric] by (auto simp: Let_def s_def)
  obtain out k where out: "k \<le> length fs" "qe_out en1 = qe_out en @ out"
    "unat (qt_inserted (qe_table en1)) = unat (qt_inserted (qe_table en)) + k" "\<forall>limit. queued limit (qe_table en) out k (qe_table en1)"
    using adv by (auto simp: advances_def)
  have en1: "en1 = en\<lparr> qe_table := qe_table en1, qe_out := qe_out en1, qe_floor := qe_floor en1 \<rparr>" "qencoder_ok en1"
    "qt_capacity (qe_table en1) = qt_capacity (qe_table en)" "required \<le> qe_known en"
    using adv by (auto simp: advances_def)
  have same: "qe_known en1 = qe_known en" "qe_max_capacity en1 = qe_max_capacity en" "qe_sections en1 = qe_sections en" "qe_recv en1 = qe_recv en"
    by (subst en1(1), simp)+
  have fl: "fl_section fl = (if 0 < required then Some s else None)" "fl_stream fl = sid" "fl_fields fl = fs" "fl_block fl = block"
    unfolding assms(8) en' by (simp_all add: same)
  have view: "qe_table en' = qe_table en1" "qe_out en' = qe_out en1" "qe_known en' = qe_known en" "qe_max_capacity en' = qe_max_capacity en"
    "qe_recv en' = qe_recv en" "qe_sections en' = (if 0 < required then qe_sections en @ [s] else qe_sections en)" "qe_floor en' = U64_MAX"
    unfolding en' by (simp_all add: same)
  obtain n where n: "queued (qd_max_capacity de) (qd_table de) (qe_out en) n (qe_table en)"
    "unat (qt_inserted (qd_table de)) + n = unat (qt_inserted (qe_table en))"
    using assms(1) by (auto simp: tables_ok_def)
  have "queued (qd_max_capacity de) (qd_table de) (qe_out en') (n + k) (qe_table en')"
    using queued_trans [OF n(1) spec [OF out(4)]] by (simp add: view out(2))
  then have tables: "tables_ok en' de"
    using assms(1,6) en1(2,3) out n(2) unfolding tables_ok_def by (auto simp: view qencoder_ok_def same)
  obtain answers acked m where books: "qd_out de = concat (map di_encode answers)" "answered answers acked m"
    "unat (qe_known en) + m = unat (qt_inserted (qd_table de))"
    "\<forall>sid. of_stream sid (qe_sections en) = of_stream sid (acked @ sections_of fls)" "\<forall>s\<in>set (qe_sections en). sec_required s \<le> qe_known en"
    using assms(2) by (auto simp: books_ok_def)
  have "books_ok en' de (fls @ [fl])"
    unfolding books_ok_def view using books en1(4)
    by (intro conjI exI [of _ answers] exI [of _ acked] exI [of _ m]) (auto simp: s_def fl sections_append List.map_filter_simps)
  moreover have "list_all (flight_ok en' (qd_max_decoded_size de)) fls"
  proof -
    have "flight_ok en' (qd_max_decoded_size de) x" if x: "x \<in> set fls" for x
    proof (rule flight_ok_mono)
      show "flight_ok en (qd_max_decoded_size de) x" using assms(3) x by (simp add: list_all_iff)
      show "qe_max_capacity en' = qe_max_capacity en" "qe_known en \<le> qe_known en'" by (simp_all add: view)
      fix i g t assume t: "fl_section x = Some t" "sec_floor t \<le> i" "qt_at (qe_table en) (unat i) = Some g"
      have "t \<in> set (sections_of fls)" using x t(1) by (auto simp: List.map_filter_def intro!: image_eqI)
      then have "t \<in> set (qe_sections en)" using books(4) in_of_stream [of t] by (metis of_stream_simps(2) in_set_conv_decomp append_is_Nil_conv Un_iff set_append)
      then have "qe_referenced en \<le> i" using qe_referenced_le(2) t(2) order_trans by blast
      then show "qt_at (qe_table en') (unat i) = Some g" using adv t(3) by (auto simp: advances_def view word_le_nat_alt)
    qed
    then show ?thesis by (simp add: list_all_iff)
  qed
  moreover have "flight_ok en' (qd_max_decoded_size de) fl"
  proof -
    have "en'\<lparr> qe_floor := qe_floor en1 \<rparr> = en1\<lparr> qe_sections := qe_sections en' \<rparr>" unfolding en' by (cases en1) simp
    moreover have "reference_held (en1\<lparr> qe_sections := ss \<rparr>) r f matched = reference_held en1 r f matched"
      "count_held (en1\<lparr> qe_sections := ss \<rparr>) r = count_held en1 r" for ss r f matched
      by (simp_all add: reference_held_def count_held_def)
    moreover have "\<forall>(f, matched) \<in> set (zip fs matches). field_ok f \<and> reference_held en1 required f matched"
      using held assms(4) by (auto dest: set_zip_leftD)
    ultimately show ?thesis unfolding flight_ok_def fl view
      using block same len assms(5) en1(4) count
      by (intro exI [of _ required] exI [of _ "qe_floor en1"] exI [of _ matches] conjI) (simp_all add: s_def)
  qed
  ultimately show ?thesis using tables by simp
qed

lemma insertions_arrive:
  assumes "tables_ok en de" "qe_out en = concat (map ei_encode is) @ others" "list_all ei_ok is"
    and "length (concat (map ei_encode is)) \<le> qd_max_instruction de"
  obtains mid n where
    "on_encoder_stream (concat (map ei_encode is)) de =
       (de\<lparr> qd_table := mid, qd_out := qd_out de @ concat (map di_encode (replicate n (InsertCountIncrement 1))) \<rparr>, Inr ())"
    "qt_ok mid" "unat (qt_inserted mid) = unat (qt_inserted (qd_table de)) + n" "others = [] \<longrightarrow> mid = qe_table en"
    "\<forall>out. tables_ok (en\<lparr> qe_out := others \<rparr>) (de\<lparr> qd_table := mid, qd_out := out \<rparr>)"
proof -
  obtain n where n: "queued (qd_max_capacity de) (qd_table de) (qe_out en) n (qe_table en)"
    "unat (qt_inserted (qd_table de)) + n = unat (qt_inserted (qe_table en))"
    using assms(1) by (auto simp: tables_ok_def)
  obtain mid n1 n2 where mid: "queued (qd_max_capacity de) (qd_table de) (concat (map ei_encode is)) n1 mid"
    "queued (qd_max_capacity de) mid others n2 (qe_table en)" "n = n1 + n2"
    using queued_split [OF n(1) assms(2,3)] by blast
  have small: "unat (qt_inserted (qd_table de)) + n1 < 2 ^ 64" using n(2) mid(3) unat_less_64 [of "qt_inserted (qe_table en)"] by simp
  have later: "qt_ok mid" "unat (qt_inserted mid) = unat (qt_inserted (qd_table de)) + n1"
    using queued_earlier [OF mid(1) _ small] assms(1) by (auto simp: tables_ok_def)
  have recv: "qd_recv de = []" "de\<lparr> qd_recv := [] \<rparr> = de" using assms(1) by (simp_all add: tables_ok_def)
  have "on_encoder_stream (concat (map ei_encode is)) de =
      (de\<lparr> qd_table := mid, qd_out := qd_out de @ concat (map di_encode (replicate n1 (InsertCountIncrement 1))) \<rparr>, Inr ())"
    using encoder_stream_loop_queued [of "qd_max_capacity de" "qd_table de" "concat (map ei_encode is)" n1 mid
        "de\<lparr> qd_recv := concat (map ei_encode is) \<rparr>"] mid(1) assms(4) recv
    by (cases de) (simp add: on_encoder_stream_def Let_def)
  moreover have "mid = qe_table en" if "others = []" using mid(2) that by (cases rule: queued.cases) simp_all
  moreover have "qe_known en \<le> qt_inserted mid" using assms(1) later(2) by (simp add: tables_ok_def word_le_nat_alt)
  then have "tables_ok (en\<lparr> qe_out := others \<rparr>) (de\<lparr> qd_table := mid, qd_out := out \<rparr>)" for out
    using assms(1) later mid(2,3) n(2) by (auto simp: tables_ok_def qencoder_ok_def)
  ultimately show thesis using that later by blast
qed

lemma answered_increments: "answered (replicate n (InsertCountIncrement 1)) [] n"
  by (induction n) (auto intro: answered.intros)

lemma flights_same:
  assumes "list_all (flight_ok en m) fls" "qe_max_capacity en' = qe_max_capacity en" "qe_known en \<le> qe_known en'" "qe_table en' = qe_table en"
  shows "list_all (flight_ok en' m) fls"
  using assms flight_ok_mono [of en m _ en'] by (auto simp: list_all_iff)

lemma insertions_ok:
  assumes "tables_ok en de" "books_ok en de fls" "list_all (flight_ok en (qd_max_decoded_size de)) fls"
    and "qe_out en = concat (map ei_encode is) @ others" "list_all ei_ok is" "length (concat (map ei_encode is)) \<le> qd_max_instruction de"
    and "on_encoder_stream (concat (map ei_encode is)) de = (de', r)"
  shows "tables_ok (en\<lparr> qe_out := others \<rparr>) de' \<and> books_ok (en\<lparr> qe_out := others \<rparr>) de' fls \<and>
    list_all (flight_ok (en\<lparr> qe_out := others \<rparr>) (qd_max_decoded_size de')) fls"
proof -
  obtain answers acked m where books: "qd_out de = concat (map di_encode answers)" "answered answers acked m"
    "unat (qe_known en) + m = unat (qt_inserted (qd_table de))"
    "\<forall>sid. of_stream sid (qe_sections en) = of_stream sid (acked @ sections_of fls)" "\<forall>s\<in>set (qe_sections en). sec_required s \<le> qe_known en"
    using assms(2) by (auto simp: books_ok_def)
  let ?out = "\<lambda>n. qd_out de @ concat (map di_encode (replicate n (InsertCountIncrement 1)))"
  note whole = insertions_arrive [OF assms(1,4-6)]
  obtain mid n where arrive: "on_encoder_stream (concat (map ei_encode is)) de = (de\<lparr> qd_table := mid, qd_out := ?out n \<rparr>, Inr ())"
    "unat (qt_inserted mid) = unat (qt_inserted (qd_table de)) + n"
    "\<forall>out. tables_ok (en\<lparr> qe_out := others \<rparr>) (de\<lparr> qd_table := mid, qd_out := out \<rparr>)"
  proof (rule whole)
    fix mid n assume "on_encoder_stream (concat (map ei_encode is)) de = (de\<lparr> qd_table := mid, qd_out := ?out n \<rparr>, Inr ())"
      "unat (qt_inserted mid) = unat (qt_inserted (qd_table de)) + n"
      "\<forall>out. tables_ok (en\<lparr> qe_out := others \<rparr>) (de\<lparr> qd_table := mid, qd_out := out \<rparr>)"
    then show thesis by (rule that)
  qed
  have de': "de' = de\<lparr> qd_table := mid, qd_out := ?out n \<rparr>" using assms(7) arrive(1) by simp
  have "answered (answers @ replicate n (InsertCountIncrement 1)) acked (m + n)"
    using answered_append [OF books(2) answered_increments] by simp
  then have "books_ok (en\<lparr> qe_out := others \<rparr>) de' fls"
    unfolding books_ok_def de' using books arrive(2)
    by (intro conjI exI [of _ "answers @ replicate n (InsertCountIncrement 1)"] exI [of _ acked] exI [of _ "m + n"]) simp_all
  moreover have "list_all (flight_ok (en\<lparr> qe_out := others \<rparr>) (qd_max_decoded_size de')) fls"
    unfolding de' by (rule flights_same [of en]) (use assms(3) in simp_all)
  ultimately show ?thesis using arrive(3) de' by simp
qed

lemma receive_ok:
  assumes "tables_ok en de" "books_ok en de (xs @ fl # ys)" "list_all (flight_ok en (qd_max_decoded_size de)) (xs @ fl # ys)"
    and "fl_stream fl \<notin> fl_stream ` set xs"
    and "qpack_decode (fl_stream fl) (fl_block fl) de = (de', Inr (headers, answer))"
  defines "de'' \<equiv> qd_queue (case answer of None \<Rightarrow> [] | Some i \<Rightarrow> [i]) de'"
  shows "tables_ok en de'' \<and> books_ok en de'' (xs @ ys) \<and> list_all (flight_ok en (qd_max_decoded_size de'')) (xs @ ys)"
proof -
  obtain answers acked m where books: "qd_out de = concat (map di_encode answers)" "answered answers acked m"
    "unat (qe_known en) + m = unat (qt_inserted (qd_table de))"
    "\<forall>sid. of_stream sid (qe_sections en) = of_stream sid (acked @ sections_of (xs @ fl # ys))"
    "\<forall>s\<in>set (qe_sections en). sec_required s \<le> qe_known en"
    using assms(2) by (auto simp: books_ok_def)
  have decoded: "de' = qd_cancel (fl_stream fl) de\<lparr> qd_section := length (fl_fields fl) \<rparr>"
    "answer = (if fl_section fl = None then None else Some (SectionAcknowledgment (fl_stream fl)))"
    using flight_decodes [OF assms(1), of fl] assms(3,5) by auto
  have de'': "qd_table de'' = qd_table de" "qd_max_capacity de'' = qd_max_capacity de" "qd_recv de'' = qd_recv de"
    "qd_max_decoded_size de'' = qd_max_decoded_size de"
    "qd_out de'' = qd_out de @ (if fl_section fl = None then [] else di_encode (SectionAcknowledgment (fl_stream fl)))"
    unfolding de''_def decoded by (simp_all add: qd_queue_def qd_cancel_def)
  have tables: "tables_ok en de''" using assms(1) by (auto simp: tables_ok_def de'')
  have streams: "sec_stream t = fl_stream x" if "x \<in> set (xs @ fl # ys)" "fl_section x = Some t" for x t
    using assms(3) that by (intro flight_section) (auto simp: list_all_iff)
  have "books_ok en de'' (xs @ ys)"
  proof (cases "fl_section fl")
    case None
    then show ?thesis unfolding books_ok_def de'' using books
      by (intro conjI exI [of _ answers] exI [of _ acked] exI [of _ m]) (simp_all add: sections_append List.map_filter_simps)
  next
    case (Some s)
    have s: "sec_stream s = fl_stream fl" using streams [of fl s] Some by simp
    have none: "of_stream (sec_stream s) (sections_of xs) = []"
    proof -
      have "sec_stream t \<noteq> sec_stream s" if "t \<in> set (sections_of xs)" for t
        using that streams assms(4) s by (fastforce simp: List.map_filter_def)
      then show ?thesis by (simp add: of_stream_def filter_empty_conv)
    qed
    have "answered (answers @ [SectionAcknowledgment (sec_stream s)]) (acked @ [s]) (m + 0)"
      by (intro answered_append books(2) answered_section answered_none)
    then show ?thesis unfolding books_ok_def de'' using books none Some s
      by (intro conjI exI [of _ "answers @ [SectionAcknowledgment (sec_stream s)]"] exI [of _ "acked @ [s]"] exI [of _ m])
        (auto simp: sections_append List.map_filter_simps)
  qed
  then show ?thesis using tables assms(3) de''(4) by simp
qed

lemma answers_arrive:
  assumes "tables_ok en de" "books_ok en de fls" "qd_out de = concat (map di_encode is) @ others"
    and "length (concat (map di_encode is)) \<le> qe_max_instruction en"
  obtains ss known where "on_decoder_stream (concat (map di_encode is)) en = (en\<lparr> qe_sections := ss, qe_known := known \<rparr>, Inr ())"
    "qe_known en \<le> known" "known \<le> qt_inserted (qd_table de)"
    "books_ok (en\<lparr> qe_sections := ss, qe_known := known \<rparr>) (de\<lparr> qd_out := others \<rparr>) fls"
proof -
  obtain answers acked m where books: "qd_out de = concat (map di_encode answers)" "answered answers acked m"
    "unat (qe_known en) + m = unat (qt_inserted (qd_table de))"
    "\<forall>sid. of_stream sid (qe_sections en) = of_stream sid (acked @ sections_of fls)" "\<forall>s\<in>set (qe_sections en). sec_required s \<le> qe_known en"
    using assms(2) by (auto simp: books_ok_def)
  obtain js where js: "answers = is @ js" "others = concat (map di_encode js)"
    using answers_split [of answers "is" others] books(1) assms(3) by auto
  obtain acked1 acked2 m1 m2 where parts: "answered is acked1 m1" "answered js acked2 m2" "acked = acked1 @ acked2" "m = m1 + m2"
    using answered_split [OF books(2) [unfolded js(1)]] by metis
  have small: "unat (qe_known en) + m1 < 2 ^ 64" using books(3) parts(4) unat_less_64 [of "qt_inserted (qd_table de)"] by simp
  obtain ss known where got: "fold on_decoder_instruction is en = en\<lparr> qe_sections := ss, qe_known := known \<rparr>"
    "unat known = unat (qe_known en) + m1" "\<forall>sid. of_stream sid ss = of_stream sid (acked2 @ sections_of fls)" "set ss \<subseteq> set (qe_sections en)"
    using answers_received [OF parts(1) books(5) small] books(4) parts(3) by (metis append_assoc)
  have recv: "qe_recv en = []" using assms(1) by (simp add: tables_ok_def)
  have le: "qe_known en \<le> known" "known \<le> qt_inserted (qd_table de)" using got(2) books(3) parts(4) by (simp_all add: word_le_nat_alt)
  have other: "fold on_decoder_instruction is (en\<lparr> qe_recv := r \<rparr>) = fold on_decoder_instruction is en\<lparr> qe_recv := r \<rparr>" for r "is"
  proof (induction "is" arbitrary: en)
    case (Cons i "is")
    have "on_decoder_instruction i (en\<lparr> qe_recv := r \<rparr>) = on_decoder_instruction i en\<lparr> qe_recv := r \<rparr>"
      by (auto simp: on_decoder_instruction_def qe_cancel_def split: decoder_instruction.split option.split)
    then show ?case using Cons by simp
  qed simp
  have "on_decoder_stream (concat (map di_encode is)) en = (en\<lparr> qe_sections := ss, qe_known := known \<rparr>, Inr ())"
  proof -
    have "en\<lparr> qe_sections := ss, qe_known := known, qe_recv := [] \<rparr> = en\<lparr> qe_sections := ss, qe_known := known \<rparr>"
      using recv by (cases en) simp
    then show ?thesis using assms(4) by (simp add: on_decoder_stream_def Let_def recv decoder_stream_loop_encode other got(1))
  qed
  moreover have "books_ok (en\<lparr> qe_sections := ss, qe_known := known \<rparr>) (de\<lparr> qd_out := others \<rparr>) fls"
    unfolding books_ok_def using js(2) parts(2,4) got(2-4) books(3,5) le(1)
    by (intro conjI exI [of _ js] exI [of _ acked2] exI [of _ m2]) (auto intro: order_trans)
  ultimately show thesis using that le by blast
qed

lemma qlink_ok_parts: "qlink_ok \<lparr> lk_encoder = en, lk_decoder = de, lk_blocks = fls \<rparr> \<longleftrightarrow>
    tables_ok en de \<and> books_ok en de fls \<and> list_all (flight_ok en (qd_max_decoded_size de)) fls"
  by (simp add: qlink_ok_def)

lemma qlink_step_ok:
  assumes "qlink_step lk lk'" "qlink_ok lk"
  shows "qlink_ok lk'"
  using assms
proof (cases rule: qlink_step.cases)
  case (Send fs de en sid en' block fl fls)
  have ok: "tables_ok en de" "books_ok en de fls" "list_all (flight_ok en (qd_max_decoded_size de)) fls"
    using assms(2) unfolding Send(1) qlink_ok_parts by auto
  show ?thesis unfolding Send(2) qlink_ok_parts by (rule send_ok [OF ok Send(3-7)])
next
  case (Insertions en instructions others de de' r fls)
  have ok: "tables_ok en de" "books_ok en de fls" "list_all (flight_ok en (qd_max_decoded_size de)) fls"
    using assms(2) unfolding Insertions(1) qlink_ok_parts by auto
  show ?thesis unfolding Insertions(2) qlink_ok_parts by (rule insertions_ok [OF ok Insertions(3-6)])
next
  case (Receive fl xs de de' headers answer en ys)
  have ok: "tables_ok en de" "books_ok en de (xs @ fl # ys)" "list_all (flight_ok en (qd_max_decoded_size de)) (xs @ fl # ys)"
    using assms(2) unfolding Receive(1) qlink_ok_parts by auto
  show ?thesis unfolding Receive(2) qlink_ok_parts by (rule receive_ok [OF ok Receive(3,4)])
next
  case (Answers de instructions others en en' r fls)
  have ok: "tables_ok en de" "books_ok en de fls" "list_all (flight_ok en (qd_max_decoded_size de)) fls"
    using assms(2) unfolding Answers(1) qlink_ok_parts by auto
  obtain ss known where got: "en' = en\<lparr> qe_sections := ss, qe_known := known \<rparr>" "qe_known en \<le> known"
    "known \<le> qt_inserted (qd_table de)" "books_ok (en\<lparr> qe_sections := ss, qe_known := known \<rparr>) (de\<lparr> qd_out := others \<rparr>) fls"
    by (rule answers_arrive [OF ok(1,2) Answers(3,4)]) (use Answers(5) that in auto)
  have "unat (qt_inserted (qd_table de)) \<le> unat (qt_inserted (qe_table en))" using ok(1) by (auto simp: tables_ok_def)
  then have "known \<le> qt_inserted (qe_table en)" using got(3) by (simp add: word_le_nat_alt)
  then have "tables_ok en' (de\<lparr> qd_out := others \<rparr>)"
    using ok(1) got(3) by (auto simp: tables_ok_def qencoder_ok_def got(1))
  moreover have "list_all (flight_ok en' (qd_max_decoded_size de)) fls"
    using got(2) by (intro flights_same [OF ok(3)]) (simp_all add: got(1))
  ultimately show ?thesis using got(4) unfolding Answers(2) qlink_ok_parts got(1) by simp
qed

text \<open>Where a connection begins: a decoder that permits a table, and an encoder that has learnt of it.\<close>

definition qlink_start :: "nat \<Rightarrow> qlink" where
  "qlink_start max_capacity =
     (let (en, instruction) = qe_set_max_capacity max_capacity qencoder_new
      in \<lparr> lk_encoder = qe_queue (case instruction of None \<Rightarrow> [] | Some i \<Rightarrow> [i]) en,
           lk_decoder = qd_set_max_capacity max_capacity qdecoder_new, lk_blocks = [] \<rparr>)"

lemma qt_set_capacity_new: "qt_set_capacity c (qt_new d) = qt_new c"
  by (subst qt_set_capacity_def, subst qt_evict.simps) (simp add: qt_new_def)

lemma qlink_start_ok:
  assumes "max_capacity < 2 ^ 60"
  shows "qlink_ok (qlink_start max_capacity)"
proof -
  let ?c = "min max_capacity 4096" and ?lk = "qlink_start max_capacity"
  have lk: "qe_table (lk_encoder ?lk) = qt_new ?c" "qe_known (lk_encoder ?lk) = 0" "qe_max_capacity (lk_encoder ?lk) = max_capacity"
    "qe_floor (lk_encoder ?lk) = U64_MAX" "qe_recv (lk_encoder ?lk) = []" "qe_sections (lk_encoder ?lk) = []"
    "qe_out (lk_encoder ?lk) = (if ?c = 0 then [] else ei_encode (SetDynamicTableCapacity ?c))"
    by (simp_all add: qlink_start_def qe_set_max_capacity_def qencoder_new_def Let_def Q_CAPACITY_LIMIT_def qe_queue_def
        qt_set_capacity_new del: ei_encode.simps) (auto simp: qt_new_def min_def)
  have de: "qd_table (lk_decoder ?lk) = qt_new ?c" "qd_max_capacity (lk_decoder ?lk) = max_capacity" "qd_recv (lk_decoder ?lk) = []"
    "qd_out (lk_decoder ?lk) = []" "lk_blocks ?lk = []"
    by (simp_all add: qlink_start_def qe_set_max_capacity_def qencoder_new_def Let_def qd_set_max_capacity_def
        qdecoder_new_def qt_set_capacity_new Q_MAX_CAPACITY_def) (simp_all add: qt_new_def min_def)
  have new: "qt_ok (qt_new ?c)" "qt_fields (qt_new ?c) = []" "qt_inserted (qt_new ?c) = 0" "qt_capacity (qt_new ?c) = ?c"
    by (simp_all add: qt_new_ok USIZE_MAX_def) (simp_all add: qt_new_def)
  have "queued max_capacity (qt_new ?c) (ei_encode (SetDynamicTableCapacity ?c) @ []) 0 (qt_new ?c)"
    by (rule queued_resize) (simp_all add: USIZE_MAX_def qt_set_capacity_new queued_none)
  then have "queued max_capacity (qt_new ?c) (qe_out (lk_encoder ?lk)) 0 (qt_new ?c)"
    using queued_none unfolding lk by simp
  then have "tables_ok (lk_encoder ?lk) (lk_decoder ?lk)"
    using assms new unfolding tables_ok_def lk de qencoder_ok_def by auto
  moreover have "books_ok (lk_encoder ?lk) (lk_decoder ?lk) []"
    unfolding books_ok_def lk de new using answered_none
    by (intro conjI exI [of _ "[]"] exI [of _ 0]) (simp_all add: List.map_filter_simps)
  ultimately show ?thesis by (simp add: qlink_ok_def de)
qed

lemma qlink_run_ok: "qlink_step\<^sup>*\<^sup>* (qlink_start max_capacity) lk \<Longrightarrow> max_capacity < 2 ^ 60 \<Longrightarrow> qlink_ok lk"
  by (induction rule: rtranclp_induct) (auto intro: qlink_start_ok qlink_step_ok)

subsection \<open>No instruction is too long\<close>

text \<open>
  A receiver refuses an instruction stream that has more waiting than it takes at once. An encoder
  never asks for a table of more than 4096 octets, however much it is permitted, and writes no
  insertion in more octets than the table has room for: every instruction it queues can be delivered.
\<close>

definition short_ok :: "qlink \<Rightarrow> bool" where
  "short_ok lk \<longleftrightarrow> qe_max_instruction (lk_encoder lk) = Q_MAX_INSTRUCTION \<and>
     qd_max_instruction (lk_decoder lk) = Q_MAX_INSTRUCTION \<and> qt_capacity (qe_table (lk_encoder lk)) \<le> Q_CAPACITY_LIMIT \<and>
     (\<exists>is. qe_out (lk_encoder lk) = concat (map ei_encode is) \<and> (\<forall>i\<in>set is. ei_ok i \<and> length (ei_encode i) \<le> Q_MAX_INSTRUCTION))"

lemma queued_short:
  assumes "queued limit t out n u" "qt_ok t" "unat (qt_inserted t) + n < 2 ^ 64" "qt_capacity t \<le> limit"
  shows "\<exists>is. out = concat (map ei_encode is) \<and> (\<forall>i\<in>set is. ei_ok i \<and> length (ei_encode i) \<le> max 11 limit)"
  using assms
proof (induction rule: queued.induct)
  case (queued_none t)
  show ?case by (intro exI [of _ "[]"]) simp
next
  case (queued_insert i t f out n u)
  have small: "unat (qt_inserted t) + 1 < 2 ^ 64" using queued_insert.prems by simp
  note ins = qt_insert_spec [OF queued_insert.prems(1) queued_insert.hyps(3) small]
  have "unat (qt_inserted (fst (qt_insert f t))) + n < 2 ^ 64" "qt_capacity (fst (qt_insert f t)) \<le> limit"
    using queued_insert.prems ins(3,4) by simp_all
  from queued_insert.IH [OF ins(2) this] obtain js
    where js: "out = concat (map ei_encode js)" "\<forall>i\<in>set js. ei_ok i \<and> length (ei_encode i) \<le> max 11 limit" by blast
  have "length (ei_encode i) \<le> max 11 limit"
    using queued_insert.hyps(3,4) queued_insert.prems(3) by (simp add: qt_fits_def)
  then show ?case using js queued_insert.hyps(1) by (intro exI [of _ "i # js"]) simp
next
  case (queued_resize c t out n u)
  note set = qt_set_capacity_spec [OF queued_resize.prems(1), of c]
  have "unat (qt_inserted (qt_set_capacity c t)) + n < 2 ^ 64" "qt_capacity (qt_set_capacity c t) \<le> limit"
    using queued_resize.prems(2) queued_resize.hyps(1) set(3,4) by simp_all
  from queued_resize.IH [OF set(2) [OF queued_resize.hyps(2)] this] obtain js
    where js: "out = concat (map ei_encode js)" "\<forall>i\<in>set js. ei_ok i \<and> length (ei_encode i) \<le> max 11 limit" by blast
  have "length (int_encode (word_of_nat c) 5 0x20) \<le> 11" by (rule int_encode_length) (simp add: q_constant_flags)
  moreover have "ei_ok (SetDynamicTableCapacity c)" using queued_resize.hyps(2) by (simp add: ei_ok_def)
  ultimately show ?case using js by (intro exI [of _ "SetDynamicTableCapacity c # js"]) simp
qed

lemma instructions_split:
  "concat (map ei_encode is) = concat (map ei_encode js) @ others \<Longrightarrow> list_all ei_ok is \<Longrightarrow> list_all ei_ok js \<Longrightarrow>
   \<exists>ks. is = js @ ks \<and> others = concat (map ei_encode ks)"
proof (induction js arbitrary: "is")
  case (Cons j js)
  then obtain i ks where ks: "is = i # ks" by (cases "is") simp_all
  have "i = j \<and> concat (map ei_encode ks) = concat (map ei_encode js) @ others"
    using encoder_wire.enc_prefix [where x = i and y = j and r = "concat (map ei_encode ks)"] Cons(2-) ks by simp
  then show ?case using Cons(1) [of ks] Cons(3,4) ks by auto
qed auto

lemma short_start: "short_ok (qlink_start max_capacity)"
proof -
  let ?lk = "qlink_start max_capacity"
  have lk: "qe_max_instruction (lk_encoder ?lk) = Q_MAX_INSTRUCTION" "qd_max_instruction (lk_decoder ?lk) = Q_MAX_INSTRUCTION"
    "qe_table (lk_encoder ?lk) = qt_new (min max_capacity 4096)"
    "qe_out (lk_encoder ?lk) = concat (map ei_encode (if min max_capacity 4096 = 0 then [] else [SetDynamicTableCapacity (min max_capacity 4096)]))"
    by (simp_all add: qlink_start_def qe_set_max_capacity_def qencoder_new_def Let_def Q_CAPACITY_LIMIT_def qe_queue_def
        qd_set_max_capacity_def qdecoder_new_def qt_set_capacity_new del: ei_encode.simps) (auto simp: qt_new_def min_def)
  have "length (int_encode (word_of_nat (min max_capacity 4096)) 5 0x20) \<le> 11"
    by (rule int_encode_length) (simp add: q_constant_flags)
  then show ?thesis unfolding short_ok_def lk
    by (intro conjI exI [of _ "if min max_capacity 4096 = 0 then [] else [SetDynamicTableCapacity (min max_capacity 4096)]"])
      (simp_all add: ei_ok_def USIZE_MAX_def Q_MAX_INSTRUCTION_def min_le_iff_disj, simp add: qt_new_def Q_CAPACITY_LIMIT_def)
qed

lemma short_send:
  assumes "tables_ok en de" "short_ok \<lparr> lk_encoder = en, lk_decoder = de, lk_blocks = fls \<rparr>" "\<forall>f\<in>set fs. field_ok f"
    and "unat (qt_inserted (qe_table en)) + length fs < 2 ^ 63" "qpack_encode sid fs en = (en', block)"
  shows "short_ok \<lparr> lk_encoder = en', lk_decoder = de, lk_blocks = fls' \<rparr>"
proof -
  define tracked where "tracked = (length (qe_sections en) < qe_max_outstanding en)"
  have start: "en\<lparr> qe_floor := U64_MAX \<rparr> = en" using assms(1) by (cases en) (simp add: tables_ok_def)
  obtain required en1 matches where match: "qe_match_fields tracked fs (0, en) = ((required, en1), matches)" by (metis prod.exhaust)
  have ok: "qencoder_ok en" "qt_ok (qe_table en)" using assms(1) by (simp_all add: tables_ok_def qencoder_ok_def)
  have small: "unat (qt_inserted (qe_table en)) + length fs < 2 ^ 64" using assms(4) by simp
  have adv: "advances (length fs) (0, en) (required, en1)" using qe_match_fields_step [OF ok(1) assms(3) small match] by blast
  then have en1: "en1 = en\<lparr> qe_table := qe_table en1, qe_out := qe_out en1, qe_floor := qe_floor en1 \<rparr>"
    "qt_capacity (qe_table en1) = qt_capacity (qe_table en)" by (auto simp: advances_def)
  obtain out k where out: "k \<le> length fs" "qe_out en1 = qe_out en @ out" "queued Q_CAPACITY_LIMIT (qe_table en) out k (qe_table en1)"
    using adv by (auto simp: advances_def)
  have view: "qe_table en' = qe_table en1" "qe_out en' = qe_out en1" "qe_max_instruction en' = qe_max_instruction en1"
    using assms(5) match unfolding qpack_encode_def start tracked_def [symmetric] by (auto simp: Let_def)
  have same: "qe_max_instruction en1 = qe_max_instruction en" by (subst en1(1)) simp
  have capacity: "qt_capacity (qe_table en) \<le> Q_CAPACITY_LIMIT" using assms(2) by (simp add: short_ok_def)
  have "unat (qt_inserted (qe_table en)) + k < 2 ^ 64" using small out(1) by simp
  from queued_short [OF out(3) ok(2) this capacity] obtain js
    where js: "out = concat (map ei_encode js)" "\<forall>i\<in>set js. ei_ok i \<and> length (ei_encode i) \<le> Q_MAX_INSTRUCTION"
    by (force simp: Q_CAPACITY_LIMIT_def Q_MAX_INSTRUCTION_def)
  obtain "is" where "is": "qe_out en = concat (map ei_encode is)" "\<forall>i\<in>set is. ei_ok i \<and> length (ei_encode i) \<le> Q_MAX_INSTRUCTION"
    using assms(2) by (auto simp: short_ok_def)
  show ?thesis using assms(2) js "is" unfolding short_ok_def
    by (intro conjI exI [of _ "is @ js"]) (auto simp: view same out(2) en1(2))
qed

lemma short_step:
  assumes "qlink_step lk lk'" "qlink_ok lk" "short_ok lk"
  shows "short_ok lk'"
  using assms
proof (cases rule: qlink_step.cases)
  case (Send fs de en sid en' block fl fls)
  have "tables_ok en de" using assms(2) unfolding Send(1) qlink_ok_parts by blast
  then show ?thesis unfolding Send(2) by (rule short_send [OF _ assms(3) [unfolded Send(1)] Send(3,5,6)])
next
  case (Insertions en instructions others de de' r fls)
  have ok: "tables_ok en de" using assms(2) unfolding Insertions(1) qlink_ok_parts by auto
  note short = assms(3) [unfolded Insertions(1) short_ok_def qlink.select_convs]
  obtain "is" where "is": "qe_out en = concat (map ei_encode is)" "\<forall>i\<in>set is. ei_ok i \<and> length (ei_encode i) \<le> Q_MAX_INSTRUCTION"
    using short by blast
  then have "list_all ei_ok is" by (simp add: list_all_iff)
  then obtain ks where ks: "is = instructions @ ks" "others = concat (map ei_encode ks)"
    using instructions_split [of "is" instructions others] "is"(1) Insertions(3,4) by auto
  have "qd_max_instruction de' = qd_max_instruction de"
    by (rule insertions_arrive [OF ok Insertions(3-5)]) (use Insertions(6) in auto)
  then show ?thesis using short "is"(2) ks unfolding Insertions(2) short_ok_def
    by (intro conjI exI [of _ ks]) auto
next
  case (Receive fl xs de de' headers answer en ys)
  have "tables_ok en de" "flight_ok en (qd_max_decoded_size de) fl" using assms(2) unfolding Receive(1) qlink_ok_parts by auto
  note decodes = flight_decodes [OF this]
  then show ?thesis using assms(3) Receive(4) unfolding Receive(1,2) short_ok_def
    by (auto simp: qd_queue_def qd_cancel_def)
next
  case (Answers de instructions others en en' r fls)
  have ok: "tables_ok en de" "books_ok en de fls" using assms(2) unfolding Answers(1) qlink_ok_parts by auto
  obtain ss known where "en' = en\<lparr> qe_sections := ss, qe_known := known \<rparr>"
    by (rule answers_arrive [OF ok Answers(3,4)]) (use Answers(5) that in auto)
  then show ?thesis using assms(3) unfolding Answers(1,2) short_ok_def by simp
qed

lemma qlink_run_short:
  assumes "qlink_step\<^sup>*\<^sup>* (qlink_start max_capacity) lk" "max_capacity < 2 ^ 60"
  shows "qlink_ok lk \<and> short_ok lk"
  using assms(1)
  by (induction rule: rtranclp_induct) (auto intro: qlink_start_ok short_start qlink_step_ok short_step assms(2))

subsection \<open>Running dry\<close>

text \<open>Nothing on its way, on any of the three.\<close>

definition qlink_quiet :: "qlink \<Rightarrow> bool" where
  "qlink_quiet lk \<longleftrightarrow> lk_blocks lk = [] \<and> qe_out (lk_encoder lk) = [] \<and> qd_out (lk_decoder lk) = []"

lemma quiet_settled:
  assumes "qlink_ok lk" "qlink_quiet lk"
  shows "qe_sections (lk_encoder lk) = [] \<and> qe_known (lk_encoder lk) = qt_inserted (qd_table (lk_decoder lk)) \<and>
    qd_table (lk_decoder lk) = qe_table (lk_encoder lk)"
proof -
  obtain answers acked n where books: "concat (map di_encode answers) = []" "answered answers acked n"
    "unat (qe_known (lk_encoder lk)) + n = unat (qt_inserted (qd_table (lk_decoder lk)))"
    "\<forall>sid. of_stream sid (qe_sections (lk_encoder lk)) = of_stream sid acked"
    using assms by (auto simp: qlink_ok_def books_ok_def qlink_quiet_def List.map_filter_simps)
  have "answers = []" using books(1) by (cases answers) simp_all
  then have "answered [] acked n" using books(2) by simp
  then have none: "acked = []" "n = 0" by (cases rule: answered.cases; simp)+
  have "s \<notin> set (qe_sections (lk_encoder lk))" for s using books(4) none(1) in_of_stream [of s "qe_sections (lk_encoder lk)"] by simp
  then have "qe_sections (lk_encoder lk) = []" by (cases "qe_sections (lk_encoder lk)") auto
  moreover obtain m where "queued (qd_max_capacity (lk_decoder lk)) (qd_table (lk_decoder lk)) [] m (qe_table (lk_encoder lk))"
    using assms by (auto simp: qlink_ok_def tables_ok_def qlink_quiet_def)
  then have "qd_table (lk_decoder lk) = qe_table (lk_encoder lk)" by (cases rule: queued.cases) simp_all
  ultimately show ?thesis using books(3) none(2) by (simp add: word_unat_eq_iff)
qed

text \<open>The queued instructions arrive one after another.\<close>

lemma drain_insertions:
  assumes "qlink_ok \<lparr> lk_encoder = en, lk_decoder = de, lk_blocks = fls \<rparr>" "qe_out en = concat (map ei_encode is)"
    and "\<forall>i\<in>set is. ei_ok i \<and> length (ei_encode i) \<le> qd_max_instruction de"
  shows "\<exists>de'. qlink_step\<^sup>*\<^sup>* \<lparr> lk_encoder = en, lk_decoder = de, lk_blocks = fls \<rparr>
    \<lparr> lk_encoder = en\<lparr> qe_out := [] \<rparr>, lk_decoder = de', lk_blocks = fls \<rparr>"
  using assms
proof (induction "is" arbitrary: en de)
  case Nil
  then have "en\<lparr> qe_out := [] \<rparr> = en" by (cases en) simp
  then show ?case by auto
next
  case (Cons i "is")
  let ?others = "concat (map ei_encode is)" and ?lk = "\<lparr> lk_encoder = en, lk_decoder = de, lk_blocks = fls \<rparr>"
  have ok: "tables_ok en de" using Cons(2) unfolding qlink_ok_parts by auto
  have out: "qe_out en = concat (map ei_encode [i]) @ ?others" "list_all ei_ok [i]"
    "length (concat (map ei_encode [i])) \<le> qd_max_instruction de"
    using Cons(3,4) by simp_all
  obtain de1 r where arrive: "on_encoder_stream (concat (map ei_encode [i])) de = (de1, r)" by fastforce
  let ?en = "en\<lparr> qe_out := ?others \<rparr>"
  have same: "qd_max_instruction de1 = qd_max_instruction de"
    by (rule insertions_arrive [OF ok out]) (use arrive in auto)
  have step: "qlink_step ?lk \<lparr> lk_encoder = ?en, lk_decoder = de1, lk_blocks = fls \<rparr>"
    by (rule Insertions [OF out arrive])
  obtain de' where "qlink_step\<^sup>*\<^sup>* \<lparr> lk_encoder = ?en, lk_decoder = de1, lk_blocks = fls \<rparr>
      \<lparr> lk_encoder = ?en\<lparr> qe_out := [] \<rparr>, lk_decoder = de', lk_blocks = fls \<rparr>"
    using Cons(1) [OF qlink_step_ok [OF step Cons(2)]] Cons(4) same by auto
  then show ?case using converse_rtranclp_into_rtranclp [of qlink_step, OF step] by auto
qed

lemma drain_blocks:
  assumes "qlink_ok \<lparr> lk_encoder = en, lk_decoder = de, lk_blocks = fls \<rparr>"
  shows "\<exists>de'. qlink_step\<^sup>*\<^sup>* \<lparr> lk_encoder = en, lk_decoder = de, lk_blocks = fls \<rparr> \<lparr> lk_encoder = en, lk_decoder = de', lk_blocks = [] \<rparr>"
  using assms
proof (induction fls arbitrary: de)
  case (Cons fl fls)
  have ok: "tables_ok en de" "flight_ok en (qd_max_decoded_size de) fl" using Cons(2) by (simp_all add: qlink_ok_def)
  let ?answer = "if fl_section fl = None then None else Some (SectionAcknowledgment (fl_stream fl))"
  let ?de = "qd_queue (case ?answer of None \<Rightarrow> [] | Some i \<Rightarrow> [i]) (qd_cancel (fl_stream fl) de\<lparr> qd_section := length (fl_fields fl) \<rparr>)"
  have step: "qlink_step \<lparr> lk_encoder = en, lk_decoder = de, lk_blocks = fl # fls \<rparr> \<lparr> lk_encoder = en, lk_decoder = ?de, lk_blocks = fls \<rparr>"
    using Receive [of fl "[]", OF _ flight_decodes [OF ok], of en fls] by simp
  then show ?case using Cons(1) [OF qlink_step_ok [OF step Cons(2)]] converse_rtranclp_into_rtranclp [of qlink_step] by blast
qed auto

lemma di_encode_short: "length (di_encode i) \<le> 11"
  using q_constant_flags by (cases i) (simp_all add: int_encode_length)

lemma drain_answers:
  assumes "qlink_ok \<lparr> lk_encoder = en, lk_decoder = de, lk_blocks = [] \<rparr>" "qd_out de = concat (map di_encode is)" "11 \<le> qe_max_instruction en"
  shows "\<exists>en'. qlink_step\<^sup>*\<^sup>* \<lparr> lk_encoder = en, lk_decoder = de, lk_blocks = [] \<rparr>
    \<lparr> lk_encoder = en', lk_decoder = de\<lparr> qd_out := [] \<rparr>, lk_blocks = [] \<rparr> \<and> qe_out en' = qe_out en"
  using assms
proof (induction "is" arbitrary: en de)
  case Nil
  then have "de\<lparr> qd_out := [] \<rparr> = de" by (cases de) simp
  then show ?case by auto
next
  case (Cons i "is")
  let ?others = "concat (map di_encode is)"
  have ok: "tables_ok en de" "books_ok en de []" using Cons(2) unfolding qlink_ok_parts by auto
  have out: "qd_out de = concat (map di_encode [i]) @ ?others" "length (concat (map di_encode [i])) \<le> qe_max_instruction en"
    using Cons(3,4) di_encode_short [of i] by simp_all
  obtain ss known where got: "on_decoder_stream (concat (map di_encode [i])) en = (en\<lparr> qe_sections := ss, qe_known := known \<rparr>, Inr ())"
    by (rule answers_arrive [OF ok out]) (rule that)
  let ?en = "en\<lparr> qe_sections := ss, qe_known := known \<rparr>" and ?de = "de\<lparr> qd_out := ?others \<rparr>"
  have step: "qlink_step \<lparr> lk_encoder = en, lk_decoder = de, lk_blocks = [] \<rparr> \<lparr> lk_encoder = ?en, lk_decoder = ?de, lk_blocks = [] \<rparr>"
    by (rule Answers [OF out got])
  obtain en' where "qlink_step\<^sup>*\<^sup>* \<lparr> lk_encoder = ?en, lk_decoder = ?de, lk_blocks = [] \<rparr>
      \<lparr> lk_encoder = en', lk_decoder = ?de\<lparr> qd_out := [] \<rparr>, lk_blocks = [] \<rparr>" "qe_out en' = qe_out ?en"
    using Cons(1) [OF qlink_step_ok [OF step Cons(2)]] Cons(4) by auto
  then show ?case using converse_rtranclp_into_rtranclp [of qlink_step, OF step] by auto
qed

lemma queued_list: "queued limit t out n u \<Longrightarrow> \<exists>is. out = concat (map ei_encode is) \<and> list_all ei_ok is"
proof (induction rule: queued.induct)
  case (queued_insert i t f out n u)
  then obtain js where "out = concat (map ei_encode js)" "list_all ei_ok js" by blast
  then show ?case using queued_insert.hyps(1) by (intro exI [of _ "i # js"]) simp
next
  case (queued_resize c t out n u)
  then obtain js where "out = concat (map ei_encode js)" "list_all ei_ok js" by blast
  moreover have "ei_ok (SetDynamicTableCapacity c)" using queued_resize.hyps(2) by (simp add: ei_ok_def)
  ultimately show ?case by (intro exI [of _ "SetDynamicTableCapacity c # js"]) (simp del: ei_encode.simps)
qed auto

lemma drain:
  assumes "qlink_ok \<lparr> lk_encoder = en, lk_decoder = de, lk_blocks = fls \<rparr>" "short_ok \<lparr> lk_encoder = en, lk_decoder = de, lk_blocks = fls \<rparr>"
  shows "\<exists>lk'. qlink_step\<^sup>*\<^sup>* \<lparr> lk_encoder = en, lk_decoder = de, lk_blocks = fls \<rparr> lk' \<and> qlink_quiet lk'"
proof -
  let ?lk = "\<lparr> lk_encoder = en, lk_decoder = de, lk_blocks = fls \<rparr>" and ?en = "en\<lparr> qe_out := [] \<rparr>"
  have keep: "qlink_ok lk2" if "qlink_step\<^sup>*\<^sup>* lk1 lk2" "qlink_ok lk1" for lk1 lk2
    using that by (induction rule: rtranclp_induct) (auto intro: qlink_step_ok)
  obtain "is" where "is": "qe_out en = concat (map ei_encode is)" "\<forall>i\<in>set is. ei_ok i \<and> length (ei_encode i) \<le> qd_max_instruction de"
    using assms(2) by (auto simp: short_ok_def)
  obtain de1 where inserted: "qlink_step\<^sup>*\<^sup>* ?lk \<lparr> lk_encoder = ?en, lk_decoder = de1, lk_blocks = fls \<rparr>"
    using drain_insertions [OF assms(1) "is"] by blast
  note ok1 = keep [OF inserted assms(1)]
  obtain de2 where blocks: "qlink_step\<^sup>*\<^sup>* \<lparr> lk_encoder = ?en, lk_decoder = de1, lk_blocks = fls \<rparr> \<lparr> lk_encoder = ?en, lk_decoder = de2, lk_blocks = [] \<rparr>"
    using drain_blocks [OF ok1] by blast
  note ok2 = keep [OF blocks ok1]
  obtain answers where answers: "qd_out de2 = concat (map di_encode answers)"
    using ok2 unfolding qlink_ok_parts books_ok_def by blast
  have "11 \<le> qe_max_instruction ?en" using assms(2) by (simp add: short_ok_def Q_MAX_INSTRUCTION_def)
  then obtain en3 where "qlink_step\<^sup>*\<^sup>* \<lparr> lk_encoder = ?en, lk_decoder = de2, lk_blocks = [] \<rparr> \<lparr> lk_encoder = en3, lk_decoder = de2\<lparr> qd_out := [] \<rparr>, lk_blocks = [] \<rparr>"
    "qe_out en3 = []"
    using drain_answers [OF ok2 answers] by auto
  then show ?thesis using rtranclp_trans [OF inserted rtranclp_trans [OF blocks]]
    by (intro exI [of _ "\<lparr> lk_encoder = en3, lk_decoder = de2\<lparr> qd_out := [] \<rparr>, lk_blocks = [] \<rparr>"]) (auto simp: qlink_quiet_def)
qed

subsection \<open>Properties\<close>

text \<open>C1: from the moment both ends of a connection have learnt of the table, whatever is sent and
  however the blocks and the two instruction streams overtake each other, the oldest block of a
  stream is decoded, without ever waiting, to the fields it was made of, and is acknowledged exactly
  when it refers to the table; and delivering all queued insertions gives the decoder the encoder's table.\<close>

theorem qpack_delivers:
  assumes "qlink_step\<^sup>*\<^sup>* (qlink_start max_capacity) lk" "max_capacity < 2 ^ 60"
    and "lk_blocks lk = xs @ fl # ys" "fl_stream fl \<notin> fl_stream ` set xs"
  shows "snd (qpack_decode (fl_stream fl) (fl_block fl) (lk_decoder lk)) =
      Inr (fl_fields fl, if fl_section fl = None then None else Some (SectionAcknowledgment (fl_stream fl))) \<and>
    (length (qe_out (lk_encoder lk)) \<le> qd_max_instruction (lk_decoder lk) \<longrightarrow>
      (\<exists>de. on_encoder_stream (qe_out (lk_encoder lk)) (lk_decoder lk) = (de, Inr ()) \<and> qd_table de = qe_table (lk_encoder lk)))"
proof (intro conjI impI)
  have ok: "qlink_ok lk" using qlink_run_ok assms(1,2) by blast
  then have parts: "tables_ok (lk_encoder lk) (lk_decoder lk)" "flight_ok (lk_encoder lk) (qd_max_decoded_size (lk_decoder lk)) fl"
    using assms(3) by (simp_all add: qlink_ok_def)
  show "snd (qpack_decode (fl_stream fl) (fl_block fl) (lk_decoder lk)) =
      Inr (fl_fields fl, if fl_section fl = None then None else Some (SectionAcknowledgment (fl_stream fl)))"
    using flight_decodes [OF parts] by simp
  assume small: "length (qe_out (lk_encoder lk)) \<le> qd_max_instruction (lk_decoder lk)"
  obtain n where "queued (qd_max_capacity (lk_decoder lk)) (qd_table (lk_decoder lk)) (qe_out (lk_encoder lk)) n (qe_table (lk_encoder lk))"
    using parts(1) by (auto simp: tables_ok_def)
  then obtain "is" where all: "qe_out (lk_encoder lk) = concat (map ei_encode is) @ []" "list_all ei_ok is" using queued_list by fastforce
  show "\<exists>de. on_encoder_stream (qe_out (lk_encoder lk)) (lk_decoder lk) = (de, Inr ()) \<and> qd_table de = qe_table (lk_encoder lk)"
    by (rule insertions_arrive [OF parts(1) all]) (use small all(1) in auto)
qed

theorem qpack_delivers_witness:
  "\<exists>f answer. snd (qpack_decode 0 (snd (qpack_encode 0 [f] (lk_encoder (qlink_start 4096)))) (lk_decoder (qlink_start 4096)))
     = Inr ([f], answer)"
proof -
  let ?f = "header_new (ascii ''x-a'') (ascii ''1'')" and ?lk = "qlink_start 4096"
  obtain en' block where enc: "qpack_encode 0 [?f] (lk_encoder ?lk) = (en', block)" by fastforce
  let ?fl = "\<lparr> fl_stream = 0, fl_fields = [?f], fl_block = block, fl_section = (if qe_sections en' = qe_sections (lk_encoder ?lk)
    then None else Some (last (qe_sections en'))) \<rparr>"
  have "is_utf8 (ascii ''x-a'')" "is_utf8 (ascii ''1'')" by code_simp+
  then have f: "\<forall>f\<in>set [?f]. field_ok f" by (simp add: field_ok_def header_new_def text_from_str_of)
  have "qt_inserted (qe_table (lk_encoder ?lk)) = 0" "lk_blocks ?lk = []" "qd_max_decoded_size (lk_decoder ?lk) = 65536"
    by (simp_all add: qlink_start_def qe_set_max_capacity_def qencoder_new_def Let_def Q_CAPACITY_LIMIT_def qe_queue_def
        qt_set_capacity_new qd_set_max_capacity_def qdecoder_new_def Q_MAX_DECODED_SIZE_def) (simp_all add: qt_new_def)
  moreover have "weigh field_size [?f] \<le> 65536"
    by (simp add: field_size_def header_new_def text_from_str_of text_len_of OVERHEAD_def)
  ultimately have "qlink_step \<lparr> lk_encoder = lk_encoder ?lk, lk_decoder = lk_decoder ?lk, lk_blocks = [] \<rparr>
      \<lparr> lk_encoder = en', lk_decoder = lk_decoder ?lk, lk_blocks = [] @ [?fl] \<rparr>"
    by (intro Send [OF f _ _ enc refl]) simp_all
  moreover have "?lk = \<lparr> lk_encoder = lk_encoder ?lk, lk_decoder = lk_decoder ?lk, lk_blocks = [] \<rparr>"
    by (simp add: qlink_start_def case_prod_beta)
  ultimately have "qlink_step ?lk \<lparr> lk_encoder = en', lk_decoder = lk_decoder ?lk, lk_blocks = [?fl] \<rparr>"
    by (metis append_Nil)
  then have "qlink_step\<^sup>*\<^sup>* ?lk \<lparr> lk_encoder = en', lk_decoder = lk_decoder ?lk, lk_blocks = [?fl] \<rparr>" by (rule r_into_rtranclp)
  from qpack_delivers [OF this, of "[]" ?fl "[]"]
  have "snd (qpack_decode 0 block (lk_decoder ?lk)) = Inr ([?f], if fl_section ?fl = None then None else Some (SectionAcknowledgment 0))"
    by simp
  then show ?thesis using enc by (metis snd_conv)
qed

text \<open>C2: nothing is left behind: from every state a connection comes to, whatever capacity below 2^60 the
  decoder permitted, the octets and blocks on their way can all be delivered, no stretch of them too
  long for its receiver, and then no section is still waited for, every insertion is known to have
  arrived and both ends hold the same table.\<close>

theorem qpack_settles:
  assumes "qlink_step\<^sup>*\<^sup>* (qlink_start max_capacity) lk" "max_capacity < 2 ^ 60"
  shows "\<exists>lk'. qlink_step\<^sup>*\<^sup>* lk lk' \<and> qlink_quiet lk' \<and> qe_sections (lk_encoder lk') = [] \<and>
    qe_known (lk_encoder lk') = qt_inserted (qd_table (lk_decoder lk')) \<and> qd_table (lk_decoder lk') = qe_table (lk_encoder lk')"
proof -
  have ok: "qlink_ok lk" "short_ok lk" using qlink_run_short [OF assms] by auto
  obtain lk' where lk': "qlink_step\<^sup>*\<^sup>* lk lk'" "qlink_quiet lk'"
    using drain [of "lk_encoder lk" "lk_decoder lk" "lk_blocks lk"] ok by (cases lk) auto
  have "qlink_ok lk'" using lk'(1) ok(1) by (induction rule: rtranclp_induct) (auto intro: qlink_step_ok)
  then show ?thesis using lk' quiet_settled by blast
qed

theorem qpack_settles_witness: "\<exists>lk. qlink_step\<^sup>*\<^sup>* (qlink_start 4096) lk \<and> qlink_quiet lk"
  using qpack_settles [of 4096 "qlink_start 4096"] by auto


end
