(* ===== verification/Qpack_Safety.thy ===== *)
theory Qpack_Safety
  imports Qpack_Stream
begin

section \<open>QPACK: any input at all\<close>

text \<open>
  What a decoder promises for octets nobody vouches for, on either kind of stream, and what the
  table promises of an index.
\<close>

definition qdecoder_ok :: "qdecoder \<Rightarrow> bool" where
  "qdecoder_ok de \<longleftrightarrow> qt_ok (qd_table de) \<and> qt_capacity (qd_table de) \<le> qd_max_capacity de \<and>
     qd_max_capacity de \<le> USIZE_MAX \<and> length (qd_blocked de) \<le> qd_max_blocked de \<and> distinct (map fst (qd_blocked de))"

lemma on_encoder_instruction_ok:
  assumes "on_encoder_instruction i de = (de', r)" "qdecoder_ok de" "unat (qt_inserted (qd_table de)) + 1 < 2 ^ 64"
  shows "qdecoder_ok de' \<and> unat (qt_inserted (qd_table de')) \<le> unat (qt_inserted (qd_table de)) + 1 \<and>
    de' = de\<lparr> qd_table := qd_table de' \<rparr>"
proof -
  have insert: "qdecoder_ok (de\<lparr> qd_table := fst (qt_insert f (qd_table de)) \<rparr>)"
    "unat (qt_inserted (fst (qt_insert f (qd_table de)))) = unat (qt_inserted (qd_table de)) + 1"
    if "qt_fits (qd_table de) f" for f
    using qt_insert_spec [OF _ that assms(3)] assms(2) by (auto simp: qdecoder_ok_def)
  have resize: "qdecoder_ok (de\<lparr> qd_table := qt_set_capacity c (qd_table de) \<rparr>)"
    "qt_inserted (qt_set_capacity c (qd_table de)) = qt_inserted (qd_table de)" if "c \<le> qd_max_capacity de" for c
    using qt_set_capacity_spec [of "qd_table de" c] assms(2) that by (auto simp: qdecoder_ok_def)
  have same: "de = de\<lparr> qd_table := qd_table de \<rparr>" by simp
  show ?thesis
    using assms insert resize same
    by (auto simp: on_encoder_instruction_def not_less split: encoder_instruction.splits sum.splits if_splits)
qed

lemma encoder_stream_loop_ok:
  assumes "encoder_stream_loop recv de = (de', r)" "qdecoder_ok de" "unat (qt_inserted (qd_table de)) + length recv < 2 ^ 64"
  shows "qdecoder_ok de' \<and> qd_max_capacity de' = qd_max_capacity de \<and> qd_blocked de' = qd_blocked de \<and>
    length (qd_recv de') \<le> length recv"
  using assms
proof (induction recv de rule: encoder_stream_loop.induct)
  case (1 recv de)
  have recv: "qdecoder_ok (d\<lparr> qd_recv := bs \<rparr>) = qdecoder_ok d" "qdecoder_ok (d\<lparr> qd_out := bs \<rparr>) = qdecoder_ok d" for d bs
    by (simp_all add: qdecoder_ok_def)
  show ?case
  proof (cases "ei_decode recv")
    case (Inl e)
    then show ?thesis using 1(3,4) by (subst (asm) encoder_stream_loop.simps) (auto simp: recv)
  next
    case (Inr p)
    obtain consumed i where p: "p = (consumed, i)" by fastforce
    have taken: "0 < consumed" "consumed \<le> length recv" using ei_decode_bound [of recv consumed i] Inr p by auto
    obtain de1 s where one: "on_encoder_instruction i de = (de1, s)" by fastforce
    have ok: "qdecoder_ok de1" "unat (qt_inserted (qd_table de1)) \<le> unat (qt_inserted (qd_table de)) + 1"
      "de1 = de\<lparr> qd_table := qd_table de1 \<rparr>"
      using on_encoder_instruction_ok [OF one 1(4)] 1(5) taken by auto
    have same: "qd_max_capacity de1 = qd_max_capacity de" "qd_blocked de1 = qd_blocked de" by (subst ok(3), simp)+
    have small: "unat (qt_inserted (qd_table de1)) + length (drop consumed recv) < 2 ^ 64" using ok(2) 1(5) taken by simp
    show ?thesis
    proof (cases s)
      case (Inl e)
      then show ?thesis using 1(3) Inr p one ok(1) same by (subst (asm) encoder_stream_loop.simps) (auto simp: recv)
    next
      case s: (Inr answer)
      show ?thesis
      proof (cases answer)
        case None
        then have "encoder_stream_loop (drop consumed recv) de1 = (de', r)"
          using 1(3) Inr p one s by (subst (asm) encoder_stream_loop.simps) simp
        from 1(1) [OF Inr p [symmetric] refl one [symmetric] s None this ok(1) small] show ?thesis using same by auto
      next
        case (Some a)
        let ?de = "de1\<lparr> qd_out := qd_out de1 @ di_encode a \<rparr>"
        have "encoder_stream_loop (drop consumed recv) ?de = (de', r)"
          using 1(3) Inr p one s Some by (subst (asm) encoder_stream_loop.simps) simp
        from 1(2) [OF Inr p [symmetric] refl one [symmetric] s Some this] show ?thesis using same ok(1) small by (auto simp: recv)
      qed
    qed
  qed
qed

lemma qd_loop_size:
  "qd_loop de base rest headers held = Inr fs \<Longrightarrow> held = weigh field_size headers \<Longrightarrow> held \<le> qd_max_decoded_size de \<Longrightarrow>
   weigh field_size fs \<le> qd_max_decoded_size de"
proof (induction de base rest headers held rule: qd_loop.induct)
  case (2 de base first others headers held)
  then show ?case by (auto split: sum.splits if_splits)
qed simp

text \<open>Only the insert count sets a block aside.\<close>

lemma not_blocked_parts:
  "q_int input n \<noteq> Inl QBlocked" "q_literal input n \<noteq> Inl QBlocked" "qd_dynamic de index found \<noteq> Inl QBlocked"
  "qd_resolve de s base index \<noteq> Inl QBlocked" "qd_resolve_name de s base index \<noteq> Inl QBlocked"
  "qd_base required negative delta \<noteq> Inl QBlocked" "decode_insert_count encoded inserted max_capacity \<noteq> Inl QBlocked"
proof -
  have err: "qpack_error_of e \<noteq> QBlocked" for e by (cases e) simp_all
  have or: "ok_or e x = Inl QBlocked \<longleftrightarrow> x = None \<and> e = QBlocked" for e and x :: "'z option" by (cases x) simp_all
  show "q_int input n \<noteq> Inl QBlocked" by (cases "int_decode input n") (simp_all add: q_int_def err)
  show "q_literal input n \<noteq> Inl QBlocked" by (cases "literal_at input n") (simp_all add: q_literal_def err)
  show "qd_dynamic de index found \<noteq> Inl QBlocked"
    "qd_resolve de s base index \<noteq> Inl QBlocked" "qd_resolve_name de s base index \<noteq> Inl QBlocked"
    "qd_base required negative delta \<noteq> Inl QBlocked" "decode_insert_count encoded inserted max_capacity \<noteq> Inl QBlocked"
    by (auto simp: qd_dynamic_def qd_resolve_def qd_resolve_name_def qd_base_def decode_insert_count_def Let_def res_bind_Inl_iff
        ok_or_def split: option.splits)
qed

lemma qd_step_not_blocked: "qd_step de base rest first \<noteq> Inl QBlocked"
  using not_blocked_parts by (auto simp: qd_step_def Let_def res_bind_Inl_iff)

lemma qd_loop_not_blocked: "qd_loop de base rest headers held \<noteq> Inl QBlocked"
proof (induction de base rest headers held rule: qd_loop.induct)
  case (2 de base first others headers held)
  then show ?case using qd_step_not_blocked by (auto split: sum.split)
qed simp

subsection \<open>Properties\<close>

text \<open>C3: whatever arrives on the encoder stream or as a block, the decoder's table stays well-formed and
  within the capacity it permitted, it holds no more blocked streams than it admits, a block changes
  no table, and the fields it answers are together within the size it accepts.\<close>

theorem qpack_decoder_safe:
  assumes "qdecoder_ok de" "unat (qt_inserted (qd_table de)) + length (qd_recv de) + length octets < 2 ^ 64"
  shows "(let (de', r) = on_encoder_stream octets de in qdecoder_ok de' \<and> qt_size (qd_table de') \<le> qd_max_capacity de) \<and>
    (let (de', r) = qpack_decode sid block de in qdecoder_ok de' \<and> qd_table de' = qd_table de \<and>
       (case r of Inl e \<Rightarrow> True | Inr (fs, answer) \<Rightarrow> weigh field_size fs \<le> qd_max_decoded_size de))"
proof
  have recv: "qdecoder_ok (de\<lparr> qd_recv := bs \<rparr>)" for bs using assms(1) by (simp add: qdecoder_ok_def)
  have loop: "qdecoder_ok de' \<and> qt_size (qd_table de') \<le> qd_max_capacity de"
    if "encoder_stream_loop (qd_recv de @ octets) (de\<lparr> qd_recv := qd_recv de @ octets \<rparr>) = (de', r)" for de' r
    using encoder_stream_loop_ok [OF that recv] assms(2) by (auto simp: qdecoder_ok_def qt_ok_def add.assoc)
  show "let (de', r) = on_encoder_stream octets de in qdecoder_ok de' \<and> qt_size (qd_table de') \<le> qd_max_capacity de"
    using loop recv assms(1) by (auto simp: on_encoder_stream_def Let_def qdecoder_ok_def qt_ok_def split: prod.split)
next
  let ?others = "filter (\<lambda>(s, _). s \<noteq> sid) (qd_blocked de)"
  have fewer: "length ?others \<le> length (qd_blocked de)" "distinct (map fst ?others)" "sid \<notin> fst ` set ?others"
    using assms(1) by (auto simp: qdecoder_ok_def distinct_map_filter)
  have le: "length ?others \<le> qd_max_blocked de"
    by (rule order_trans [OF fewer(1)]) (use assms(1) in \<open>simp add: qdecoder_ok_def\<close>)
  have less: "length ?others < length (qd_blocked de)" if "sid \<in> fst ` set (qd_blocked de)"
    using that by (auto intro: length_filter_less)
  have block: "qdecoder_ok (de\<lparr> qd_blocked := (sid, required) # ?others \<rparr>)"
    if "\<not> (sid \<notin> fst ` set (qd_blocked de) \<and> qd_max_blocked de \<le> length (qd_blocked de))" for required
  proof -
    have "length ?others < qd_max_blocked de"
    proof (cases "sid \<in> fst ` set (qd_blocked de)")
      case True
      then show ?thesis using less assms(1) unfolding qdecoder_ok_def by linarith
    next
      case False
      then have "length (qd_blocked de) < qd_max_blocked de" using that by simp
      then show ?thesis by (rule order_le_less_trans [OF fewer(1)])
    qed
    then show ?thesis using fewer(2,3) assms(1) by (auto simp: qdecoder_ok_def)
  qed
  have cancel: "qdecoder_ok (qd_cancel sid de\<lparr> qd_section := n \<rparr>)" "qdecoder_ok (qd_cancel sid de)" for n
    using fewer(2) le assms(1) by (auto simp: qdecoder_ok_def qd_cancel_def)
  have size: "weigh field_size fs \<le> qd_max_decoded_size de" if "qd_loop (qd_cancel sid de) base rest [] 0 = Inr fs" for base rest fs
    using qd_loop_size [OF that] by (simp add: qd_cancel_def)
  show "let (de', r) = qpack_decode sid block de in qdecoder_ok de' \<and> qd_table de' = qd_table de \<and>
      (case r of Inl e \<Rightarrow> True | Inr (fs, answer) \<Rightarrow> weigh field_size fs \<le> qd_max_decoded_size de)"
    using assms(1) block cancel size
    by (auto simp: qpack_decode_def Let_def res_bind_Inr_iff qd_cancel_def split: sum.splits prod.splits if_splits)
qed

theorem qpack_decoder_safe_witness: "qdecoder_ok (fst (on_encoder_stream [0x3f, 0xe1] qdecoder_new))"
proof -
  have ok: "qdecoder_ok qdecoder_new"
    by (simp add: qdecoder_ok_def qdecoder_new_def qt_new_ok Q_MAX_CAPACITY_def USIZE_MAX_def) (simp add: qt_new_def)
  have "unat (qt_inserted (qd_table qdecoder_new)) + length (qd_recv qdecoder_new) + length [0x3f, 0xe1 :: octet] < 2 ^ 64"
    by (simp add: qdecoder_new_def qt_new_def)
  from qpack_decoder_safe [OF ok this, where sid = 0 and block = "[]"] show ?thesis by (auto simp: Let_def split: prod.splits)
qed

text \<open>C5: a block is set aside only where the insert count read off its front is of insertions still to
  come, and not where as many streams wait already as the decoder admits; that count is what is
  recorded, once, for its stream, and nothing else changes; and the stream is named for another try
  exactly when the table has come to that count.\<close>

theorem qpack_blocked_resumes:
  assumes "qpack_decode sid block de = (de', Inl QBlocked)"
  shows "\<exists>consumed encoded required. q_int block 8 = Inr (consumed, encoded) \<and>
    decode_insert_count encoded (qt_inserted (qd_table de)) (qd_max_capacity de) = Inr required \<and>
    qt_inserted (qd_table de) < required \<and> (sid \<in> fst ` set (qd_blocked de) \<or> length (qd_blocked de) < qd_max_blocked de) \<and>
    de' = de\<lparr> qd_blocked := (sid, required) # filter (\<lambda>(s, _). s \<noteq> sid) (qd_blocked de) \<rparr> \<and>
    sid \<notin> set (qd_unblocked de') \<and> (\<forall>t. (sid \<in> set (qd_unblocked (de'\<lparr> qd_table := t \<rparr>))) = (required \<le> qt_inserted t))"
proof -
  let ?front = "res_bind (q_int block 8) (\<lambda>(consumed, encoded).
      res_bind (decode_insert_count encoded (qt_inserted (qd_table de)) (qd_max_capacity de)) (\<lambda>required. Inr (consumed, required)))"
  have front: "?front \<noteq> Inl QBlocked" using not_blocked_parts by (auto simp: res_bind_Inl_iff)
  then obtain consumed required where parsed: "?front = Inr (consumed, required)"
    using assms by (cases ?front) (auto simp: qpack_decode_def)
  then obtain encoded where count: "q_int block 8 = Inr (consumed, encoded)"
    "decode_insert_count encoded (qt_inserted (qd_table de)) (qd_max_capacity de) = Inr required"
    by (auto simp: res_bind_Inr_iff)
  have behind: "res_bind (ok_or QIncomplete (get_at block consumed)) (\<lambda>sign.
      res_bind (q_int (drop consumed block) 7) (\<lambda>(taken, delta).
      res_bind (qd_base required (sign AND 0x80 \<noteq> 0) delta) (\<lambda>base.
        qd_loop d base (drop (consumed + taken) block) [] 0))) \<noteq> Inl QBlocked" for d
    using not_blocked_parts qd_loop_not_blocked by (auto simp: res_bind_Inl_iff ok_or_def split: option.splits)
  have required: "qt_inserted (qd_table de) < required"
    "sid \<in> fst ` set (qd_blocked de) \<or> length (qd_blocked de) < qd_max_blocked de"
    "de' = de\<lparr> qd_blocked := (sid, required) # filter (\<lambda>(s, _). s \<noteq> sid) (qd_blocked de) \<rparr>"
    using assms behind unfolding qpack_decode_def parsed by (auto simp: Let_def split: sum.splits if_splits)
  have named: "(sid \<in> set (qd_unblocked (de'\<lparr> qd_table := t \<rparr>))) = (required \<le> qt_inserted t)" for t
    by (auto simp: required(3) qd_unblocked_def image_iff)
  moreover have "de'\<lparr> qd_table := qd_table de \<rparr> = de'" by (simp add: required(3))
  then have "sid \<notin> set (qd_unblocked de')" using named [of "qd_table de"] required(1) by (metis not_less)
  ultimately show ?thesis using count required by blast
qed

theorem qpack_blocked_resumes_witness:
  "4 \<notin> set (qd_unblocked (fst (qpack_decode 4 [2, 0, 0x80] \<lparr> qd_table = qt_new 64, qd_max_capacity = 64, qd_max_decoded_size = 64,
     qd_max_instruction = 64, qd_max_blocked = 1, qd_blocked = [], qd_section = 8, qd_out = [], qd_recv = [] \<rparr>)))"
  (is "4 \<notin> set (qd_unblocked (fst (qpack_decode 4 ?block ?de)))")
proof -
  have "snd (qpack_decode 4 ?block ?de) = Inl QBlocked" by code_simp
  then have "qpack_decode 4 ?block ?de = (fst (qpack_decode 4 ?block ?de), Inl QBlocked)" by (metis prod.collapse)
  from qpack_blocked_resumes [OF this] show ?thesis by blast
qed

text \<open>C4: an index means one field for as long as the table holds it: an insertion takes the next index and
  changes what no other index means, and one the encoder's guard admits takes no index at or above
  the lowest that a block on its way still refers to.\<close>

theorem qpack_index_stable:
  assumes "qt_ok t" "qt_fits t f" "unat (qt_inserted t) + 1 < 2 ^ 64"
  shows "qt_get (fst (qt_insert f t)) (snd (qt_insert f t)) = Some f \<and>
    (\<forall>i. unat i < unat (qt_inserted t) \<longrightarrow> qt_get (fst (qt_insert f t)) i \<in> {None, qt_get t i}) \<and>
    (\<forall>i floor. qt_admits t f floor \<and> floor \<le> i \<and> unat i < unat (qt_inserted t) \<longrightarrow> qt_get (fst (qt_insert f t)) i = qt_get t i)"
proof -
  note ins = qt_insert_spec [OF assms]
  note get = qt_get_spec [OF assms(1)] qt_get_spec [OF ins(2)]
  have "qt_at (fst (qt_insert f t)) (unat i) = qt_at t (unat i)"
    if "qt_admits t f floor" "floor \<le> i" "unat i < unat (qt_inserted t)" for i floor
  proof (cases "qt_at t (unat i)")
    case None
    then show ?thesis using qt_at_insert(2) [OF assms that(3)] by simp
  next
    case (Some g)
    then show ?thesis using qt_admits_keeps [OF assms(1) that(1) assms(3), of "unat i" g] that(2) by (simp add: word_le_nat_alt)
  qed
  moreover have "qt_at (fst (qt_insert f t)) (unat i) \<in> {None, qt_at t (unat i)}" if "unat i < unat (qt_inserted t)" for i
    using qt_at_insert(2) [OF assms that] by simp
  ultimately show ?thesis using qt_at_insert(1) [OF assms] ins(5) by (auto simp: get)
qed

theorem qpack_index_stable_witness:
  "qt_get (fst (qt_insert (header_new [97] [98]) (qt_new 64))) 0 = Some (header_new [97] [98])"
proof -
  have "qt_ok (qt_new 64)" by (simp add: qt_new_ok USIZE_MAX_def)
  moreover have "qt_fits (qt_new 64) (header_new [97] [98])"
    by (simp add: qt_fits_def qt_new_def field_size_def header_new_def text_from_str_of text_len_of OVERHEAD_def)
  moreover have "unat (qt_inserted (qt_new 64)) + 1 < 2 ^ 64" by (simp add: qt_new_def)
  moreover have "snd (qt_insert (header_new [97] [98]) (qt_new 64)) = 0"
    using qt_insert_spec(5) [OF calculation] by (simp add: qt_new_def)
  ultimately show ?thesis using qpack_index_stable [of "qt_new 64" "header_new [97] [98]"] by simp
qed

text \<open>C6: every instruction of either stream is read back whole from the front of whatever follows it, and
  no octets are two different runs of instructions.\<close>

theorem qpack_instructions:
  "(list_all ei_ok (i # is) \<longrightarrow> ei_decode (concat (map ei_encode (i # is)) @ rest) = Inr (length (ei_encode i), i)) \<and>
   di_decode (concat (map di_encode (d # ds)) @ rest) = Inr (length (di_encode d), d) \<and>
   (list_all ei_ok is \<and> list_all ei_ok js \<and> concat (map ei_encode is) = concat (map ei_encode js) \<longrightarrow> is = js) \<and>
   (concat (map di_encode ds) = concat (map di_encode es) \<longrightarrow> ds = es)"
  using encoder_wire.concat_inj [of "is" js] decoder_wire.concat_inj [of ds es]
  by (auto simp: list_all_iff ei_decode_encode di_decode_encode)

theorem qpack_instructions_witness:
  "ei_decode (ei_encode (Duplicate 300) @ [1]) = Inr (length (ei_encode (Duplicate 300)), Duplicate 300)"
proof -
  have "list_all ei_ok [Duplicate 300]" by (simp add: ei_ok_def)
  then show ?thesis using qpack_instructions [of "Duplicate 300" "[]" "[1]"] by simp
qed

text \<open>An index relative to a base, counted from zero below it, names an entry the table has taken, or
  none; save that an index of 2^64 - 1 wraps where one is added to it, and names the entry the base
  itself stands at.\<close>

lemma qpack_index_wraps:
  "qt_indexed t base index =
     (if index = U64_MAX then (if base < qt_inserted t then Some base else None)
      else if index < base \<and> base - 1 - index < qt_inserted t then Some (base - 1 - index) else None)"
proof (cases "index = U64_MAX")
  case True
  then have "index + 1 = 0" by (simp add: U64_MAX_def)
  then show ?thesis using True by (simp add: qt_indexed_def below_count_def word_checked_sub_def)
next
  case False
  then have "unat index \<noteq> 2 ^ 64 - 1" by (auto simp: U64_MAX_def word_unat_eq_iff)
  then have "unat (index + 1) = unat index + 1" using unat_less_64 [of index] by (simp add: unat_word_ariths)
  then have "index + 1 \<le> base \<longleftrightarrow> index < base" by (simp add: word_le_nat_alt word_less_nat_alt Suc_le_eq)
  moreover have eq: "base - 1 - index = base - (index + 1)" by (simp add: algebra_simps)
  ultimately show ?thesis using False by (simp add: qt_indexed_def below_count_def word_checked_sub_def eq)
qed

lemma qpack_index_wraps_witness:
  "qt_indexed (fst (qt_insert (header_new [97] [98]) (qt_new 64))) 0 U64_MAX = Some 0"
proof -
  have ok: "qt_ok (qt_new 64)" "qt_fits (qt_new 64) (header_new [97] [98])" "unat (qt_inserted (qt_new 64)) + 1 < 2 ^ 64"
    by (simp_all add: qt_new_ok USIZE_MAX_def)
      (simp_all add: qt_fits_def qt_new_def field_size_def header_new_def text_from_str_of text_len_of OVERHEAD_def)
  note ins = qt_insert_spec [OF ok]
  have "unat (qt_inserted (fst (qt_insert (header_new [97] [98]) (qt_new 64)))) = 1" using ins(4) by (simp add: qt_new_def)
  then have "0 < qt_inserted (fst (qt_insert (header_new [97] [98]) (qt_new 64)))" by (simp add: word_less_nat_alt)
  then show ?thesis by (simp add: qpack_index_wraps)
qed

end
