(* ===== verification/Errors.thy ===== *)
theory Errors
  imports Prelude
begin

section \<open>What every fallible operation reports (src/src/errors.rs)\<close>

text \<open>
  The variants and what narrows one to another. The texts they carry are written for people and
  read by no code, so they are left out, as is what lies behind an I/O or a TLS failure.
\<close>

datatype error =
    Closed
  | Protocol
  | Limit
  | Stream (error_id: u64) (error_code: u64)
  | Timeout
  | TLS
  | Version
  | IO

definition error_stream :: "u64 \<Rightarrow> u64 \<Rightarrow> error" where
  "error_stream sid code = Stream sid code"

definition on_stream :: "error \<Rightarrow> u64 \<Rightarrow> u64 \<Rightarrow> error" where
  "on_stream e sid code = (case e of Protocol \<Rightarrow> Stream sid code | Limit \<Rightarrow> Stream sid code | e \<Rightarrow> e)"

datatype compression_error = TooLarge | Settled | Coding

fun error_of_compression :: "compression_error \<Rightarrow> error" where
  "error_of_compression TooLarge = Limit"
| "error_of_compression Settled = Protocol"
| "error_of_compression Coding = Protocol"

text \<open>What one stream can absorb is absorbed, once.\<close>

lemma on_stream_spec:
  "on_stream e sid code = (if e = Protocol \<or> e = Limit then error_stream sid code else e)"
  "on_stream (on_stream e sid code) sid' code' = on_stream e sid code"
  by (cases e; simp add: on_stream_def error_stream_def)+

end
