(* ===== verification/H2_Frames.thy ===== *)
theory H2_Frames
  imports Codec Machine Errors
begin

section \<open>The HTTP/2 frame layer (src/src/protocol/h2/frames.rs)\<close>

text \<open>
  Frames on and off the wire, and the settings two ends exchange. A buffer a frame is taken off
  is returned beside the result, since its octets are consumed even where the frame is refused.
  A slice shared with the buffer and a copy of it are the same octets here. Payload lengths are
  counts of octets in memory; where the code narrows one to 32 bits, so does the model.
\<close>

definition PREFACE :: bytes where
  "PREFACE = ascii ''PRI * HTTP/2.0'' @ [13, 10, 13, 10] @ ascii ''SM'' @ [13, 10, 13, 10]"

text \<open>The error codes of RST_STREAM and GOAWAY, and the flags of a frame header.\<close>

definition H2_NO_ERROR :: u32 where "H2_NO_ERROR = 0x0"
definition H2_PROTOCOL_ERROR :: u32 where "H2_PROTOCOL_ERROR = 0x1"
definition H2_INTERNAL_ERROR :: u32 where "H2_INTERNAL_ERROR = 0x2"
definition H2_FLOW_CONTROL_ERROR :: u32 where "H2_FLOW_CONTROL_ERROR = 0x3"
definition H2_SETTINGS_TIMEOUT :: u32 where "H2_SETTINGS_TIMEOUT = 0x4"
definition H2_STREAM_CLOSED :: u32 where "H2_STREAM_CLOSED = 0x5"
definition H2_FRAME_SIZE_ERROR :: u32 where "H2_FRAME_SIZE_ERROR = 0x6"
definition H2_REFUSED_STREAM :: u32 where "H2_REFUSED_STREAM = 0x7"
definition H2_CANCEL :: u32 where "H2_CANCEL = 0x8"
definition H2_COMPRESSION_ERROR :: u32 where "H2_COMPRESSION_ERROR = 0x9"
definition H2_CONNECT_ERROR :: u32 where "H2_CONNECT_ERROR = 0xa"
definition H2_ENHANCE_YOUR_CALM :: u32 where "H2_ENHANCE_YOUR_CALM = 0xb"
definition H2_INADEQUATE_SECURITY :: u32 where "H2_INADEQUATE_SECURITY = 0xc"
definition H2_HTTP_1_1_REQUIRED :: u32 where "H2_HTTP_1_1_REQUIRED = 0xd"

definition END_STREAM :: octet where "END_STREAM = 0x1"
definition ACK :: octet where "ACK = 0x1"
definition END_HEADERS :: octet where "END_HEADERS = 0x4"
definition PADDED :: octet where "PADDED = 0x8"
definition FLAG_PRIORITY :: octet where "FLAG_PRIORITY = 0x20"

datatype frame_type =
    DATA | HEADERS | PRIORITY | RST_STREAM | SETTINGS | PUSH_PROMISE | PING | GOAWAY
  | WINDOW_UPDATE | CONTINUATION

fun type_code :: "frame_type \<Rightarrow> octet" where
  "type_code DATA = 0x0"
| "type_code HEADERS = 0x1"
| "type_code PRIORITY = 0x2"
| "type_code RST_STREAM = 0x3"
| "type_code SETTINGS = 0x4"
| "type_code PUSH_PROMISE = 0x5"
| "type_code PING = 0x6"
| "type_code GOAWAY = 0x7"
| "type_code WINDOW_UPDATE = 0x8"
| "type_code CONTINUATION = 0x9"

definition type_from_code :: "octet \<Rightarrow> frame_type option" where
  "type_from_code code =
     (if code = 0x0 then Some DATA
      else if code = 0x1 then Some HEADERS
      else if code = 0x2 then Some PRIORITY
      else if code = 0x3 then Some RST_STREAM
      else if code = 0x4 then Some SETTINGS
      else if code = 0x5 then Some PUSH_PROMISE
      else if code = 0x6 then Some PING
      else if code = 0x7 then Some GOAWAY
      else if code = 0x8 then Some WINDOW_UPDATE
      else if code = 0x9 then Some CONTINUATION
      else None)"

fun type_streamed :: "frame_type \<Rightarrow> bool option" where
  "type_streamed DATA = Some True"
| "type_streamed HEADERS = Some True"
| "type_streamed PRIORITY = Some True"
| "type_streamed RST_STREAM = Some True"
| "type_streamed SETTINGS = Some False"
| "type_streamed PUSH_PROMISE = Some True"
| "type_streamed PING = Some False"
| "type_streamed GOAWAY = Some False"
| "type_streamed WINDOW_UPDATE = None"
| "type_streamed CONTINUATION = Some True"

text \<open>\<open>Settings::MAXIMUM_WINDOW_SIZE\<close> is also the mask of a stream identifier.\<close>

definition DEFAULT_INITIAL_WINDOW_SIZE :: u32 where "DEFAULT_INITIAL_WINDOW_SIZE = 65535"
definition DEFAULT_MAX_FRAME_SIZE :: u32 where "DEFAULT_MAX_FRAME_SIZE = 16384"
definition MAXIMUM_FRAME_SIZE :: u32 where "MAXIMUM_FRAME_SIZE = 16777215"
definition MAXIMUM_WINDOW_SIZE :: u32 where "MAXIMUM_WINDOW_SIZE = 0x7fffffff"

record frame_header =
  fh_length :: u32
  fh_kind :: frame_type
  fh_flags :: octet
  fh_stream :: u64

definition HEADER_SIZE :: nat where "HEADER_SIZE = 9"

definition header_encode :: "frame_header \<Rightarrow> bytes" where
  "header_encode h =
     (let len = to_be_bytes (fh_length h);
          sid = to_be_bytes (ucast (fh_stream h) AND MAXIMUM_WINDOW_SIZE)
      in [len ! 1, len ! 2, len ! 3, type_code (fh_kind h), fh_flags h, sid ! 0, sid ! 1, sid ! 2, sid ! 3])"

definition header_decode :: "bytes \<Rightarrow> u32 \<times> frame_header option" where
  "header_decode octets =
     (let len = from_be_bytes [0, octets ! 0, octets ! 1, octets ! 2];
          sid = from_be_bytes [octets ! 5, octets ! 6, octets ! 7, octets ! 8] AND MAXIMUM_WINDOW_SIZE
      in (len, map_option (\<lambda>kind. \<lparr> fh_length = len, fh_kind = kind, fh_flags = octets ! 4, fh_stream = ucast sid \<rparr>)
                 (type_from_code (octets ! 3))))"

definition header_write :: "bytes \<Rightarrow> frame_type \<Rightarrow> octet \<Rightarrow> u64 \<Rightarrow> bytes \<Rightarrow> bytes" where
  "header_write out kind flags sid payload =
     out @ header_encode \<lparr> fh_length = word_of_nat (length payload), fh_kind = kind, fh_flags = flags, fh_stream = sid \<rparr> @ payload"

subsection \<open>Frames\<close>

datatype h2_frame =
    Data (data_stream: u64) (data_end: bool) (data_octets: bytes)
  | Headers u64 bool bool bytes
  | Priority u64 u64 bool octet
  | RstStream u64 u32
  | Settings bool "(u16 \<times> u32) list"
  | PushPromise u64 u64 bytes
  | Ping bool bytes
  | GoAway u64 u32 bytes
  | WindowUpdate u64 u32
  | Continuation u64 bool bytes

definition frame_exact :: "nat \<Rightarrow> bytes \<Rightarrow> error + bytes" where
  "frame_exact n payload = (if length payload = n then Inr payload else Inl Protocol)"

fun frame_kind :: "h2_frame \<Rightarrow> frame_type" where
  "frame_kind (Data _ _ _) = DATA"
| "frame_kind (Headers _ _ _ _) = HEADERS"
| "frame_kind (Priority _ _ _ _) = PRIORITY"
| "frame_kind (RstStream _ _) = RST_STREAM"
| "frame_kind (Settings _ _) = SETTINGS"
| "frame_kind (PushPromise _ _ _) = PUSH_PROMISE"
| "frame_kind (Ping _ _) = PING"
| "frame_kind (GoAway _ _ _) = GOAWAY"
| "frame_kind (WindowUpdate _ _) = WINDOW_UPDATE"
| "frame_kind (Continuation _ _ _) = CONTINUATION"

fun frame_stream :: "h2_frame \<Rightarrow> u64" where
  "frame_stream (Data sid _ _) = sid"
| "frame_stream (Headers sid _ _ _) = sid"
| "frame_stream (Priority sid _ _ _) = sid"
| "frame_stream (RstStream sid _) = sid"
| "frame_stream (PushPromise sid _ _) = sid"
| "frame_stream (WindowUpdate sid _) = sid"
| "frame_stream (Continuation sid _ _) = sid"
| "frame_stream (Settings _ _) = 0"
| "frame_stream (Ping _ _) = 0"
| "frame_stream (GoAway _ _ _) = 0"

fun frame_flags :: "h2_frame \<Rightarrow> octet" where
  "frame_flags (Data _ end_stream _) = of_bool end_stream * END_STREAM"
| "frame_flags (Headers _ end_stream end_headers _) = (of_bool end_stream * END_STREAM) OR (of_bool end_headers * END_HEADERS)"
| "frame_flags (Settings ack _) = of_bool ack * ACK"
| "frame_flags (Ping ack _) = of_bool ack * ACK"
| "frame_flags (PushPromise _ _ _) = END_HEADERS"
| "frame_flags (Continuation _ end_headers _) = of_bool end_headers * END_HEADERS"
| "frame_flags (Priority _ _ _ _) = 0"
| "frame_flags (RstStream _ _) = 0"
| "frame_flags (GoAway _ _ _) = 0"
| "frame_flags (WindowUpdate _ _) = 0"

fun frame_payload :: "h2_frame \<Rightarrow> bytes" where
  "frame_payload (Data _ _ octets) = octets"
| "frame_payload (Headers _ _ _ block) = block"
| "frame_payload (Continuation _ _ block) = block"
| "frame_payload (Priority _ dependency exclusive weight) =
     to_be_bytes ((ucast dependency :: u32) OR push_bit 31 (of_bool exclusive)) @ [weight]"
| "frame_payload (RstStream _ code) = to_be_bytes code"
| "frame_payload (Settings _ params) = concat (map (\<lambda>(name, v). to_be_bytes name @ to_be_bytes v) params)"
| "frame_payload (PushPromise _ promised block) = to_be_bytes (ucast promised :: u32) @ block"
| "frame_payload (Ping _ payload) = payload"
| "frame_payload (GoAway last_id code debug) = to_be_bytes (ucast last_id :: u32) @ to_be_bytes code @ debug"
| "frame_payload (WindowUpdate _ increment) = to_be_bytes increment"

text \<open>
  A frame is appended with its header left blank, and the header filled in once the payload is
  there to be measured.
\<close>

definition frame_encode_into :: "h2_frame \<Rightarrow> bytes \<Rightarrow> bytes" where
  "frame_encode_into f out =
     (let start = length out;
          out = out @ replicate HEADER_SIZE 0 @ frame_payload f;
          len = word_of_nat (length out - start - HEADER_SIZE);
          header = \<lparr> fh_length = len, fh_kind = frame_kind f, fh_flags = frame_flags f, fh_stream = frame_stream f \<rparr>
      in blit out start (header_encode header))"

definition frame_encode :: "h2_frame \<Rightarrow> bytes" where
  "frame_encode f = frame_encode_into f []"

definition flagged :: "octet \<Rightarrow> octet \<Rightarrow> bool" where
  "flagged flags flag \<longleftrightarrow> flags AND flag \<noteq> 0"

text \<open>Padding is stripped from the kinds that may carry it.\<close>

definition unpadded :: "frame_header \<Rightarrow> bytes \<Rightarrow> error + bytes" where
  "unpadded h payload =
     (if flagged (fh_flags h) PADDED \<and> fh_kind h \<in> {DATA, HEADERS, PUSH_PROMISE} then
        res_bind (ok_or Protocol (get_at payload 0)) (\<lambda>padding.
        res_bind (ok_or Protocol (checked_sub (length payload) (unat padding))) (\<lambda>stop.
          ok_or Protocol (get_range payload 1 stop)))
      else Inr payload)"

definition frame_of_payload :: "frame_header \<Rightarrow> bytes \<Rightarrow> error + h2_frame" where
  "frame_of_payload h payload =
     (let sid = fh_stream h; flags = fh_flags h
      in case fh_kind h of
        DATA \<Rightarrow> Inr (Data sid (flagged flags END_STREAM) payload)
      | HEADERS \<Rightarrow>
          res_bind (if flagged flags FLAG_PRIORITY then ok_or Protocol (get_range payload 5 (length payload)) else Inr payload)
            (\<lambda>block. Inr (Headers sid (flagged flags END_STREAM) (flagged flags END_HEADERS) block))
      | PRIORITY \<Rightarrow>
          res_bind (frame_exact 5 payload) (\<lambda>octets.
            let dependency = from_be_bytes (take 4 octets) :: u32
            in Inr (Priority sid (ucast (dependency AND MAXIMUM_WINDOW_SIZE)) (dependency AND 0x80000000 \<noteq> 0) (octets ! 4)))
      | RST_STREAM \<Rightarrow> res_bind (frame_exact 4 payload) (\<lambda>octets. Inr (RstStream sid (from_be_bytes octets)))
      | SETTINGS \<Rightarrow>
          (let ack = flagged flags ACK
           in if ack \<and> payload \<noteq> [] then Inl Protocol
              else if length payload mod 6 \<noteq> 0 then Inl Protocol
              else Inr (Settings ack
                (map (\<lambda>e. (from_be_bytes (take 2 e), from_be_bytes (drop 2 e))) (chunks_exact 6 payload))))
      | PUSH_PROMISE \<Rightarrow>
          if length payload < 4 then Inl Protocol
          else Inr (PushPromise sid (ucast (from_be_bytes (take 4 payload) AND MAXIMUM_WINDOW_SIZE)) (drop 4 payload))
      | PING \<Rightarrow> res_bind (frame_exact 8 payload) (\<lambda>octets. Inr (Ping (flagged flags ACK) octets))
      | GOAWAY \<Rightarrow>
          if length payload < 8 then Inl Protocol
          else Inr (GoAway (ucast (from_be_bytes (take 4 payload) AND MAXIMUM_WINDOW_SIZE))
            (from_be_bytes (take 4 (drop 4 payload))) (drop 8 payload))
      | WINDOW_UPDATE \<Rightarrow>
          res_bind (frame_exact 4 payload) (\<lambda>octets.
            let increment = from_be_bytes octets AND MAXIMUM_WINDOW_SIZE
            in if increment = 0 then Inl Protocol else Inr (WindowUpdate sid increment))
      | CONTINUATION \<Rightarrow> Inr (Continuation sid (flagged flags END_HEADERS) payload))"

definition frame_assemble :: "frame_header \<Rightarrow> bytes \<Rightarrow> error + h2_frame" where
  "frame_assemble h payload =
     (if length payload \<noteq> unat (fh_length h) then Inl Protocol
      else let streamed = (fh_stream h \<noteq> 0)
        in if (case type_streamed (fh_kind h) of Some expected \<Rightarrow> expected \<noteq> streamed | None \<Rightarrow> False) then Inl Protocol
           else res_bind (unpadded h payload) (frame_of_payload h))"

text \<open>
  One frame off the front of a buffer: \<open>None\<close> where it has not fully arrived, \<open>Inl code\<close> inside for
  a frame of unknown type.
\<close>

definition frame_take :: "bytes \<Rightarrow> u32 \<Rightarrow> bytes \<times> (error + (octet + h2_frame) option)" where
  "frame_take buffer max_size =
     (case get_range buffer 0 HEADER_SIZE of
        None \<Rightarrow> (buffer, Inr None)
      | Some octets \<Rightarrow>
          (let (len, header) = header_decode octets; whole = HEADER_SIZE + unat len
           in if max_size < len then (buffer, Inl Limit)
              else if length buffer < whole then (buffer, Inr None)
              else (drop whole buffer,
                case header of
                  Some h \<Rightarrow> res_bind (frame_assemble h (drop HEADER_SIZE (take whole buffer))) (\<lambda>f. Inr (Some (Inr f)))
                | None \<Rightarrow> Inr (Some (Inl (octets ! 3))))))"

lemma frame_take_shorter:
  "frame_take buffer max_size = (rest, Inr (Some r)) \<Longrightarrow> length rest < length buffer"
  by (auto simp: frame_take_def get_range_def HEADER_SIZE_def Let_def split: if_splits prod.splits)

function frame_parse :: "bytes \<Rightarrow> u32 \<Rightarrow> bytes \<times> (error + h2_frame option)" where
  "frame_parse buffer max_size =
     (case frame_take buffer max_size of
        (rest, Inl e) \<Rightarrow> (rest, Inl e)
      | (rest, Inr None) \<Rightarrow> (rest, Inr None)
      | (rest, Inr (Some (Inr f))) \<Rightarrow> (rest, Inr (Some f))
      | (rest, Inr (Some (Inl _))) \<Rightarrow> frame_parse rest max_size)"
  by pat_completeness auto
termination
  by (relation "measure (\<lambda>(buffer, max_size). length buffer)") (auto dest: frame_take_shorter [OF sym])

declare frame_parse.simps [simp del]

subsection \<open>Settings\<close>

record settings =
  header_table_size :: u32
  enable_push :: bool
  max_concurrent_streams :: "u32 option"
  initial_window_size :: u32
  max_frame_size :: u32
  max_header_list_size :: "u32 option"
  enable_connect_protocol :: bool

definition SET_HEADER_TABLE_SIZE :: u16 where "SET_HEADER_TABLE_SIZE = 1"
definition SET_ENABLE_PUSH :: u16 where "SET_ENABLE_PUSH = 2"
definition SET_MAX_CONCURRENT_STREAMS :: u16 where "SET_MAX_CONCURRENT_STREAMS = 3"
definition SET_INITIAL_WINDOW_SIZE :: u16 where "SET_INITIAL_WINDOW_SIZE = 4"
definition SET_MAX_FRAME_SIZE :: u16 where "SET_MAX_FRAME_SIZE = 5"
definition SET_MAX_HEADER_LIST_SIZE :: u16 where "SET_MAX_HEADER_LIST_SIZE = 6"
definition SET_ENABLE_CONNECT_PROTOCOL :: u16 where "SET_ENABLE_CONNECT_PROTOCOL = 8"

lemmas setting_names = SET_HEADER_TABLE_SIZE_def SET_ENABLE_PUSH_def SET_MAX_CONCURRENT_STREAMS_def
  SET_INITIAL_WINDOW_SIZE_def SET_MAX_FRAME_SIZE_def SET_MAX_HEADER_LIST_SIZE_def SET_ENABLE_CONNECT_PROTOCOL_def

text \<open>\<open>hpack::DynamicTable::DEFAULT_CAPACITY as u32\<close>\<close>

definition TABLE_CAPACITY :: u32 where "TABLE_CAPACITY = 4096"

definition settings_peer :: settings where
  "settings_peer = \<lparr> header_table_size = TABLE_CAPACITY, enable_push = True, max_concurrent_streams = None,
     initial_window_size = DEFAULT_INITIAL_WINDOW_SIZE, max_frame_size = DEFAULT_MAX_FRAME_SIZE,
     max_header_list_size = None, enable_connect_protocol = False \<rparr>"

definition settings_default :: settings where
  "settings_default = \<lparr> header_table_size = TABLE_CAPACITY, enable_push = False, max_concurrent_streams = None,
     initial_window_size = DEFAULT_INITIAL_WINDOW_SIZE, max_frame_size = DEFAULT_MAX_FRAME_SIZE,
     max_header_list_size = None, enable_connect_protocol = True \<rparr>"

definition settings_parameters :: "settings \<Rightarrow> (u16 \<times> u32) list" where
  "settings_parameters s =
     [(SET_HEADER_TABLE_SIZE, header_table_size s), (SET_ENABLE_PUSH, of_bool (enable_push s)),
      (SET_INITIAL_WINDOW_SIZE, initial_window_size s), (SET_MAX_FRAME_SIZE, max_frame_size s),
      (SET_ENABLE_CONNECT_PROTOCOL, of_bool (enable_connect_protocol s))]
     @ (case max_concurrent_streams s of Some streams \<Rightarrow> [(SET_MAX_CONCURRENT_STREAMS, streams)] | None \<Rightarrow> [])
     @ (case max_header_list_size s of Some v \<Rightarrow> [(SET_MAX_HEADER_LIST_SIZE, v)] | None \<Rightarrow> [])"

text \<open>The change of the initial window is an \<open>i64\<close>, which holds every difference of two \<open>u32\<close>.\<close>

definition settings_apply :: "settings \<Rightarrow> u16 \<Rightarrow> u32 \<Rightarrow> error + settings \<times> int" where
  "settings_apply s name v =
     (if name = SET_HEADER_TABLE_SIZE then Inr (s\<lparr> header_table_size := v \<rparr>, 0)
      else if name = SET_ENABLE_PUSH then
        if 1 < v then Inl Protocol else Inr (s\<lparr> enable_push := v = 1 \<rparr>, 0)
      else if name = SET_MAX_CONCURRENT_STREAMS then Inr (s\<lparr> max_concurrent_streams := Some v \<rparr>, 0)
      else if name = SET_INITIAL_WINDOW_SIZE then
        if MAXIMUM_WINDOW_SIZE < v then Inl Protocol
        else Inr (s\<lparr> initial_window_size := v \<rparr>, uint v - uint (initial_window_size s))
      else if name = SET_MAX_FRAME_SIZE then
        if \<not> (DEFAULT_MAX_FRAME_SIZE \<le> v \<and> v \<le> MAXIMUM_FRAME_SIZE) then Inl Protocol
        else Inr (s\<lparr> max_frame_size := v \<rparr>, 0)
      else if name = SET_MAX_HEADER_LIST_SIZE then Inr (s\<lparr> max_header_list_size := Some v \<rparr>, 0)
      else if name = SET_ENABLE_CONNECT_PROTOCOL then
        if 1 < v then Inl Protocol else Inr (s\<lparr> enable_connect_protocol := v = 1 \<rparr>, 0)
      else Inr (s, 0))"

fun settings_apply_all :: "settings \<Rightarrow> (u16 \<times> u32) list \<Rightarrow> error + settings" where
  "settings_apply_all s [] = Inr s"
| "settings_apply_all s ((name, v) # params) =
     res_bind (settings_apply s name v) (\<lambda>(s, _). settings_apply_all s params)"

definition settings_ok :: "settings \<Rightarrow> bool" where
  "settings_ok s \<longleftrightarrow> initial_window_size s \<le> MAXIMUM_WINDOW_SIZE \<and>
     DEFAULT_MAX_FRAME_SIZE \<le> max_frame_size s \<and> max_frame_size s \<le> MAXIMUM_FRAME_SIZE"

lemma settings_apply_ok:
  assumes "settings_apply s name v = Inr (s', change)" "settings_ok s"
  shows "settings_ok s' \<and> change = uint (initial_window_size s') - uint (initial_window_size s)"
  using assms by (auto simp: settings_apply_def settings_ok_def not_less split: if_splits)

lemma settings_apply_all_ok: "settings_apply_all s params = Inr s' \<Longrightarrow> settings_ok s \<Longrightarrow> settings_ok s'"
proof (induction s params rule: settings_apply_all.induct)
  case (2 s name v params)
  obtain s1 change where one: "settings_apply s name v = Inr (s1, change)" "settings_apply_all s1 params = Inr s'"
    using 2(2) by (auto simp: res_bind_Inr_iff)
  then show ?case using 2(1) settings_apply_ok [OF one(1) 2(3)] by auto
qed simp

lemma settings_exchanged:
  assumes "settings_ok s" "max_concurrent_streams s \<noteq> None \<or> max_concurrent_streams t = None"
    "max_header_list_size s \<noteq> None \<or> max_header_list_size t = None"
  shows "settings_apply_all t (settings_parameters s) = Inr s"
proof -
  have flag: "\<not> 1 < (of_bool b :: u32)" "((of_bool b :: u32) = 1) = b" for b by (cases b; simp)+
  show ?thesis using assms
    by (cases "max_concurrent_streams s"; cases "max_header_list_size s"; cases s; cases t)
      (simp_all add: settings_parameters_def settings_apply_def settings_ok_def setting_names flag not_less)
qed

subsection \<open>A header is read back\<close>

lemma type_from_code_code [simp]: "type_from_code (type_code k) = Some k"
  by (cases k) (simp_all add: type_from_code_def)

lemma be4: fixes w :: u32
  obtains a b c d where "to_be_bytes w = [a, b, c, d]" "from_be_bytes [a, b, c, d] = w"
proof -
  have len: "length (to_be_bytes w) = 4" by (simp add: length_simps)
  have "from_be_bytes (to_be_bytes w) = w" by (rule from_to_be_bytes) simp
  moreover obtain a b c d where "to_be_bytes w = [a, b, c, d]"
    using len by (auto simp: numeral_eq_Suc length_Suc_conv)
  ultimately show thesis using that by metis
qed

lemma be2: fixes w :: u16
  obtains a b where "to_be_bytes w = [a, b]" "from_be_bytes [a, b] = w"
proof -
  have len: "length (to_be_bytes w) = 2" by (simp add: length_simps)
  have "from_be_bytes (to_be_bytes w) = w" by (rule from_to_be_bytes) simp
  moreover obtain a b where "to_be_bytes w = [a, b]"
    using len by (auto simp: numeral_eq_Suc length_Suc_conv)
  ultimately show thesis using that by metis
qed

lemma be4_top:
  fixes w :: u32
  assumes "to_be_bytes w = [a, b, c, d]" "unat w < 2 ^ 24"
  shows "a = 0"
proof -
  have "a = ucast (drop_bit 24 w)" using assms(1) by (simp add: to_be_bytes_def to_le_bytes_def upt_rec)
  moreover have "unat (drop_bit 24 w) = 0" using assms(2) by (simp add: unat_drop_bit_eq drop_bit_nat_def)
  then have "drop_bit 24 w = 0" by (simp add: unat_eq_zero)
  ultimately show ?thesis by simp
qed

lemma MAXIMUM_WINDOW_mask: "MAXIMUM_WINDOW_SIZE = mask 31"
  by (simp add: MAXIMUM_WINDOW_SIZE_def mask_eq_decr_exp)

definition stream_ok :: "u64 \<Rightarrow> bool" where
  "stream_ok sid \<longleftrightarrow> unat sid < 2 ^ 31"

lemma stream_bits: "stream_ok sid \<Longrightarrow> 31 \<le> n \<Longrightarrow> \<not> bit sid n"
proof -
  assume "stream_ok sid" "31 \<le> n"
  then have "take_bit 31 sid = sid" by (simp add: stream_ok_def word_unat_eq_iff unsigned_take_bit_eq take_bit_nat_eq_self)
  then show "\<not> bit sid n" using \<open>31 \<le> n\<close> by (metis bit_take_bit_iff not_le)
qed

lemma stream_narrow:
  assumes "stream_ok sid"
  shows "(ucast (ucast sid AND MAXIMUM_WINDOW_SIZE :: u32) :: u64) = sid"
    "(ucast sid AND MAXIMUM_WINDOW_SIZE :: u32) = ucast sid"
    "(ucast (ucast sid :: u32) :: u64) = sid"
  using stream_bits [OF assms] unfolding MAXIMUM_WINDOW_mask
  by (auto intro!: bit_word_eqI simp: bit_simps not_le [symmetric])

lemma header_roundtrip:
  assumes "unat (fh_length h) < 2 ^ 24" "stream_ok (fh_stream h)"
  shows "header_decode (header_encode h @ rest) = (fh_length h, Some h)" "length (header_encode h) = HEADER_SIZE"
proof -
  obtain a b c d where len: "to_be_bytes (fh_length h) = [a, b, c, d]" "from_be_bytes [a, b, c, d] = fh_length h" by (rule be4)
  have "a = 0" using be4_top [OF len(1) assms(1)] .
  moreover obtain p q r s where "to_be_bytes (ucast (fh_stream h) AND MAXIMUM_WINDOW_SIZE :: u32) = [p, q, r, s]"
    "from_be_bytes [p, q, r, s] = (ucast (fh_stream h) AND MAXIMUM_WINDOW_SIZE :: u32)" by (rule be4)
  ultimately show "header_decode (header_encode h @ rest) = (fh_length h, Some h)"
    "length (header_encode h) = HEADER_SIZE"
    using len stream_narrow [OF assms(2)]
    by (simp_all add: header_encode_def header_decode_def HEADER_SIZE_def and.assoc Let_def)
qed

subsection \<open>A frame is read back\<close>

text \<open>What the format allows a frame to be: on the right kind of stream, with its numbers in range.\<close>

fun frame_ok :: "h2_frame \<Rightarrow> bool" where
  "frame_ok (Data sid _ _) \<longleftrightarrow> sid \<noteq> 0 \<and> stream_ok sid"
| "frame_ok (Headers sid _ _ _) \<longleftrightarrow> sid \<noteq> 0 \<and> stream_ok sid"
| "frame_ok (Priority sid dependency _ _) \<longleftrightarrow> sid \<noteq> 0 \<and> stream_ok sid \<and> stream_ok dependency"
| "frame_ok (RstStream sid _) \<longleftrightarrow> sid \<noteq> 0 \<and> stream_ok sid"
| "frame_ok (Settings ack params) \<longleftrightarrow> (ack \<longrightarrow> params = [])"
| "frame_ok (PushPromise sid promised _) \<longleftrightarrow> sid \<noteq> 0 \<and> stream_ok sid \<and> stream_ok promised"
| "frame_ok (Ping _ payload) \<longleftrightarrow> length payload = 8"
| "frame_ok (GoAway last_id _ _) \<longleftrightarrow> stream_ok last_id"
| "frame_ok (WindowUpdate sid increment) \<longleftrightarrow> stream_ok sid \<and> increment \<noteq> 0 \<and> increment \<le> MAXIMUM_WINDOW_SIZE"
| "frame_ok (Continuation sid _ _) \<longleftrightarrow> sid \<noteq> 0 \<and> stream_ok sid"

lemmas flag_defs = flagged_def END_STREAM_def ACK_def END_HEADERS_def PADDED_def FLAG_PRIORITY_def

lemma frame_flags_read [simp]:
  "flagged (of_bool e * END_STREAM) END_STREAM = e"
  "flagged (of_bool e * ACK) ACK = e"
  "flagged (of_bool h * END_HEADERS) END_HEADERS = h"
  "flagged ((of_bool e * END_STREAM) OR (of_bool h * END_HEADERS)) END_STREAM = e"
  "flagged ((of_bool e * END_STREAM) OR (of_bool h * END_HEADERS)) END_HEADERS = h"
  "\<not> flagged ((of_bool e * END_STREAM) OR (of_bool h * END_HEADERS)) FLAG_PRIORITY"
  "\<not> flagged ((of_bool e * END_STREAM) OR (of_bool h * END_HEADERS)) PADDED"
  "\<not> flagged (of_bool e * END_STREAM) PADDED" "\<not> flagged END_HEADERS PADDED"
  by (cases e; cases h; simp add: flag_defs)+

definition frame_header_of :: "h2_frame \<Rightarrow> frame_header" where
  "frame_header_of f = \<lparr> fh_length = word_of_nat (length (frame_payload f)), fh_kind = frame_kind f,
     fh_flags = frame_flags f, fh_stream = frame_stream f \<rparr>"

lemma frame_encode_parts: "frame_encode f = header_encode (frame_header_of f) @ frame_payload f"
  by (simp add: frame_encode_def frame_encode_into_def Let_def blit_def frame_header_of_def header_encode_def HEADER_SIZE_def)

lemma to_from_be4: "length bs = 4 \<Longrightarrow> to_be_bytes (from_be_bytes bs :: u32) = bs"
  by (rule to_from_be_bytes) simp

lemma be_append [simp]:
  "take 4 (to_be_bytes (w :: u32) @ bs) = to_be_bytes w" "drop 4 (to_be_bytes w @ bs) = bs"
  "take 2 (to_be_bytes (v :: u16) @ bs) = to_be_bytes v" "drop 2 (to_be_bytes v @ bs) = bs"
  "from_be_bytes (to_be_bytes w) = w" "from_be_bytes (to_be_bytes v) = v"
  "length (to_be_bytes w) = 4" "length (to_be_bytes v) = 2"
  by (simp_all add: length_simps from_to_be_bytes)

lemma params_read:
  "map (\<lambda>e. (from_be_bytes (take 2 e) :: u16, from_be_bytes (drop 2 e) :: u32))
     (chunks_exact 6 (concat (map (\<lambda>(name, v). to_be_bytes name @ to_be_bytes v) params))) = params"
  "length (concat (map (\<lambda>(name :: u16, v :: u32). to_be_bytes name @ to_be_bytes v) params)) mod 6 = 0"
proof -
  have "chunks_exact 6 ((to_be_bytes (name :: u16) @ to_be_bytes (v :: u32)) @ bs)
      = (to_be_bytes name @ to_be_bytes v) # chunks_exact 6 bs" for name v bs
    by (rule chunks_exact_append) (simp_all add: length_simps)
  then show "map (\<lambda>e. (from_be_bytes (take 2 e) :: u16, from_be_bytes (drop 2 e) :: u32))
     (chunks_exact 6 (concat (map (\<lambda>(name, v). to_be_bytes name @ to_be_bytes v) params))) = params"
    by (induction params) auto
  show "length (concat (map (\<lambda>(name :: u16, v :: u32). to_be_bytes name @ to_be_bytes v) params)) mod 6 = 0"
    by (induction params) (auto simp: length_simps)
qed

lemma exclusive_read:
  assumes "stream_ok dependency"
  shows "(ucast (((ucast dependency :: u32) OR push_bit 31 (of_bool e)) AND MAXIMUM_WINDOW_SIZE) :: u64) = dependency"
    "((ucast dependency :: u32) OR push_bit 31 (of_bool e)) AND 0x80000000 \<noteq> 0 \<longleftrightarrow> e"
proof -
  show "(ucast (((ucast dependency :: u32) OR push_bit 31 (of_bool e)) AND MAXIMUM_WINDOW_SIZE) :: u64) = dependency"
    using stream_bits [OF assms] unfolding MAXIMUM_WINDOW_mask
    by (cases e) (auto intro!: bit_word_eqI simp: bit_simps not_le [symmetric] simp del: push_bit_of_1)
  have top: "(0x80000000 :: u32) = push_bit 31 1" by simp
  have "w AND push_bit 31 1 \<noteq> 0 \<longleftrightarrow> bit w 31" for w :: u32
  proof
    show "bit w 31" if "w AND push_bit 31 1 \<noteq> 0"
      using that by (metis (no_types, opaque_lifting) and_exp_eq_0_iff_not_bit push_bit_eq_mult mult_1)
    assume "bit w 31"
    then have "bit (w AND push_bit 31 1) 31" by (simp add: bit_simps del: push_bit_of_1)
    then show "w AND push_bit 31 1 \<noteq> 0" by auto
  qed
  then show "((ucast dependency :: u32) OR push_bit 31 (of_bool e)) AND 0x80000000 \<noteq> 0 \<longleftrightarrow> e"
    unfolding top using stream_bits [OF assms, of 31] by (auto simp: bit_simps)
qed

lemma window_mask: "w \<le> MAXIMUM_WINDOW_SIZE \<Longrightarrow> w AND MAXIMUM_WINDOW_SIZE = (w :: u32)"
proof -
  assume "w \<le> MAXIMUM_WINDOW_SIZE"
  then have "unat w < 2 ^ 31" by (simp add: word_le_nat_alt MAXIMUM_WINDOW_SIZE_def)
  then have "take_bit 31 w = w" by (simp add: word_unat_eq_iff unsigned_take_bit_eq take_bit_nat_eq_self)
  then show ?thesis by (simp add: MAXIMUM_WINDOW_mask take_bit_eq_mask)
qed

lemma frame_read:
  assumes "frame_ok f"
  shows "frame_of_payload (frame_header_of f) (frame_payload f) = Inr f"
    "unpadded (frame_header_of f) (frame_payload f) = Inr (frame_payload f)"
    "type_streamed (frame_kind f) = Some b \<Longrightarrow> b = (frame_stream f \<noteq> 0)"
    "stream_ok (frame_stream f)"
proof -
  show "frame_of_payload (frame_header_of f) (frame_payload f) = Inr f"
  proof (cases f)
    case (Settings ack params)
    then show ?thesis using assms params_read
      by (auto simp: frame_of_payload_def frame_header_of_def Let_def)
  qed (use assms in \<open>simp_all add: frame_of_payload_def frame_header_of_def Let_def frame_exact_def stream_narrow
      exclusive_read window_mask nth_append\<close>)
  show "unpadded (frame_header_of f) (frame_payload f) = Inr (frame_payload f)"
    by (cases f) (simp_all add: unpadded_def frame_header_of_def)
  show "type_streamed (frame_kind f) = Some b \<Longrightarrow> b = (frame_stream f \<noteq> 0)" using assms by (cases f) auto
  show "stream_ok (frame_stream f)" using assms by (cases f) (simp_all add: stream_ok_def)
qed

lemma frame_take_encode:
  assumes "frame_ok f" "length (frame_payload f) \<le> unat max_size" "max_size \<le> MAXIMUM_FRAME_SIZE"
  shows "frame_take (frame_encode f @ rest) max_size = (rest, Inr (Some (Inr f)))"
proof -
  let ?h = "frame_header_of f"
  have "unat max_size < 2 ^ 24" using assms(3) by (simp add: word_le_nat_alt MAXIMUM_FRAME_SIZE_def)
  then have small: "length (frame_payload f) < 2 ^ 24" using assms(2) by simp
  then have len: "unat (fh_length ?h) = length (frame_payload f)" by (simp add: frame_header_of_def unat_of_nat)
  have stream: "stream_ok (fh_stream ?h)" using frame_read(4) [OF assms(1)] by (simp add: frame_header_of_def)
  note head = header_roundtrip [OF _ stream]
  have size: "length (header_encode ?h) = 9" using head(2) small len by (simp add: HEADER_SIZE_def)
  have get: "get_range (frame_encode f @ rest) 0 HEADER_SIZE = Some (header_encode ?h)"
    using size by (simp add: get_range_def frame_encode_parts HEADER_SIZE_def)
  have dec: "header_decode (header_encode ?h) = (fh_length ?h, Some ?h)" using head(1) [of "[]"] small len by simp
  have streams: "fh_kind ?h = frame_kind f" "fh_stream ?h = frame_stream f" by (simp_all add: frame_header_of_def)
  have asm: "frame_assemble ?h (frame_payload f) = Inr f"
    using frame_read [OF assms(1)] len by (auto simp: frame_assemble_def streams split: option.split)
  have "\<not> max_size < fh_length ?h" using len assms(2) by (simp add: word_less_nat_alt)
  then show ?thesis using get dec asm size len
    by (simp add: frame_take_def frame_encode_parts HEADER_SIZE_def)
qed

interpretation frames: prefix_codec
  "\<lambda>max_size f. frame_ok f \<and> length (frame_payload f) \<le> unat max_size \<and> max_size \<le> MAXIMUM_FRAME_SIZE"
  "\<lambda>_ f. frame_encode f"
  "\<lambda>max_size input. case frame_take input max_size of
     (rest, Inr (Some (Inr f))) \<Rightarrow> Some (length input - length rest, f) | _ \<Rightarrow> None"
  by unfold_locales (auto simp: frame_take_encode, auto simp: frame_encode_parts header_encode_def Let_def)

subsection \<open>What is read is a frame the format allows\<close>

lemma masked_ok: "stream_ok (ucast (w AND MAXIMUM_WINDOW_SIZE :: u32))"
proof -
  have "w AND MAXIMUM_WINDOW_SIZE = take_bit 31 w" by (simp add: MAXIMUM_WINDOW_mask take_bit_eq_mask)
  moreover have "unat (take_bit 31 w) < 2 ^ 31" using take_bit_nat_less_exp [of 31 "unat w"] by (simp add: unsigned_take_bit_eq)
  moreover have "unat (ucast v :: u64) = unat v" for v :: u32
  proof -
    have "uint (ucast v :: u64) = uint v" by (simp add: uint_up_ucast is_up)
    then show ?thesis by (simp only: unat_eq_nat_uint)
  qed
  ultimately show ?thesis by (simp add: stream_ok_def)
qed

lemma masked_le: "(w :: u32) AND MAXIMUM_WINDOW_SIZE \<le> MAXIMUM_WINDOW_SIZE"
  by (simp add: word_and_le1)

lemma frame_of_payload_ok:
  assumes "frame_of_payload h payload = Inr f" "stream_ok (fh_stream h)"
    "type_streamed (fh_kind h) = Some True \<Longrightarrow> fh_stream h \<noteq> 0"
  shows "frame_ok f \<and> frame_kind f = fh_kind h"
  using assms
  by (cases "fh_kind h") (auto simp: frame_of_payload_def Let_def res_bind_Inr_iff frame_exact_def masked_ok masked_le
      split: if_splits)

lemma frame_take_ok:
  assumes "frame_take buffer max_size = (rest, Inr (Some (Inr f)))"
  shows "frame_ok f"
proof -
  obtain octets where get: "get_range buffer 0 HEADER_SIZE = Some octets"
    using assms by (auto simp: frame_take_def split: option.splits)
  obtain len header where hdr: "header_decode octets = (len, header)" by fastforce
  obtain h payload where h: "header = Some h" and f: "frame_assemble h payload = Inr f"
    using assms get hdr by (auto simp: frame_take_def Let_def res_bind_Inr_iff split: if_splits option.splits)
  have "stream_ok (fh_stream h)" using h hdr masked_ok by (auto simp: header_decode_def Let_def)
  moreover obtain a where a: "frame_of_payload h a = Inr f" "type_streamed (fh_kind h) = Some True \<Longrightarrow> fh_stream h \<noteq> 0"
    using f by (auto simp: frame_assemble_def res_bind_Inr_iff split: if_splits option.splits)
  ultimately show ?thesis using frame_of_payload_ok [OF a(1)] a(2) by blast
qed

lemma frame_parse_ok: "frame_parse buffer max_size = (rest, Inr (Some f)) \<Longrightarrow> frame_ok f \<and> length rest < length buffer"
proof (induction buffer max_size rule: frame_parse.induct)
  case (1 buffer max_size)
  obtain rest1 r where t: "frame_take buffer max_size = (rest1, r)" by fastforce
  then show ?case using 1 frame_take_ok [of buffer max_size rest f] frame_take_shorter [of buffer max_size rest1]
    by (subst (asm) (2) frame_parse.simps) (auto split: sum.splits option.splits intro: less_trans)
qed

subsection \<open>Properties\<close>

text \<open>C14: a frame the format allows, written out, is read back whole whatever follows it, by a peer
  whose advertised maximum its payload is within.\<close>

theorem h2_frame_roundtrip:
  assumes "frame_ok f" "length (frame_payload f) \<le> unat max_size" "max_size \<le> MAXIMUM_FRAME_SIZE"
  shows "frame_parse (frame_encode_into f out @ rest) max_size = frame_parse (out @ frame_encode f @ rest) max_size \<and>
    frame_parse (frame_encode f @ rest) max_size = (rest, Inr (Some f))"
proof
  have "frame_encode_into f out = out @ frame_encode f"
    by (simp add: frame_encode_def frame_encode_into_def Let_def blit_def header_encode_def HEADER_SIZE_def)
  then show "frame_parse (frame_encode_into f out @ rest) max_size = frame_parse (out @ frame_encode f @ rest) max_size"
    by simp
  show "frame_parse (frame_encode f @ rest) max_size = (rest, Inr (Some f))"
    by (subst frame_parse.simps) (simp add: frame_take_encode [OF assms])
qed

theorem h2_frame_roundtrip_witness:
  "frame_parse (frame_encode (WindowUpdate 3 100) @ [7]) 16384 = ([7], Inr (Some (WindowUpdate 3 100)))"
proof -
  have "frame_ok (WindowUpdate 3 100)" by (simp add: stream_ok_def MAXIMUM_WINDOW_SIZE_def)
  moreover have "length (frame_payload (WindowUpdate 3 100)) \<le> unat (16384 :: u32)" by simp
  ultimately show ?thesis using h2_frame_roundtrip [of "WindowUpdate 3 100" 16384 "[]" "[7]"]
    by (simp add: MAXIMUM_FRAME_SIZE_def)
qed

text \<open>C15: whatever the octets, a frame that is read is one the format allows: on a stream of the kind
  its type asks for, its identifiers within 31 bits, an acknowledgement of settings empty and a
  window increment not zero; and reading it shortens the buffer.\<close>

theorem h2_frame_valid:
  assumes "frame_parse buffer max_size = (rest, Inr (Some f))"
  shows "frame_ok f \<and> length rest < length buffer"
  using assms by (rule frame_parse_ok)

theorem h2_frame_valid_witness: "frame_ok (WindowUpdate 0 1)"
proof -
  have "frame_ok (WindowUpdate 0 1)" if "frame_parse (frame_encode (WindowUpdate 0 1)) 16384 = ([], Inr (Some (WindowUpdate 0 1)))"
    using h2_frame_valid [OF that] by simp
  moreover have "frame_parse (frame_encode (WindowUpdate 0 1)) 16384 = ([], Inr (Some (WindowUpdate 0 1)))"
    using frame_take_encode [of "WindowUpdate 0 1" 16384 "[]"]
    by (subst frame_parse.simps) (simp add: stream_ok_def MAXIMUM_WINDOW_SIZE_def MAXIMUM_FRAME_SIZE_def)
  ultimately show ?thesis by blast
qed

text \<open>A frame of unknown type is stepped over, one that has not arrived leaves the buffer as it is,
  and one above the advertised maximum is refused before its payload is waited for.\<close>

lemma h2_frame_skipped:
  assumes "length octets = HEADER_SIZE" "header_decode octets = (len, header)"
  shows "(header = None \<and> len \<le> max_size \<and> length payload = unat len \<longrightarrow>
      frame_parse (octets @ payload @ rest) max_size = frame_parse rest max_size) \<and>
    (len \<le> max_size \<and> length payload < unat len \<longrightarrow> frame_parse (octets @ payload) max_size = (octets @ payload, Inr None)) \<and>
    (max_size < len \<longrightarrow> frame_parse (octets @ rest) max_size = (octets @ rest, Inl Limit))"
proof -
  have get: "get_range (octets @ more') 0 HEADER_SIZE = Some octets" for more'
    using assms(1) get_range_prefix [of octets more'] by simp
  show ?thesis
  proof (intro conjI impI)
    assume "header = None \<and> len \<le> max_size \<and> length payload = unat len"
    then have "header = None" "\<not> max_size < len" "length payload = unat len" by auto
    then show "frame_parse (octets @ payload @ rest) max_size = frame_parse rest max_size"
      using assms by (subst frame_parse.simps) (simp add: frame_take_def get Let_def)
  next
    assume "len \<le> max_size \<and> length payload < unat len"
    then have "\<not> max_size < len" "length payload < unat len" by auto
    then show "frame_parse (octets @ payload) max_size = (octets @ payload, Inr None)"
      using assms by (subst frame_parse.simps) (simp add: frame_take_def get Let_def)
  next
    assume "max_size < len"
    then show "frame_parse (octets @ rest) max_size = (octets @ rest, Inl Limit)"
      using assms by (subst frame_parse.simps) (simp add: frame_take_def get)
  qed
qed

lemma h2_frame_skipped_witness:
  "frame_parse ([0, 0, 1, 0x20, 0, 0, 0, 0, 0] @ [9] @ [1, 2]) 16384 = frame_parse [1, 2] 16384"
proof -
  have "header_decode [0, 0, 1, 0x20, 0, 0, 0, 0, 0] = (1, None)" by code_simp
  from h2_frame_skipped [OF _ this, of 16384 "[9]" "[1, 2]"] show ?thesis by (simp add: HEADER_SIZE_def)
qed

text \<open>C16: settings one end announces are what the other comes to hold, onto whatever it assumed, and no
  run of parameters takes a window or a frame size out of the range the format allows.\<close>

theorem settings_exchange:
  assumes "settings_ok s"
  shows "settings_apply_all settings_peer (settings_parameters s) = Inr s \<and>
    (\<forall>params s'. settings_apply_all s params = Inr s' \<longrightarrow> settings_ok s')"
  using assms settings_apply_all_ok by (simp add: settings_exchanged settings_peer_def)

theorem settings_exchange_witness:
  "settings_apply_all settings_peer (settings_parameters settings_default) = Inr settings_default"
  by (rule settings_exchange [THEN conjunct1])
    (simp add: settings_ok_def settings_default_def MAXIMUM_WINDOW_SIZE_def DEFAULT_MAX_FRAME_SIZE_def
      MAXIMUM_FRAME_SIZE_def DEFAULT_INITIAL_WINDOW_SIZE_def)

end
