(* ===== verification/Header_Section.thy ===== *)
theory Header_Section
  imports Header_Fields
begin

section \<open>Field sections (Headers in src/src/models.rs)\<close>

text \<open>
  An ordered list of fields with a word of presence bits that lets a lookup rule itself out. A
  lookup by a name is shown to answer what a case-insensitive walk of the list would, whatever
  the bits say. The assertions of debug builds are stated as what the callers owe.
\<close>

record headers =
  hs_fields :: "header_field list"
  hs_present :: u32

definition presence_bit :: "bool \<Rightarrow> nat \<Rightarrow> u32" where
  "presence_bit matched index = push_bit index (of_bool matched)"

definition well_known :: "bytes \<Rightarrow> u32" where
  "well_known name =
     (case name of
        [] \<Rightarrow> 0
      | first # _ \<Rightarrow>
          (let n = length name in
           if n = 2 \<and> first = of_char CHR ''t'' then presence_bit (name = ascii ''te'') 0
           else if n = 4 \<and> first = of_char CHR ''h'' then presence_bit (name = ascii ''host'') 1
           else if n = 4 \<and> first = of_char CHR ''d'' then presence_bit (name = ascii ''date'') 2
           else if n = 6 \<and> first = of_char CHR ''s'' then presence_bit (name = ascii ''server'') 3
           else if n = 6 \<and> first = of_char CHR ''c'' then presence_bit (name = ascii ''cookie'') 4
           else if n = 7 \<and> first = of_char CHR ''u'' then presence_bit (name = ascii ''upgrade'') 5
           else if n = 8 \<and> first = of_char CHR ''l'' then presence_bit (name = ascii ''location'') 6
           else if n = 10 \<and> first = of_char CHR ''c'' then presence_bit (name = ascii ''connection'') 7
           else if n = 10 \<and> first = of_char CHR ''k'' then presence_bit (name = ascii ''keep-alive'') 8
           else if n = 10 \<and> first = of_char CHR ''s'' then presence_bit (name = ascii ''set-cookie'') 9
           else if n = 12 \<and> first = of_char CHR ''c'' then presence_bit (name = ascii ''content-type'') 10
           else if n = 14 \<and> first = of_char CHR ''c'' then presence_bit (name = ascii ''content-length'') 11
           else if n = 15 \<and> first = of_char CHR ''a'' then presence_bit (name = ascii ''accept-encoding'') 12
           else if n = 16 \<and> first = of_char CHR ''c'' then presence_bit (name = ascii ''content-encoding'') 13
           else if n = 16 \<and> first = of_char CHR ''p'' then presence_bit (name = ascii ''proxy-connection'') 14
           else if n = 17 \<and> first = of_char CHR ''t'' then presence_bit (name = ascii ''transfer-encoding'') 15
           else if n = 25 \<and> first = of_char CHR ''s'' then presence_bit (name = ascii ''strict-transport-security'') 16
           else 0))"

definition headers_new :: headers where
  "headers_new = \<lparr> hs_fields = [], hs_present = 0 \<rparr>"

definition headers_len :: "headers \<Rightarrow> nat" where
  "headers_len h = length (hs_fields h)"

definition headers_is_empty :: "headers \<Rightarrow> bool" where
  "headers_is_empty h \<longleftrightarrow> hs_fields h = []"

definition eq_ignore_case :: "bytes \<Rightarrow> bytes \<Rightarrow> bool" where
  "eq_ignore_case a b \<longleftrightarrow> lowercase a = lowercase b"

definition headers_named :: "bytes \<Rightarrow> bytes \<Rightarrow> bool" where
  "headers_named stored name =
     (if length stored \<noteq> length name then False
      else if stored \<noteq> [] \<and> lower_octet (hd stored) \<noteq> lower_octet (hd name) then False
      else scan_same stored name \<or> eq_ignore_case stored name)"

definition headers_absent :: "headers \<Rightarrow> bytes \<Rightarrow> bool" where
  "headers_absent h name \<longleftrightarrow> (let bit = well_known name in bit \<noteq> 0 \<and> hs_present h AND bit = 0)"

definition field_named :: "bytes \<Rightarrow> header_field \<Rightarrow> bool" where
  "field_named name f \<longleftrightarrow> headers_named (text_bytes (hf_name f)) name"

definition headers_contains :: "headers \<Rightarrow> bytes \<Rightarrow> bool" where
  "headers_contains h name \<longleftrightarrow> \<not> headers_absent h name \<and> list_ex (field_named name) (hs_fields h)"

definition headers_get :: "headers \<Rightarrow> bytes \<Rightarrow> bytes option" where
  "headers_get h name =
     (if headers_absent h name then None
      else map_option (\<lambda>f. text_bytes (hf_value f)) (find (field_named name) (hs_fields h)))"

definition headers_get_all :: "headers \<Rightarrow> bytes \<Rightarrow> bytes list" where
  "headers_get_all h name =
     (let fs = (if headers_absent h name then [] else hs_fields h)
      in map (\<lambda>f. text_bytes (hf_value f)) (filter (field_named name) fs))"

definition headers_push :: "headers \<Rightarrow> utext \<Rightarrow> utext \<Rightarrow> headers" where
  "headers_push h name v =
     h\<lparr> hs_present := hs_present h OR well_known (text_bytes name),
        hs_fields := hs_fields h @ [\<lparr> hf_name = name, hf_value = v \<rparr>] \<rparr>"

definition headers_append :: "headers \<Rightarrow> utext \<Rightarrow> utext \<Rightarrow> headers" where
  "headers_append h name v = headers_push h (make_ascii_lowercase name) v"

definition headers_append_lowercase :: "headers \<Rightarrow> utext \<Rightarrow> utext \<Rightarrow> headers" where
  "headers_append_lowercase h name v = headers_push h name v"

definition headers_insert :: "headers \<Rightarrow> utext \<Rightarrow> utext \<Rightarrow> headers" where
  "headers_insert h name v =
     (let name = make_ascii_lowercase name;
          h = (if headers_absent h (text_bytes name) then h
               else h\<lparr> hs_fields := filter (\<lambda>f. \<not> text_eq (hf_name f) name) (hs_fields h) \<rparr>)
      in headers_push h name v)"

definition presence :: "header_field list \<Rightarrow> u32" where
  "presence fs = fold (\<lambda>f present. present OR well_known (text_bytes (hf_name f))) fs 0"

definition headers_remove :: "headers \<Rightarrow> bytes \<Rightarrow> headers \<times> bool" where
  "headers_remove h name =
     (if headers_absent h name then (h, False)
      else let kept = filter (\<lambda>f. \<not> field_named name f) (hs_fields h)
        in if length kept = length (hs_fields h) then (h\<lparr> hs_fields := kept \<rparr>, False)
           else (\<lparr> hs_fields = kept, hs_present = presence kept \<rparr>, True))"

definition lower_name :: "header_field \<Rightarrow> header_field" where
  "lower_name f =
     (if list_ex is_upper (text_bytes (hf_name f)) then f\<lparr> hf_name := make_ascii_lowercase (hf_name f) \<rparr> else f)"

definition headers_from_fields :: "header_field list \<Rightarrow> headers" where
  "headers_from_fields fs =
     (let fs = map lower_name fs in \<lparr> hs_fields = fs, hs_present = presence fs \<rparr>)"

definition headers_adopt :: "header_field list \<Rightarrow> u32 \<Rightarrow> headers" where
  "headers_adopt fs present = \<lparr> hs_fields = fs, hs_present = present \<rparr>"

definition headers_eq :: "headers \<Rightarrow> headers \<Rightarrow> bool" where
  "headers_eq h g \<longleftrightarrow> list_all2 (\<lambda>a b. text_eq (hf_name a) (hf_name b) \<and> text_eq (hf_value a) (hf_value b))
     (hs_fields h) (hs_fields g)"

subsection \<open>The presence bits\<close>

definition WELL_KNOWN :: "bytes list" where
  "WELL_KNOWN = map ascii [''te'', ''host'', ''date'', ''server'', ''cookie'', ''upgrade'', ''location'', ''connection'',
     ''keep-alive'', ''set-cookie'', ''content-type'', ''content-length'', ''accept-encoding'', ''content-encoding'',
     ''proxy-connection'', ''transfer-encoding'', ''strict-transport-security'']"

lemma presence_bit_iff: "presence_bit b i \<noteq> 0 \<Longrightarrow> b"
  by (cases b) (simp_all add: presence_bit_def)

lemma well_known_name: "well_known name \<noteq> 0 \<Longrightarrow> name \<in> set WELL_KNOWN"
  unfolding well_known_def Let_def
  by (auto simp: WELL_KNOWN_def dest!: presence_bit_iff split: list.splits if_splits)

lemma well_known_lower: "well_known name \<noteq> 0 \<Longrightarrow> lowercase name = name"
proof -
  have "list_all (\<lambda>name. lowercase name = name) WELL_KNOWN" by code_simp
  then show "well_known name \<noteq> 0 \<Longrightarrow> lowercase name = name" using well_known_name by (auto simp: list_all_iff)
qed

lemma presence_fold:
  "fold (\<lambda>f p. p OR well_known (text_bytes (hf_name f))) fs present = present OR presence fs"
proof -
  have "fold (\<lambda>f p. p OR well_known (text_bytes (hf_name f))) fs (p OR q) =
      p OR fold (\<lambda>f p. p OR well_known (text_bytes (hf_name f))) fs q" for p q
    by (induction fs arbitrary: q) (simp_all add: or.assoc)
  from this [of present 0] show ?thesis by (simp add: presence_def)
qed

lemma presence_simps [simp]:
  "presence [] = 0" "presence (f # fs) = well_known (text_bytes (hf_name f)) OR presence fs"
  "presence (fs @ [f]) = presence fs OR well_known (text_bytes (hf_name f))"
  using presence_fold [of fs "well_known (text_bytes (hf_name f))"] by (simp_all add: presence_def)

lemma presence_holds: "f \<in> set fs \<Longrightarrow> presence fs AND well_known (text_bytes (hf_name f)) = well_known (text_bytes (hf_name f))"
  by (induction fs) (auto simp: bit_eq_iff bit_simps)

lemma presence_filter:
  assumes "\<And>f. f \<in> set fs \<Longrightarrow> \<not> P f \<Longrightarrow> well_known (text_bytes (hf_name f)) = w"
  shows "presence (filter P fs) OR w = presence fs OR w"
  using assms by (induction fs) (auto simp: bit_eq_iff bit_simps)

subsection \<open>A section is its list of fields\<close>

definition headers_ok :: "headers \<Rightarrow> bool" where
  "headers_ok h \<longleftrightarrow> hs_present h = presence (hs_fields h) \<and>
     (\<forall>f\<in>set (hs_fields h). text_ok (hf_name f) \<and> text_ok (hf_value f) \<and>
        lowercase (text_bytes (hf_name f)) = text_bytes (hf_name f))"

definition content :: "headers \<Rightarrow> (bytes \<times> bytes) list" where
  "content h = map (\<lambda>f. (text_bytes (hf_name f), text_bytes (hf_value f))) (hs_fields h)"

lemma headers_named_spec: "headers_named stored name \<longleftrightarrow> lowercase stored = lowercase name"
proof (cases "length stored = length name")
  case True
  then show ?thesis by (cases stored; cases name) (auto simp: headers_named_def eq_ignore_case_def scan_same_spec)
next
  case False
  then show ?thesis using map_eq_imp_length_eq by (auto simp: headers_named_def)
qed

lemma field_named_ok: "headers_ok h \<Longrightarrow> f \<in> set (hs_fields h) \<Longrightarrow> field_named name f \<longleftrightarrow> text_bytes (hf_name f) = lowercase name"
  by (auto simp: field_named_def headers_named_spec headers_ok_def)

lemma absent_spec:
  assumes "headers_ok h" "headers_absent h name" "f \<in> set (hs_fields h)"
  shows "\<not> field_named name f"
proof
  assume "field_named name f"
  then have f: "text_bytes (hf_name f) = lowercase name" using field_named_ok [OF assms(1,3)] by simp
  have wk: "well_known name \<noteq> 0" "presence (hs_fields h) AND well_known name = 0"
    using assms(1,2) by (auto simp: headers_absent_def headers_ok_def Let_def)
  then have "text_bytes (hf_name f) = name" using f well_known_lower by simp
  then show False using presence_holds [OF assms(3)] wk by simp
qed

lemma content_filter:
  assumes "headers_ok h"
  shows "filter (\<lambda>(k, v). k = lowercase name) (content h) =
    map (\<lambda>f. (text_bytes (hf_name f), text_bytes (hf_value f))) (filter (field_named name) (hs_fields h))"
  using field_named_ok [OF assms] unfolding content_def filter_map
  by (intro arg_cong [where f = "map _"] filter_cong) auto

lemma find_filter_hd: "find P xs = (case filter P xs of [] \<Rightarrow> None | x # _ \<Rightarrow> Some x)"
  by (induction xs) auto

lemma headers_get_all_spec:
  assumes "headers_ok h"
  shows "headers_get_all h name = map snd (filter (\<lambda>(k, v). k = lowercase name) (content h))"
  using absent_spec [OF assms, of name]
  by (auto simp: headers_get_all_def content_filter [OF assms] Let_def)

lemma headers_get_spec:
  assumes "headers_ok h"
  shows "headers_get h name = (case headers_get_all h name of [] \<Rightarrow> None | v # _ \<Rightarrow> Some v)"
  by (auto simp: headers_get_def headers_get_all_def Let_def find_filter_hd split: list.splits)

lemma headers_contains_spec:
  assumes "headers_ok h"
  shows "headers_contains h name \<longleftrightarrow> headers_get_all h name \<noteq> []"
  by (auto simp: headers_contains_def headers_get_all_def Let_def list_ex_iff filter_empty_conv)

lemma headers_push_ok:
  assumes "headers_ok h" "text_ok name" "text_ok v" "lowercase (text_bytes name) = text_bytes name"
  shows "headers_ok (headers_push h name v)" "content (headers_push h name v) = content h @ [(text_bytes name, text_bytes v)]"
  using assms by (auto simp: headers_ok_def headers_push_def content_def)

lemma lower_octet_idem [simp]: "lower_octet (lower_octet b) = lower_octet b"
  by (rule octet_all) code_simp

lemma lower_octet_comp [simp]: "lower_octet \<circ> lower_octet = lower_octet"
  by auto

lemma headers_append_ok:
  assumes "headers_ok h" "text_ok name" "text_ok v"
  shows "headers_ok (headers_append h name v)" "content (headers_append h name v) = content h @ [(lowercase (text_bytes name), text_bytes v)]"
  using headers_push_ok [OF assms(1) _ assms(3)] text_ok_lower [OF assms(2)] by (auto simp: headers_append_def)

lemma headers_insert_ok:
  assumes "headers_ok h" "text_ok name" "text_ok v"
  shows "headers_ok (headers_insert h name v)"
    "content (headers_insert h name v) = filter (\<lambda>(k, _). k \<noteq> lowercase (text_bytes name)) (content h) @
      [(lowercase (text_bytes name), text_bytes v)]"
proof -
  let ?n = "make_ascii_lowercase name" and ?k = "lowercase (text_bytes name)"
  have n: "text_ok ?n" "text_bytes ?n = ?k" using text_ok_lower [OF assms(2)] by auto
  have same: "text_eq (hf_name f) ?n \<longleftrightarrow> text_bytes (hf_name f) = ?k" if "f \<in> set (hs_fields h)" for f
    using assms(1) that n by (auto simp: headers_ok_def text_eq_spec text_ok_eq)
  define kept where "kept = filter (\<lambda>f. \<not> text_eq (hf_name f) ?n) (hs_fields h)"
  have kept: "kept = hs_fields h" if "headers_absent h ?k"
    using absent_spec [OF assms(1) that] field_named_ok [OF assms(1), of _ ?k] same
    by (auto simp: kept_def intro!: filter_True)
  have insert: "headers_insert h name v = headers_push (h\<lparr> hs_fields := kept \<rparr>) ?n v"
    using kept by (cases "headers_absent h ?k") (simp_all add: headers_insert_def n kept_def [symmetric])
  have "presence kept OR well_known ?k = presence (hs_fields h) OR well_known ?k"
    unfolding kept_def using same by (intro presence_filter) auto
  then show "headers_ok (headers_insert h name v)" unfolding insert using assms(1,3) n
    by (auto simp: headers_ok_def headers_push_def kept_def)
  show "content (headers_insert h name v) = filter (\<lambda>(k, _). k \<noteq> ?k) (content h) @ [(?k, text_bytes v)]"
    unfolding insert using n same
    by (auto simp: headers_push_def content_def kept_def filter_map comp_def intro!: arg_cong [where f = "map _"] filter_cong)
qed

lemma headers_remove_ok:
  assumes "headers_ok h"
  shows "headers_ok (fst (headers_remove h name))"
    "content (fst (headers_remove h name)) = filter (\<lambda>(k, _). k \<noteq> lowercase name) (content h)"
    "snd (headers_remove h name) = headers_contains h name"
proof -
  let ?kept = "filter (\<lambda>f. \<not> field_named name f) (hs_fields h)"
  have whole: "?kept = hs_fields h \<longleftrightarrow> \<not> list_ex (field_named name) (hs_fields h)"
    by (auto simp: list_ex_iff filter_id_conv)
  have len: "length ?kept = length (hs_fields h) \<longleftrightarrow> ?kept = hs_fields h"
    by (metis filter_True filter_id_conv length_filter_less nat_less_le)
  have absent: "?kept = hs_fields h" if "headers_absent h name"
    using absent_spec [OF assms that] by (auto intro!: filter_True)
  have contents: "map (\<lambda>f. (text_bytes (hf_name f), text_bytes (hf_value f))) ?kept
      = filter (\<lambda>(k, _). k \<noteq> lowercase name) (content h)"
    using field_named_ok [OF assms] unfolding content_def filter_map
    by (intro arg_cong [where f = "map _"] filter_cong) auto
  show "headers_ok (fst (headers_remove h name))" using assms whole len absent
    by (auto simp: headers_remove_def headers_ok_def Let_def)
  show "content (fst (headers_remove h name)) = filter (\<lambda>(k, _). k \<noteq> lowercase name) (content h)"
    using contents absent len by (auto simp: headers_remove_def content_def Let_def)
  show "snd (headers_remove h name) = headers_contains h name"
    using whole len by (auto simp: headers_remove_def headers_contains_def Let_def)
qed

lemma lower_name_spec:
  assumes "text_ok (hf_name f)"
  shows "text_ok (hf_name (lower_name f))" "text_bytes (hf_name (lower_name f)) = lowercase (text_bytes (hf_name f))"
    "hf_value (lower_name f) = hf_value f"
proof -
  have same: "lower_octet b = b" if "\<not> is_upper b" for b using that by (auto simp: lower_octet_def is_upper_def)
  then have "lowercase s = s" if "\<not> list_ex is_upper s" for s
    using that by (induction s) auto
  then show "text_ok (hf_name (lower_name f))" "text_bytes (hf_name (lower_name f)) = lowercase (text_bytes (hf_name f))"
    "hf_value (lower_name f) = hf_value f"
    using text_ok_lower [OF assms] assms by (auto simp: lower_name_def)
qed

lemma headers_from_fields_ok:
  assumes "\<forall>f\<in>set fs. text_ok (hf_name f) \<and> text_ok (hf_value f)"
  shows "headers_ok (headers_from_fields fs)"
    "content (headers_from_fields fs) = map (\<lambda>f. (lowercase (text_bytes (hf_name f)), text_bytes (hf_value f))) fs"
  using assms by (auto simp: headers_ok_def headers_from_fields_def content_def Let_def lower_name_spec)

lemma headers_new_ok: "headers_ok headers_new" "content headers_new = []"
  by (simp_all add: headers_ok_def headers_new_def content_def)

subsection \<open>Properties\<close>

text \<open>C34: a lookup answers what a walk of the whole list, ignoring the case of the name asked for, would
  answer, although the presence bits may end it before it begins.\<close>

theorem headers_lookup:
  assumes "headers_ok h"
  shows "headers_get_all h name = map snd (filter (\<lambda>(k, v). k = lowercase name) (content h)) \<and>
    headers_get h name = map_option snd (find (\<lambda>(k, v). k = lowercase name) (content h)) \<and>
    headers_contains h name = (\<exists>v. (lowercase name, v) \<in> set (content h))"
proof (intro conjI)
  show all: "headers_get_all h name = map snd (filter (\<lambda>(k, v). k = lowercase name) (content h))"
    using assms by (rule headers_get_all_spec)
  show "headers_get h name = map_option snd (find (\<lambda>(k, v). k = lowercase name) (content h))"
    unfolding headers_get_spec [OF assms] all find_filter_hd by (auto split: list.splits)
  show "headers_contains h name = (\<exists>v. (lowercase name, v) \<in> set (content h))"
    unfolding headers_contains_spec [OF assms] all by (auto simp: filter_empty_conv)
qed

theorem headers_lookup_witness:
  "headers_get headers_new (ascii ''Host'') = map_option snd (find (\<lambda>(k, v). k = lowercase (ascii ''Host'')) (content headers_new))"
  using headers_lookup [OF headers_new_ok(1)] by blast

text \<open>C35: every change of a section keeps its presence bits and its names as they must be, and changes
  the list of fields as it says: appending at the end, inserting in place of every field of the
  name, removing every field of the name and telling whether there was one, and taking over a
  list with its names lowercased.\<close>

theorem headers_changes:
  assumes "headers_ok h" "text_ok name" "text_ok v" "\<forall>f\<in>set fs. text_ok (hf_name f) \<and> text_ok (hf_value f)"
  shows "(headers_ok (headers_append h name v) \<and>
      content (headers_append h name v) = content h @ [(lowercase (text_bytes name), text_bytes v)]) \<and>
    (headers_ok (headers_insert h name v) \<and>
      content (headers_insert h name v) =
        filter (\<lambda>(k, _). k \<noteq> lowercase (text_bytes name)) (content h) @ [(lowercase (text_bytes name), text_bytes v)]) \<and>
    (headers_ok (fst (headers_remove h key)) \<and>
      content (fst (headers_remove h key)) = filter (\<lambda>(k, _). k \<noteq> lowercase key) (content h) \<and>
      snd (headers_remove h key) = headers_contains h key) \<and>
    (headers_ok (headers_from_fields fs) \<and>
      content (headers_from_fields fs) = map (\<lambda>f. (lowercase (text_bytes (hf_name f)), text_bytes (hf_value f))) fs)"
  by (intro conjI headers_append_ok headers_insert_ok headers_remove_ok headers_from_fields_ok assms)

theorem headers_changes_witness:
  "content (headers_insert headers_new (text_of (ascii ''Te'')) (text_of (ascii ''x''))) = [(ascii ''te'', ascii ''x'')]"
proof -
  have "text_ok (text_of (ascii ''Te''))" "text_ok (text_of (ascii ''x''))" by (unfold text_ok_of) (code_simp+)
  from headers_changes [OF headers_new_ok(1) this, of "[]"]
  have "content (headers_insert headers_new (text_of (ascii ''Te'')) (text_of (ascii ''x'')))
    = [(lowercase (ascii ''Te''), ascii ''x'')]" by (simp only: headers_new_ok text_bytes_of) simp
  moreover have "lowercase (ascii ''Te'') = ascii ''te''" by code_simp
  ultimately show ?thesis by simp
qed

end
