(* ===== verification/Decimal.thy ===== *)
theory Decimal
  imports Prelude
begin

section \<open>Decimal numbers in text\<close>

text \<open>\<open>to_string\<close> of an unsigned integer and \<open>str::parse\<close> back, as the standard library has them.\<close>

function show_decimal :: "nat \<Rightarrow> bytes" where
  "show_decimal n = (if n < 10 then [word_of_nat (48 + n)] else show_decimal (n div 10) @ [word_of_nat (48 + n mod 10)])"
  by pat_completeness auto
termination by (relation "measure id") auto

declare show_decimal.simps [simp del]

definition is_digit :: "octet \<Rightarrow> bool" where
  "is_digit b \<longleftrightarrow> 0x30 \<le> b \<and> b \<le> 0x39"

definition digits_value :: "bytes \<Rightarrow> nat" where
  "digits_value ds = fold (\<lambda>d acc. 10 * acc + (unat d - 48)) ds 0"

text \<open>A sign is allowed in front, the digits are not optional, and the value has to fit.\<close>

definition parse_unsigned :: "nat \<Rightarrow> bytes \<Rightarrow> nat option" where
  "parse_unsigned most s =
     (let ds = (case s of [] \<Rightarrow> [] | c # cs \<Rightarrow> if c = of_char CHR ''+'' \<and> cs \<noteq> [] then cs else s)
      in if ds \<noteq> [] \<and> list_all is_digit ds \<and> digits_value ds \<le> most then Some (digits_value ds) else None)"

lemma digit_octet: "k < 10 \<Longrightarrow> is_digit (word_of_nat (48 + k)) \<and> unat (word_of_nat (48 + k) :: octet) - 48 = k"
proof -
  have "\<forall>k \<in> set [0..<10]. is_digit (word_of_nat (48 + k)) \<and> unat (word_of_nat (48 + k) :: octet) - 48 = k" by code_simp
  then show "k < 10 \<Longrightarrow> is_digit (word_of_nat (48 + k)) \<and> unat (word_of_nat (48 + k) :: octet) - 48 = k" by simp
qed

lemma show_decimal_digits: "show_decimal n \<noteq> [] \<and> list_all is_digit (show_decimal n) \<and> digits_value (show_decimal n) = n"
proof (induction n rule: show_decimal.induct)
  case (1 n)
  show ?case
  proof (cases "n < 10")
    case True
    then show ?thesis using digit_octet [of n] by (subst (1 2 3) show_decimal.simps) (simp add: digits_value_def)
  next
    case False
    then show ?thesis using 1 digit_octet [of "n mod 10"]
      by (subst (1 2 3) show_decimal.simps) (simp add: digits_value_def)
  qed
qed

lemma parse_show: "n \<le> most \<Longrightarrow> parse_unsigned most (show_decimal n) = Some n"
proof -
  assume n: "n \<le> most"
  obtain d ds where shown: "show_decimal n = d # ds" using show_decimal_digits [of n] by (cases "show_decimal n") auto
  have "is_digit d" using show_decimal_digits [of n] shown by simp
  then have "d \<noteq> of_char CHR ''+''" by (auto simp: is_digit_def)
  then show ?thesis using show_decimal_digits [of n] n by (simp add: parse_unsigned_def shown)
qed

end
