(* ===== verification/Strings.thy ===== *)
theory Strings
  imports Prelude "HOL-Library.Sublist"
begin

section \<open>Text as the standard library takes it apart\<close>

text \<open>
  Operations on \<open>&str\<close> the program rests on, over the UTF-8 octets of the text. The separators are
  ASCII, which no octet of a longer character is.
\<close>

subsection \<open>Splitting\<close>

text \<open>\<open>str::split_once\<close> and \<open>str::rsplit_once\<close> at one ASCII character, and at a longer separator.\<close>

definition split_once :: "octet \<Rightarrow> bytes \<Rightarrow> (bytes \<times> bytes) option" where
  "split_once c s = (if c \<in> set s then Some (takeWhile (\<lambda>b. b \<noteq> c) s, tl (dropWhile (\<lambda>b. b \<noteq> c) s)) else None)"

definition rsplit_once :: "octet \<Rightarrow> bytes \<Rightarrow> (bytes \<times> bytes) option" where
  "rsplit_once c s = map_option (\<lambda>(after, before). (rev before, rev after)) (split_once c (rev s))"

definition after_last :: "octet \<Rightarrow> bytes \<Rightarrow> bytes" where
  "after_last c s = rev (takeWhile (\<lambda>b. b \<noteq> c) (rev s))"

fun split_string :: "bytes \<Rightarrow> bytes \<Rightarrow> (bytes \<times> bytes) option" where
  "split_string sep [] = (if sep = [] then Some ([], []) else None)"
| "split_string sep (b # s) =
     (if prefix sep (b # s) then Some ([], drop (length sep) (b # s))
      else map_option (\<lambda>(before, after). (b # before, after)) (split_string sep s))"

text \<open>\<open>str::split\<close> at one ASCII character: there is always one piece more than separators.\<close>

function split_at :: "octet \<Rightarrow> bytes \<Rightarrow> bytes list" where
  "split_at c s =
     (if c \<in> set s then takeWhile (\<lambda>b. b \<noteq> c) s # split_at c (tl (dropWhile (\<lambda>b. b \<noteq> c) s)) else [s])"
  by pat_completeness auto
termination
proof (relation "measure (\<lambda>(c, s). length s)")
  fix c :: octet and s :: bytes
  assume "c \<in> set s"
  then have "dropWhile (\<lambda>b. b \<noteq> c) s \<noteq> []" by simp
  then have "length (tl (dropWhile (\<lambda>b. b \<noteq> c) s)) < length (dropWhile (\<lambda>b. b \<noteq> c) s)" by simp
  then show "((c, tl (dropWhile (\<lambda>b. b \<noteq> c) s)), c, s) \<in> measure (\<lambda>(c, s). length s)"
    using length_dropWhile_le [of "\<lambda>b. b \<noteq> c" s] by simp
qed simp

declare split_at.simps [simp del]

subsection \<open>Trimming\<close>

text \<open>\<open>str::trim\<close> strips the characters Unicode calls white space, each a short run of octets.\<close>

definition WHITE_SPACE :: "bytes list" where
  "WHITE_SPACE = [[0x09], [0x0a], [0x0b], [0x0c], [0x0d], [0x20], [0xc2, 0x85], [0xc2, 0xa0], [0xe1, 0x9a, 0x80],
     [0xe2, 0x80, 0x80], [0xe2, 0x80, 0x81], [0xe2, 0x80, 0x82], [0xe2, 0x80, 0x83], [0xe2, 0x80, 0x84], [0xe2, 0x80, 0x85],
     [0xe2, 0x80, 0x86], [0xe2, 0x80, 0x87], [0xe2, 0x80, 0x88], [0xe2, 0x80, 0x89], [0xe2, 0x80, 0x8a], [0xe2, 0x80, 0xa8],
     [0xe2, 0x80, 0xa9], [0xe2, 0x80, 0xaf], [0xe2, 0x81, 0x9f], [0xe3, 0x80, 0x80]]"

function trim_front :: "bytes list \<Rightarrow> bytes \<Rightarrow> bytes" where
  "trim_front spaces s =
     (case find (\<lambda>w. w \<noteq> [] \<and> take (length w) s = w) spaces of
        None \<Rightarrow> s
      | Some w \<Rightarrow> trim_front spaces (drop (length w) s))"
  by pat_completeness auto
termination by (relation "measure (\<lambda>(spaces, s). length s)") (auto simp: find_Some_iff intro!: diff_less)

declare trim_front.simps [simp del]

definition trim :: "bytes \<Rightarrow> bytes" where
  "trim s = rev (trim_front (map rev WHITE_SPACE) (rev (trim_front WHITE_SPACE s)))"

definition trim_matches :: "(octet \<Rightarrow> bool) \<Rightarrow> bytes \<Rightarrow> bytes" where
  "trim_matches P s = rev (dropWhile P (rev (dropWhile P s)))"

definition trim_end_matches :: "(octet \<Rightarrow> bool) \<Rightarrow> bytes \<Rightarrow> bytes" where
  "trim_end_matches P s = rev (dropWhile P (rev s))"

subsection \<open>Lemmas\<close>

lemma map_id_iff: "(\<And>x y. y \<in> set ys \<Longrightarrow> f x = y \<longleftrightarrow> x = y) \<Longrightarrow> map f xs = ys \<longleftrightarrow> xs = ys"
proof (induction ys arbitrary: xs)
  case (Cons y ys)
  then show ?case by (cases xs) auto
qed simp

lemma prefix_take: "prefix sep s \<longleftrightarrow> take (length sep) s = sep"
  by (metis append_eq_conv_conj prefix_def take_is_prefix)

lemma split_string_here: "split_string sep (sep @ after) = Some ([], after)"
proof (cases "sep @ after")
  case (Cons b s)
  then have "prefix sep (b # s)" "drop (length sep) (b # s) = after" by (metis prefixI, metis append_eq_conv_conj)
  then show ?thesis unfolding Cons by simp
qed simp

lemma split_string_spec:
  "split_string sep s = Some (before, after) \<Longrightarrow> (\<And>x y. y \<in> set sep \<Longrightarrow> f x = y \<longleftrightarrow> x = y) \<Longrightarrow>
   s = before @ sep @ after \<and> split_string sep (map f before @ sep @ after') = Some (map f before, after')"
proof (induction sep s arbitrary: before rule: split_string.induct)
  case (1 sep)
  then show ?case by (cases after') (auto split: if_splits)
next
  case (2 sep b s)
  show ?case
  proof (cases "prefix sep (b # s)")
    case True
    then have "before = []" "after = drop (length sep) (b # s)" using 2(2) by auto
    then show ?thesis using True split_string_here by (auto simp: prefix_def)
  next
    case False
    then obtain before' where b: "before = b # before'" "split_string sep s = Some (before', after)"
      using 2(2) by auto
    then have IH: "s = before' @ sep @ after" "split_string sep (map f before' @ sep @ after') = Some (map f before', after')"
      using 2(1) [OF False b(2) 2(3)] by auto
    have "map f sep = sep" using 2(3) by (simp add: map_idI)
    moreover have "take (length sep) ((map f (b # before') @ sep) @ z) = take (length sep) (map f (b # before') @ sep)" for z
      unfolding take_append by simp
    ultimately have "take (length sep) (map f (b # before') @ sep @ after') = map f (take (length sep) (b # s))"
      unfolding IH(1) by (metis (no_types, lifting) append.assoc append_Cons list.simps(9) map_append take_map)
    then have "\<not> prefix sep (map f (b # before') @ sep @ after')"
      using False map_id_iff [of sep f, OF 2(3)] by (simp only: prefix_take simp_thms)
    then show ?thesis using b IH by simp
  qed
qed


lemma takeWhile_stop: "list_all P xs \<Longrightarrow> ys = [] \<or> \<not> P (hd ys) \<Longrightarrow> takeWhile P (xs @ ys) = xs \<and> dropWhile P (xs @ ys) = ys"
  by (induction xs) (cases ys; auto)+

lemma split_once_at: "c \<notin> set xs \<Longrightarrow> split_once c (xs @ c # ys) = Some (xs, ys)"
  unfolding split_once_def by (induction xs) auto

lemma split_once_none: "c \<notin> set xs \<Longrightarrow> split_once c xs = None"
  by (simp add: split_once_def)

lemma rsplit_once_none: "c \<notin> set xs \<Longrightarrow> rsplit_once c xs = None"
  by (simp add: rsplit_once_def split_once_def)

lemma rsplit_once_at: "c \<notin> set ys \<Longrightarrow> rsplit_once c (xs @ c # ys) = Some (xs, ys)"
  using split_once_at [of c "rev ys" "rev xs"] by (simp add: rsplit_once_def)

lemma after_last_none: "c \<notin> set s \<Longrightarrow> after_last c s = s"
proof -
  assume "c \<notin> set s"
  then have "takeWhile (\<lambda>b. b \<noteq> c) (rev s) = rev s" by (auto simp: takeWhile_eq_all_conv)
  then show "after_last c s = s" by (simp only: after_last_def rev_rev_ident)
qed

lemma split_once_split: "split_once c s = Some (before, after) \<Longrightarrow> s = before @ c # after \<and> c \<notin> set before"
proof -
  assume split: "split_once c s = Some (before, after)"
  then have c: "c \<in> set s" by (simp add: split_once_def split: if_splits)
  then have "hd (dropWhile (\<lambda>b. b \<noteq> c) s) = c" "dropWhile (\<lambda>b. b \<noteq> c) s \<noteq> []"
    using hd_dropWhile [of "\<lambda>b. b \<noteq> c" s] by auto
  then have "dropWhile (\<lambda>b. b \<noteq> c) s = c # after" using split c by (cases "dropWhile (\<lambda>b. b \<noteq> c) s") (auto simp: split_once_def)
  then show "s = before @ c # after \<and> c \<notin> set before"
    using split c takeWhile_dropWhile_id [of "\<lambda>b. b \<noteq> c" s] set_takeWhileD [of c "\<lambda>b. b \<noteq> c" s] by (auto simp: split_once_def)
qed

lemma split_once_shorter: "split_once c s = Some (before, after) \<Longrightarrow> length after < length s"
  using split_once_split [of c s before after] by simp

lemma split_at_Cons: "split_once c s = Some (before, after) \<Longrightarrow> split_at c s = before # split_at c after"
  by (subst split_at.simps) (auto simp: split_once_def split: if_splits)

lemma split_at_last: "c \<notin> set s \<Longrightarrow> split_at c s = [s]"
  by (subst split_at.simps) simp

lemma split_at_append: "c \<notin> set before \<Longrightarrow> split_at c (before @ c # after) = before # split_at c after"
  by (rule split_at_Cons) (rule split_once_at)

text \<open>Text that neither begins nor ends with an ASCII octet that is space is not trimmed.\<close>

definition plain_octet :: "octet \<Rightarrow> bool" where
  "plain_octet b \<longleftrightarrow> 0x20 < b \<and> b < 0x80"

lemma trim_front_plain:
  assumes "list_all (\<lambda>w. w = [] \<or> \<not> plain_octet (hd w)) spaces" "s = [] \<or> plain_octet (hd s)"
  shows "trim_front spaces s = s"
proof -
  have "find (\<lambda>w. w \<noteq> [] \<and> take (length w) s = w) spaces = None"
    unfolding find_None_iff
  proof clarify
    fix w assume w: "w \<in> set spaces" "w \<noteq> []" "take (length w) s = w"
    then have "s \<noteq> []" "hd w = hd s" by (auto simp: hd_take dest: arg_cong [of _ _ hd])
    then show False using assms w by (auto simp: list_all_iff)
  qed
  then show ?thesis by (subst trim_front.simps) simp
qed

lemma trim_plain: "s = [] \<or> plain_octet (hd s) \<and> plain_octet (last s) \<Longrightarrow> trim s = s"
proof -
  assume s: "s = [] \<or> plain_octet (hd s) \<and> plain_octet (last s)"
  have "list_all (\<lambda>w. w = [] \<or> \<not> plain_octet (hd w)) WHITE_SPACE"
    "list_all (\<lambda>w. w = [] \<or> \<not> plain_octet (hd w)) (map rev WHITE_SPACE)"
    by (simp_all add: WHITE_SPACE_def plain_octet_def)
  then show "trim s = s" using s trim_front_plain by (auto simp: trim_def hd_rev)
qed

end
