(* ===== verification/Urls.thy ===== *)
theory Urls
  imports Header_Section Errors Decimal Strings
begin

section \<open>Versions, URLs and methods (src/src/models.rs)\<close>

text \<open>
  The small types every HTTP version shares: ports and what they carry, ALPN, absolute URLs,
  methods, roles, and how field names are cased. A \<open>&str\<close> is the list of its UTF-8 octets; the
  separators the code looks for are ASCII, which no octet of a longer character is.
\<close>

subsection \<open>Versions and ports\<close>

datatype transport_kind = StreamKind | QUICKind

datatype version = V1_0 | V1_1 | V2_0 | V3_0

definition version_alpn :: "version \<Rightarrow> bytes" where
  "version_alpn v = ascii (case v of V1_0 \<Rightarrow> ''http/1.0'' | V1_1 \<Rightarrow> ''http/1.1'' | V2_0 \<Rightarrow> ''h2'' | V3_0 \<Rightarrow> ''h3'')"

definition version_from_alpn :: "bytes \<Rightarrow> version option" where
  "version_from_alpn alpn =
     (if alpn = ascii ''http/1.0'' then Some V1_0
      else if alpn = ascii ''http/1.1'' then Some V1_1
      else if alpn = ascii ''h2'' then Some V2_0
      else if alpn = ascii ''h3'' then Some V3_0
      else None)"

fun version_major :: "version \<Rightarrow> octet" where
  "version_major V1_0 = 1"
| "version_major V1_1 = 1"
| "version_major V2_0 = 2"
| "version_major V3_0 = 3"

fun version_transport :: "version \<Rightarrow> transport_kind" where
  "version_transport V3_0 = QUICKind"
| "version_transport _ = StreamKind"

definition version_str :: "version \<Rightarrow> bytes" where
  "version_str v = ascii (case v of V1_0 \<Rightarrow> ''HTTP/1.0'' | V1_1 \<Rightarrow> ''HTTP/1.1'' | V2_0 \<Rightarrow> ''HTTP/2'' | V3_0 \<Rightarrow> ''HTTP/3'')"

definition version_from_str :: "bytes \<Rightarrow> version option" where
  "version_from_str s =
     (if s = ascii ''HTTP/1.0'' then Some V1_0
      else if s = ascii ''HTTP/1.1'' then Some V1_1
      else if s = ascii ''HTTP/2'' then Some V2_0
      else if s = ascii ''HTTP/3'' then Some V3_0
      else None)"

datatype port = UDS bytes | TCP u16 | QUIC u16

fun port_transport :: "port \<Rightarrow> transport_kind" where
  "port_transport (QUIC _) = QUICKind"
| "port_transport _ = StreamKind"

definition port_carries :: "port \<Rightarrow> version \<Rightarrow> bool" where
  "port_carries p v \<longleftrightarrow> port_transport p = version_transport v"

definition port_offers :: "port \<Rightarrow> version list \<Rightarrow> version list" where
  "port_offers p versions =
     (let offered = filter (port_carries p) versions
      in if port_transport p = QUICKind then take 1 offered else offered)"

subsection \<open>Absolute URLs\<close>

record url =
  url_scheme :: bytes
  url_host :: bytes
  url_port :: u16
  url_target :: bytes

definition default_port :: "bytes \<Rightarrow> u16" where
  "default_port scheme = (if scheme = ascii ''https'' \<or> scheme = ascii ''wss'' then 443 else 80)"

definition is_target :: "bytes \<Rightarrow> bool" where
  "is_target target \<longleftrightarrow> target \<noteq> [] \<and> all_visible target"

definition is_authority :: "bytes \<Rightarrow> bool" where
  "is_authority authority \<longleftrightarrow> authority \<noteq> [] \<and> all_visible authority"

definition host_octet :: "octet \<Rightarrow> bool" where
  "host_octet b \<longleftrightarrow> 0x20 < b \<and> b \<noteq> 0x7f \<and> b \<notin> set (ascii ''/?#@[]:'')"

definition is_host :: "bytes \<Rightarrow> bool" where
  "is_host host \<longleftrightarrow> host \<noteq> [] \<and> list_all host_octet host"

definition url_secure :: "url \<Rightarrow> bool" where
  "url_secure u \<longleftrightarrow> url_scheme u = ascii ''https'' \<or> url_scheme u = ascii ''wss''"

abbreviation COLON :: octet where "COLON \<equiv> 0x3a"
abbreviation OPEN :: octet where "OPEN \<equiv> 0x5b"
abbreviation CLOSE :: octet where "CLOSE \<equiv> 0x5d"
abbreviation SLASH :: octet where "SLASH \<equiv> 0x2f"
abbreviation AT :: octet where "AT \<equiv> 0x40"

definition authority_of :: "bytes \<Rightarrow> bytes \<Rightarrow> u16 \<Rightarrow> bytes" where
  "authority_of scheme host port =
     (let bracketed = COLON \<in> set host; implied = port = default_port scheme
      in (if bracketed then OPEN # host @ [CLOSE] else host) @ (if implied then [] else COLON # show_decimal (unat port)))"

definition url_authority :: "url \<Rightarrow> bytes" where
  "url_authority u = authority_of (url_scheme u) (url_host u) (url_port u)"

definition parse_port :: "bytes \<Rightarrow> error + u16" where
  "parse_port digits = ok_or Protocol (map_option word_of_nat (parse_unsigned 65535 digits))"

definition is_hexdigit :: "octet \<Rightarrow> bool" where
  "is_hexdigit b \<longleftrightarrow> 0x30 \<le> b \<and> b \<le> 0x39 \<or> 0x41 \<le> b \<and> b \<le> 0x46 \<or> 0x61 \<le> b \<and> b \<le> 0x66"

definition literal_octet :: "octet \<Rightarrow> bool" where
  "literal_octet b \<longleftrightarrow> is_hexdigit b \<or> b = COLON \<or> b = 0x2e"

definition tail_octet :: "octet \<Rightarrow> bool" where
  "tail_octet b \<longleftrightarrow> b \<in> set (ascii ''/?#'')"

text \<open>The host and the port of an authority that has no userinfo.\<close>

definition parse_host_port :: "bytes \<Rightarrow> error + (bytes \<times> u16 option)" where
  "parse_host_port authority =
     (case authority of
        c # rest \<Rightarrow>
          if c = OPEN then
            (case split_once CLOSE rest of
               None \<Rightarrow> Inl Protocol
             | Some (host, after) \<Rightarrow>
                 res_bind
                   (case after of
                      [] \<Rightarrow> Inr None
                    | d # digits \<Rightarrow> if d = COLON then res_bind (parse_port digits) (\<lambda>port. Inr (Some port)) else Inl Protocol)
                   (\<lambda>port. if host = [] \<or> \<not> list_all literal_octet host then Inl Protocol else Inr (host, port)))
          else
            (case rsplit_once COLON authority of
               Some (host, digits) \<Rightarrow> res_bind (parse_port digits) (\<lambda>port. Inr (host, Some port))
             | None \<Rightarrow> Inr (authority, None))
      | [] \<Rightarrow> Inr ([], None))"

definition url_parse :: "bytes \<Rightarrow> error + url" where
  "url_parse s =
     res_bind (ok_or Protocol (split_string (ascii ''://'') s)) (\<lambda>(scheme, rest).
       let scheme = lowercase scheme;
           authority = takeWhile (\<lambda>b. \<not> tail_octet b) rest;
           tail = dropWhile (\<lambda>b. \<not> tail_octet b) rest;
           target = (if tail = [] then [SLASH] else tail)
       in if \<not> is_target target then Inl Protocol
          else let authority = after_last AT authority
            in res_bind (parse_host_port authority) (\<lambda>(host, port).
                 if host = [] then Inl Protocol
                 else if \<not> prefix [OPEN] authority \<and> \<not> is_host host then Inl Protocol
                 else Inr \<lparr> url_scheme = scheme, url_host = host,
                   url_port = (case port of None \<Rightarrow> default_port scheme | Some port \<Rightarrow> port), url_target = target \<rparr>))"

subsection \<open>ALPN\<close>

definition alpn_list :: "version list \<Rightarrow> bytes list" where
  "alpn_list versions = map version_alpn versions"

definition alpn_wire :: "version list \<Rightarrow> bytes" where
  "alpn_wire versions = concat (map (\<lambda>v. word_of_nat (length (version_alpn v)) # version_alpn v) versions)"

text \<open>The search of what the client listed for one protocol, from an index.\<close>

function alpn_search :: "bytes \<Rightarrow> bytes \<Rightarrow> nat \<Rightarrow> bytes option" where
  "alpn_search wanted client index =
     (if index < length client then
        let stop = index + 1 + unat (client ! index)
        in case get_range client (index + 1) stop of
             None \<Rightarrow> None
           | Some protocol \<Rightarrow> if protocol = wanted then Some protocol else alpn_search wanted client stop
      else None)"
  by pat_completeness auto
termination by (relation "measure (\<lambda>(wanted, client, index). length client - index)") auto

declare alpn_search.simps [simp del]

fun alpn_select :: "bytes list \<Rightarrow> bytes \<Rightarrow> bytes option" where
  "alpn_select [] client = None"
| "alpn_select (wanted # offered) client =
     (case alpn_search wanted client 0 of Some protocol \<Rightarrow> Some protocol | None \<Rightarrow> alpn_select offered client)"

definition alpn_negotiated :: "bytes option \<Rightarrow> version list \<Rightarrow> error + version" where
  "alpn_negotiated alpn versions =
     (case alpn of
        None \<Rightarrow> ok_or Version (find (\<lambda>v. version_major v = 1) versions)
      | Some alpn \<Rightarrow> ok_or Version
          (Option.bind (version_from_alpn alpn) (\<lambda>v. if v \<in> set versions then Some v else None)))"

subsection \<open>Methods and roles\<close>

datatype http_method = GET | HEAD | POST | PUT | DELETE | CONNECT | OPTIONS | TRACE | PATCH

definition method_str :: "http_method \<Rightarrow> bytes" where
  "method_str m = ascii (case m of GET \<Rightarrow> ''GET'' | HEAD \<Rightarrow> ''HEAD'' | POST \<Rightarrow> ''POST'' | PUT \<Rightarrow> ''PUT''
     | DELETE \<Rightarrow> ''DELETE'' | CONNECT \<Rightarrow> ''CONNECT'' | OPTIONS \<Rightarrow> ''OPTIONS'' | TRACE \<Rightarrow> ''TRACE'' | PATCH \<Rightarrow> ''PATCH'')"

definition method_safe :: "http_method \<Rightarrow> bool" where
  "method_safe m \<longleftrightarrow> m \<in> {GET, HEAD, OPTIONS, TRACE}"

definition method_idempotent :: "http_method \<Rightarrow> bool" where
  "method_idempotent m \<longleftrightarrow> method_safe m \<or> m \<in> {PUT, DELETE}"

definition method_from_str :: "bytes \<Rightarrow> http_method option" where
  "method_from_str s =
     (if s = ascii ''GET'' then Some GET
      else if s = ascii ''HEAD'' then Some HEAD
      else if s = ascii ''POST'' then Some POST
      else if s = ascii ''PUT'' then Some PUT
      else if s = ascii ''DELETE'' then Some DELETE
      else if s = ascii ''CONNECT'' then Some CONNECT
      else if s = ascii ''OPTIONS'' then Some OPTIONS
      else if s = ascii ''TRACE'' then Some TRACE
      else if s = ascii ''PATCH'' then Some PATCH
      else None)"

datatype role = UserAgent | Origin | Proxy | Gateway | Tunnel

definition is_client :: "role \<Rightarrow> bool" where "is_client r \<longleftrightarrow> r \<in> {UserAgent, Proxy}"
definition is_server :: "role \<Rightarrow> bool" where "is_server r \<longleftrightarrow> r \<in> {Origin, Gateway}"

subsection \<open>The case of field names\<close>

datatype header_case = Title | Lower

definition upper_octet :: "octet \<Rightarrow> octet" where
  "upper_octet b = (if 0x61 \<le> b \<and> b \<le> 0x7a then b - 32 else b)"

abbreviation DASH :: octet where "DASH \<equiv> 0x2d"

text \<open>The loop over the dashes of a name; \<open>at\<close> never passes the end.\<close>

function title_from :: "bytes \<Rightarrow> nat \<Rightarrow> bytes" where
  "title_from written start =
     (case scan_find (drop start written) DASH of
        None \<Rightarrow> written
      | Some offset \<Rightarrow>
          let start' = start + (offset + 1)
          in if start' < length written
             then title_from (written[start' := upper_octet (written ! start')]) start'
             else written)"
  by pat_completeness auto
termination by (relation "measure (\<lambda>(written, start). length written - start)") auto

declare title_from.simps [simp del]

definition case_in_place :: "header_case \<Rightarrow> bytes \<Rightarrow> bytes" where
  "case_in_place c written =
     (let written = lowercase written
      in case c of
           Lower \<Rightarrow> written
         | Title \<Rightarrow> title_from (case written of [] \<Rightarrow> [] | first # others \<Rightarrow> upper_octet first # others) 0)"

definition case_write :: "header_case \<Rightarrow> bytes \<Rightarrow> bytes \<Rightarrow> bytes" where
  "case_write c name out =
     (let start = length out; out = out @ name
      in take start out @ case_in_place c (drop start out))"

definition case_apply :: "header_case \<Rightarrow> bytes \<Rightarrow> bytes" where
  "case_apply c name = case_write c name []"

fun case_from_version :: "version \<Rightarrow> header_case" where
  "case_from_version V1_0 = Title"
| "case_from_version V1_1 = Title"
| "case_from_version V2_0 = Lower"
| "case_from_version V3_0 = Lower"


subsection \<open>ALPN: both ends settle on one version\<close>

lemma version_alpn_short: "length (version_alpn v) < 256" "unat (word_of_nat (length (version_alpn v)) :: octet) = length (version_alpn v)"
proof -
  have "\<forall>v \<in> set [V1_0, V1_1, V2_0, V3_0]. length (version_alpn v) < 256 \<and>
      unat (word_of_nat (length (version_alpn v)) :: octet) = length (version_alpn v)" by code_simp
  then show "length (version_alpn v) < 256" "unat (word_of_nat (length (version_alpn v)) :: octet) = length (version_alpn v)"
    by (cases v; simp)+
qed

lemma version_from_alpn_alpn: "version_from_alpn (version_alpn v) = Some v"
proof -
  have "\<forall>v \<in> set [V1_0, V1_1, V2_0, V3_0]. version_from_alpn (version_alpn v) = Some v" by code_simp
  then show ?thesis by (cases v) simp_all
qed

lemma version_alpn_inj: "version_alpn v = version_alpn v' \<longleftrightarrow> v = v'"
  using version_from_alpn_alpn by (metis option.inject)

lemma alpn_wire_Cons: "alpn_wire (v # vs) = word_of_nat (length (version_alpn v)) # version_alpn v @ alpn_wire vs"
  by (simp add: alpn_wire_def)

text \<open>Entry by entry from wherever one begins.\<close>

lemma alpn_search_wire:
  "alpn_search wanted (before @ alpn_wire vs) (length before) = (if wanted \<in> version_alpn ` set vs then Some wanted else None)"
proof (induction vs arbitrary: before)
  case Nil
  then show ?case by (subst alpn_search.simps) (simp add: alpn_wire_def)
next
  case (Cons v vs)
  let ?here = "word_of_nat (length (version_alpn v)) # version_alpn v"
  have "get_range (before @ alpn_wire (v # vs)) (length before + 1) (length before + 1 + length (version_alpn v)) = Some (version_alpn v)"
    by (simp add: get_range_def alpn_wire_Cons)
  moreover have "alpn_search wanted ((before @ ?here) @ alpn_wire vs) (length (before @ ?here))
      = (if wanted \<in> version_alpn ` set vs then Some wanted else None)" by (rule Cons.IH)
  ultimately show ?case
    by (subst alpn_search.simps) (simp add: alpn_wire_Cons nth_append version_alpn_short)
qed

lemma alpn_select_wire:
  "alpn_select (alpn_list offered) (alpn_wire listed) = map_option version_alpn (find (\<lambda>v. v \<in> set listed) offered)"
proof (induction offered)
  case (Cons v offered)
  have "version_alpn v \<in> version_alpn ` set listed \<longleftrightarrow> v \<in> set listed" using version_alpn_inj by auto
  then show ?case using Cons alpn_search_wire [of "version_alpn v" "[]" listed] by (simp add: alpn_list_def)
qed (simp add: alpn_list_def)

subsection \<open>The case of a name\<close>

lemma upper_lower [simp]: "lower_octet (upper_octet b) = lower_octet b"
proof -
  have "lower_octet (upper_octet b) = lower_octet b" for b by (rule octet_all [where b = b]) code_simp
  then show ?thesis .
qed

lemma upper_dash: "upper_octet b = DASH \<longleftrightarrow> b = DASH"
proof -
  have "upper_octet b = DASH \<longleftrightarrow> b = DASH" for b by (rule octet_all [where b = b]) code_simp
  then show ?thesis .
qed

text \<open>What title case means: the first octet of every word is raised, and a dash ends a word.\<close>

fun title_words :: "bool \<Rightarrow> bytes \<Rightarrow> bytes" where
  "title_words starts [] = []"
| "title_words starts (b # bs) = (if starts then upper_octet b else b) # title_words (b = DASH) bs"

lemma title_words_append:
  "DASH \<notin> set word \<Longrightarrow> title_words False (word @ DASH # others) = word @ DASH # title_words True others"
  by (induction word) auto

lemma title_words_plain: "DASH \<notin> set word \<Longrightarrow> title_words False word = word"
  by (induction word) auto

lemma lowercase_title_words: "lowercase (title_words starts bs) = lowercase bs"
  by (induction starts bs rule: title_words.induct) simp_all

lemma length_title_words [simp]: "length (title_words starts bs) = length bs"
  by (induction starts bs rule: title_words.induct) simp_all

lemma title_from_words:
  "title_from (before @ word) (length before) = before @ title_words False word"
proof (induction "length word" arbitrary: before word rule: less_induct)
  case less
  show ?case
  proof (cases "position (\<lambda>b. b = DASH) word")
    case None
    then have "DASH \<notin> set word" by (auto simp: position_None_iff)
    then show ?thesis using None by (subst title_from.simps) (simp add: scan_find_spec title_words_plain)
  next
    case (Some k)
    then have k: "k < length word" "word ! k = DASH" "\<forall>j < k. word ! j \<noteq> DASH" using position_SomeD [OF Some] by auto
    then have split: "word = take k word @ DASH # drop (Suc k) word" by (metis id_take_nth_drop)
    have plain: "DASH \<notin> set (take k word)" using k by (auto simp: in_set_conv_nth)
    show ?thesis
    proof (cases "drop (Suc k) word")
      case Nil
      then have "length word = Suc k" using k(1) by simp
      then show ?thesis using Some Nil split plain title_words_append [OF plain, of "[]"]
        by (subst title_from.simps) (simp add: scan_find_spec)
    next
      case (Cons p ps)
      let ?done = "before @ take k word @ [DASH]"
      have whole: "before @ word = ?done @ p # ps" using split Cons by simp
      have at: "length ?done = length before + (k + 1)" using k(1) by simp
      have "length (upper_octet p # ps) < length word" using arg_cong [OF Cons, of length] k(1) by simp
      then have "title_from (?done @ upper_octet p # ps) (length ?done) = ?done @ title_words False (upper_octet p # ps)"
        by (rule less)
      moreover have "title_from (before @ word) (length before) = title_from (?done @ upper_octet p # ps) (length ?done)"
      proof -
        have "length before + (k + 1) < length (before @ word)" using arg_cong [OF Cons, of length] k(1) by simp
        moreover have "(before @ word)[length ?done := upper_octet ((before @ word) ! length ?done)] = ?done @ upper_octet p # ps"
          unfolding whole nth_append_length list_update_length ..
        ultimately show ?thesis unfolding at
          by (subst title_from.simps) (simp only: scan_find_spec drop_append_length Some option.case Let_def if_True at)
      qed
      moreover have "title_words False word = take k word @ DASH # title_words True (p # ps)"
        using title_words_append [OF plain, of "p # ps"] split Cons by simp
      ultimately show ?thesis by (simp add: upper_dash)
    qed
  qed
qed

lemma case_apply_spec:
  "case_apply c name = (case c of Title \<Rightarrow> title_words True (lowercase name) | Lower \<Rightarrow> lowercase name)"
proof (cases c)
  case Title
  have "title_from [] 0 = []" by (subst title_from.simps) (simp add: scan_find_spec)
  then show ?thesis
    using Title title_from_words [of "[]" "upper_octet (lower_octet (hd name)) # lowercase (tl name)"]
    by (cases name) (simp_all add: case_apply_def case_write_def case_in_place_def Let_def upper_dash)
qed (simp add: case_apply_def case_write_def case_in_place_def)

subsection \<open>Reading a URL back\<close>

definition delimiter :: "octet \<Rightarrow> bool" where
  "delimiter b \<longleftrightarrow> tail_octet b \<or> b = AT \<or> b = OPEN \<or> b = CLOSE"

lemma octet_kinds:
  "is_digit b \<Longrightarrow> \<not> delimiter b \<and> b \<noteq> COLON" "host_octet b \<Longrightarrow> \<not> delimiter b \<and> b \<noteq> COLON"
  "literal_octet b \<Longrightarrow> \<not> delimiter b \<and> (b = COLON \<or> host_octet b)"
proof -
  have octets: "ascii ''/?#'' = [0x2f, 0x3f, 0x23]" "ascii ''/?#@[]:'' = [0x2f, 0x3f, 0x23, 0x40, 0x5b, 0x5d, 0x3a]" by code_simp+
  have delimiter: "delimiter b \<longleftrightarrow> b \<in> {0x2f, 0x3f, 0x23, 0x40, 0x5b, 0x5d}"
    unfolding delimiter_def tail_octet_def octets by auto
  have host: "host_octet b \<longleftrightarrow> 0x20 < b \<and> b \<noteq> 0x7f \<and> \<not> delimiter b \<and> b \<noteq> COLON"
    unfolding host_octet_def delimiter octets by auto
  have "is_hexdigit b \<Longrightarrow> host_octet b \<and> \<not> delimiter b \<and> b \<noteq> COLON"
    unfolding host is_hexdigit_def delimiter by (auto intro: less_le_trans [rotated])
  moreover have "host_octet b" if "b = 0x2e" unfolding host delimiter unfolding that by simp
  moreover have "is_digit b \<Longrightarrow> is_hexdigit b" by (simp add: is_digit_def is_hexdigit_def)
  moreover have "\<not> delimiter COLON" by code_simp
  ultimately show "is_digit b \<Longrightarrow> \<not> delimiter b \<and> b \<noteq> COLON" "host_octet b \<Longrightarrow> \<not> delimiter b \<and> b \<noteq> COLON"
    "literal_octet b \<Longrightarrow> \<not> delimiter b \<and> (b = COLON \<or> host_octet b)" unfolding literal_octet_def host by blast+
qed

text \<open>What an authority that was read gives: a host of one of two kinds.\<close>

definition host_ok :: "bytes \<Rightarrow> bool" where
  "host_ok host \<longleftrightarrow> host \<noteq> [] \<and> (if COLON \<in> set host then list_all literal_octet host else list_all host_octet host)"

lemma parse_host_port_ok:
  assumes "parse_host_port authority = Inr (host, port)" "host \<noteq> []" "prefix [OPEN] authority \<or> is_host host"
  shows "host_ok host"
proof (cases "prefix [OPEN] authority")
  case True
  then obtain others where "authority = OPEN # others" by (auto simp: prefix_def)
  then have "list_all literal_octet host"
    using assms(1) by (auto simp: parse_host_port_def res_bind_Inr_iff split: option.splits if_splits)
  then show ?thesis using assms(2) octet_kinds(3) by (auto simp: host_ok_def list_all_iff)
next
  case False
  then have "list_all host_octet host" using assms(3) by (simp add: is_host_def)
  then show ?thesis using assms(2) octet_kinds(2) by (auto simp: host_ok_def list_all_iff)
qed

lemma url_parse_ok:
  assumes "url_parse s = Inr u"
  obtains scheme rest where "split_string (ascii ''://'') s = Some (scheme, rest)" "url_scheme u = lowercase scheme"
    "host_ok (url_host u)" "url_target u \<noteq> []" "all_visible (url_target u)" "tail_octet (hd (url_target u))"
proof -
  obtain scheme rest where s: "split_string (ascii ''://'') s = Some (scheme, rest)"
    using assms by (cases "split_string (ascii ''://'') s") (auto simp: url_parse_def simp del: ascii_Cons)
  define authority where "authority = after_last AT (takeWhile (\<lambda>b. \<not> tail_octet b) rest)"
  define tail where "tail = dropWhile (\<lambda>b. \<not> tail_octet b) rest"
  define target where "target = (if tail = [] then [SLASH] else tail)"
  have step: "(if \<not> is_target target then Inl Protocol
      else res_bind (parse_host_port authority) (\<lambda>(host, port).
        if host = [] then Inl Protocol
        else if \<not> prefix [OPEN] authority \<and> \<not> is_host host then Inl Protocol
        else Inr \<lparr> url_scheme = lowercase scheme, url_host = host,
          url_port = (case port of None \<Rightarrow> default_port (lowercase scheme) | Some port \<Rightarrow> port), url_target = target \<rparr>)) = Inr u"
    using assms s unfolding url_parse_def authority_def tail_def target_def
    by (simp only: ok_or_simps res_bind_simps prod.case Let_def)
  have target: "is_target target" using step by (auto split: if_splits)
  obtain host port where hp: "parse_host_port authority = Inr (host, port)"
    using step target by (cases "parse_host_port authority") auto
  have host: "host \<noteq> []" "prefix [OPEN] authority \<or> is_host host"
    and u: "url_scheme u = lowercase scheme" "url_host u = host" "url_target u = target"
    using step target hp by (auto split: if_splits)
  have "tail_octet SLASH" by code_simp
  then have "tail_octet (hd target)" using hd_dropWhile [of "\<lambda>b. \<not> tail_octet b" rest] by (auto simp: target_def tail_def)
  then show thesis
    using that [OF s] u target parse_host_port_ok [OF hp host] by (simp add: is_target_def)
qed

lemma parse_port_show: "parse_port (show_decimal (unat p)) = Inr p"
proof -
  have "unat p < 65536" using unsigned_less [of p, where 'a = nat] by simp
  then show ?thesis by (simp add: parse_port_def parse_show)
qed

lemma digits_no_colon: "COLON \<notin> set (show_decimal n)"
  using show_decimal_digits [of n] octet_kinds(1) by (auto simp: list_all_iff)

lemma parse_host_port_plain:
  assumes "list_all host_octet host" "host \<noteq> []"
  shows "parse_host_port host = Inr (host, None)"
    "parse_host_port (host @ COLON # show_decimal (unat p)) = Inr (host, Some p)"
proof -
  obtain b bs where host: "host = b # bs" using assms(2) by (cases host) auto
  have kinds: "\<not> delimiter b" "COLON \<notin> set host" using assms(1) octet_kinds(2) by (auto simp: list_all_iff host)
  then have "b \<noteq> OPEN" by (auto simp: delimiter_def)
  then show "parse_host_port host = Inr (host, None)" "parse_host_port (host @ COLON # show_decimal (unat p)) = Inr (host, Some p)"
    using kinds(2) rsplit_once_at [OF digits_no_colon, of host "unat p"] parse_port_show [of p]
    by (simp_all add: parse_host_port_def host rsplit_once_none)
qed

lemma parse_host_port_literal:
  assumes "list_all literal_octet host" "host \<noteq> []"
  shows "parse_host_port (OPEN # host @ [CLOSE]) = Inr (host, None)"
    "parse_host_port (OPEN # host @ CLOSE # COLON # show_decimal (unat p)) = Inr (host, Some p)"
proof -
  have "CLOSE \<notin> set host" using assms(1) octet_kinds(3) by (auto simp: list_all_iff delimiter_def)
  then show "parse_host_port (OPEN # host @ [CLOSE]) = Inr (host, None)"
    "parse_host_port (OPEN # host @ CLOSE # COLON # show_decimal (unat p)) = Inr (host, Some p)"
    using assms split_once_at [of CLOSE host "[]"] split_once_at [of CLOSE host "COLON # show_decimal (unat p)"] parse_port_show [of p]
    by (simp_all add: parse_host_port_def)
qed

lemma parse_authority:
  assumes "host_ok host"
  shows "parse_host_port (authority_of scheme host port) = Inr (host, if port = default_port scheme then None else Some port)"
    "list_all (\<lambda>b. \<not> tail_octet b \<and> b \<noteq> AT) (authority_of scheme host port)"
    "prefix [OPEN] (authority_of scheme host port) \<or> is_host host"
proof -
  have octets: "list_all (\<lambda>b. literal_octet b \<or> host_octet b) host"
    using assms by (auto simp: host_ok_def list_all_iff split: if_splits)
  have marks: "\<not> tail_octet COLON" "\<not> tail_octet OPEN" "\<not> tail_octet CLOSE" by code_simp+
  have digits: "list_all (\<lambda>b. \<not> tail_octet b \<and> b \<noteq> AT) (show_decimal n)" for n
    using show_decimal_digits [of n] octet_kinds(1) by (auto simp: list_all_iff delimiter_def)
  have "list_all (\<lambda>b. \<not> tail_octet b \<and> b \<noteq> AT) host"
    using octets octet_kinds(2,3) by (auto simp: list_all_iff delimiter_def)
  then show "list_all (\<lambda>b. \<not> tail_octet b \<and> b \<noteq> AT) (authority_of scheme host port)"
    using marks digits by (simp add: authority_of_def Let_def)
  show "prefix [OPEN] (authority_of scheme host port) \<or> is_host host"
    using assms by (auto simp: authority_of_def Let_def host_ok_def is_host_def)
  show "parse_host_port (authority_of scheme host port) = Inr (host, if port = default_port scheme then None else Some port)"
    using assms parse_host_port_plain(1) [of host] parse_host_port_plain(2) [of host port]
      parse_host_port_literal(1) [of host] parse_host_port_literal(2) [of host port]
    by (auto simp: authority_of_def Let_def host_ok_def split: if_splits)
qed

lemma scheme_separator: "y \<in> set (ascii ''://'') \<Longrightarrow> lower_octet x = y \<longleftrightarrow> x = y"
proof -
  have "lower_octet x = 0x3a \<longleftrightarrow> x = 0x3a" for x by (rule octet_all [where b = x]) code_simp
  moreover have "lower_octet x = 0x2f \<longleftrightarrow> x = 0x2f" for x by (rule octet_all [where b = x]) code_simp
  moreover have "ascii ''://'' = [0x3a, 0x2f, 0x2f]" by code_simp
  ultimately show "y \<in> set (ascii ''://'') \<Longrightarrow> lower_octet x = y \<longleftrightarrow> x = y" by auto
qed

lemma authority_visible:
  assumes "host_ok host"
  shows "is_authority (authority_of scheme host port)"
proof -
  have host: "is_visible b" if "host_octet b" for b using that by (simp add: host_octet_def is_visible_def)
  have marks: "is_visible COLON" "is_visible OPEN" "is_visible CLOSE" by code_simp+
  have "\<forall>b \<in> set host. is_visible b"
    using assms host marks octet_kinds(3) by (auto simp: host_ok_def list_all_iff split: if_splits)
  moreover have "is_digit b \<longrightarrow> is_visible b" for b by (rule octet_all [where b = b]) code_simp
  then have "\<forall>b \<in> set (show_decimal n). is_visible b" for n using show_decimal_digits [of n] by (auto simp: list_all_iff)
  ultimately show ?thesis
    using assms marks by (auto simp: is_authority_def all_visible_spec authority_of_def Let_def host_ok_def)
qed

lemma url_reparse:
  assumes "url_parse s = Inr u"
  shows "url_parse (url_scheme u @ ascii ''://'' @ url_authority u @ url_target u) = Inr u"
proof -
  let ?a = "url_authority u"
  from assms obtain scheme rest where s: "split_string (ascii ''://'') s = Some (scheme, rest)"
    and u: "url_scheme u = lowercase scheme" "host_ok (url_host u)" "url_target u \<noteq> []" "all_visible (url_target u)"
      "tail_octet (hd (url_target u))" by (rule url_parse_ok)
  have split: "split_string (ascii ''://'') (url_scheme u @ ascii ''://'' @ ?a @ url_target u) = Some (url_scheme u, ?a @ url_target u)"
    using split_string_spec [OF s scheme_separator, of "?a @ url_target u"] by (simp only: u(1) simp_thms)
  note authority = parse_authority [OF u(2), of "url_scheme u" "url_port u", folded url_authority_def]
  have parts: "takeWhile (\<lambda>b. \<not> tail_octet b) (?a @ url_target u) = ?a" "dropWhile (\<lambda>b. \<not> tail_octet b) (?a @ url_target u) = url_target u"
    using takeWhile_stop [of "\<lambda>b. \<not> tail_octet b" ?a "url_target u"] authority(2) u(5) by (auto simp: list_all_iff)
  have "after_last AT ?a = ?a" using authority(2) by (intro after_last_none) (auto simp: list_all_iff)
  moreover have "lowercase (url_scheme u) = url_scheme u" unfolding u(1) by simp
  moreover have "url_host u \<noteq> []" using u(2) by (simp add: host_ok_def)
  ultimately show ?thesis
    using authority(1,3) u(3,4) unfolding url_parse_def split ok_or_simps res_bind_simps prod.case Let_def parts
    by (auto simp: is_target_def)
qed


text \<open>The target of a URL without a path but with a query begins with the query, so a request made of
  it has a target that does not begin with a slash.\<close>

lemma url_bare_query:
  "url_parse (ascii ''http://h?x'') = Inr \<lparr> url_scheme = ascii ''http'', url_host = ascii ''h'', url_port = 80,
     url_target = ascii ''?x'' \<rparr>"
  by code_simp

subsection \<open>Properties\<close>

text \<open>A server that picks from what a client listed on the wire settles on the version it prefers
  most among those the client named, and the client reads that choice back as the same version.\<close>

lemma alpn_settles:
  "alpn_negotiated (alpn_select (alpn_list offered) (alpn_wire listed)) listed
     = (case find (\<lambda>v. v \<in> set listed) offered of
          Some v \<Rightarrow> Inr v
        | None \<Rightarrow> ok_or Version (find (\<lambda>v. version_major v = 1) listed))"
proof (cases "find (\<lambda>v. v \<in> set listed) offered")
  case (Some v)
  then have "v \<in> set listed" by (auto simp: find_Some_iff)
  then show ?thesis using Some by (simp add: alpn_select_wire alpn_negotiated_def version_from_alpn_alpn)
qed (simp add: alpn_select_wire alpn_negotiated_def)

text \<open>Re-casing a name raises the first octet of each dash-separated word and nothing else, or lowers
  every octet; either way the name is the same without regard to case.\<close>

lemma casing_exact:
  "case_apply c name = (case c of Title \<Rightarrow> title_words True (lowercase name) | Lower \<Rightarrow> lowercase name) \<and>
   lowercase (case_apply c name) = lowercase name \<and> case_apply c (case_apply c' name) = case_apply c name"
  by (cases c; cases c') (simp_all add: case_apply_spec lowercase_title_words)

text \<open>C38: a URL that was read can be written again from its parts and is read as the same URL; its host
  and its target are then such as cannot break out of a field or a start line.\<close>

theorem url_round_trip:
  assumes "url_parse s = Inr u"
  shows "url_parse (url_scheme u @ ascii ''://'' @ url_authority u @ url_target u) = Inr u \<and>
    is_target (url_target u) \<and> is_authority (url_authority u)"
proof -
  from assms have "host_ok (url_host u)" "is_target (url_target u)" by (auto elim!: url_parse_ok simp: is_target_def)
  then show ?thesis using url_reparse [OF assms] authority_visible by (simp add: url_authority_def)
qed

theorem url_round_trip_witness:
  "url_parse (ascii ''HTTPS://me@[::1]/a?b'') = Inr \<lparr> url_scheme = ascii ''https'', url_host = ascii ''::1'',
     url_port = 443, url_target = ascii ''/a?b'' \<rparr> \<and>
   url_parse (ascii ''https://[::1]/a?b'') = Inr \<lparr> url_scheme = ascii ''https'', url_host = ascii ''::1'',
     url_port = 443, url_target = ascii ''/a?b'' \<rparr>"
proof -
  let ?u = "\<lparr> url_scheme = ascii ''https'', url_host = ascii ''::1'', url_port = 443, url_target = ascii ''/a?b'' \<rparr>"
  have read: "url_parse (ascii ''HTTPS://me@[::1]/a?b'') = Inr ?u" by code_simp
  have "url_scheme ?u @ ascii ''://'' @ url_authority ?u @ url_target ?u = ascii ''https://[::1]/a?b''" by code_simp
  then show ?thesis using url_round_trip [OF read] read by simp
qed

end
