(* ===== verification/Varint.thy ===== *)
theory Varint
  imports Codec Machine Errors Urls
begin

section \<open>QUIC integers and stream identifiers (src/src/protocol/quic.rs)\<close>

text \<open>
  The variable-length integer, whose two high bits say how many octets it takes, and the two low
  bits of a stream identifier. The transport, the listener and the dialer of the same file drive a
  third-party library and are left out.
\<close>

definition VARINT_MAXIMUM :: u64 where "VARINT_MAXIMUM = 0x3fffffffffffffff"
definition VARINT_MAX_SIZE :: nat where "VARINT_MAX_SIZE = 8"

definition varint_len :: "u64 \<Rightarrow> nat" where
  "varint_len v = (if v \<le> 0x3f then 1 else if v \<le> 0x3fff then 2 else if v \<le> 0x3fffffff then 4 else 8)"

text \<open>The octets appended. A debug build asserts that the value is at most \<open>VARINT_MAXIMUM\<close>.\<close>

definition varint_encode :: "u64 \<Rightarrow> bytes" where
  "varint_encode v =
     (if varint_len v = 1 then [ucast v]
      else if varint_len v = 2 then to_be_bytes (ucast v OR 0x4000 :: u16)
      else if varint_len v = 4 then to_be_bytes (ucast v OR 0x80000000 :: u32)
      else to_be_bytes (v OR 0xc000000000000000))"

text \<open>How many octets were taken, none where it has not fully arrived, and the value.\<close>

definition varint_decode :: "bytes \<Rightarrow> nat \<times> u64" where
  "varint_decode input =
     (case input of
        [] \<Rightarrow> (0, 0)
      | first # others \<Rightarrow>
          (let len = 2 ^ unat (drop_bit 6 first)
           in if length input < len then (0, 0)
              else (len, foldl (\<lambda>v b. push_bit 8 v OR ucast b) (ucast (first AND 0x3f)) (take (len - 1) others))))"

definition varint_only :: "bytes \<Rightarrow> error + u64" where
  "varint_only payload =
     (let (consumed, v) = varint_decode payload
      in if consumed = 0 \<or> consumed \<noteq> length payload then Inl Protocol else Inr v)"

subsection \<open>Stream identifiers\<close>

definition STREAM_STEP :: u64 where "STREAM_STEP = 4"

definition is_bidi :: "u64 \<Rightarrow> bool" where "is_bidi sid \<longleftrightarrow> sid AND 0x2 = 0"
definition is_uni :: "u64 \<Rightarrow> bool" where "is_uni sid \<longleftrightarrow> sid AND 0x2 \<noteq> 0"
definition client_initiated :: "u64 \<Rightarrow> bool" where "client_initiated sid \<longleftrightarrow> sid AND 0x1 = 0"
definition first_bidi :: "role \<Rightarrow> u64" where "first_bidi r = (if is_client r then 0 else 1)"
definition first_uni :: "role \<Rightarrow> u64" where "first_uni r = (if is_client r then 2 else 3)"

subsection \<open>What the octets mean\<close>

lemma foldl_from_be: "foldl (\<lambda>v b. push_bit 8 v OR ucast b) (from_le_bytes acc :: u64) bs = from_le_bytes (rev bs @ acc)"
proof (induction bs arbitrary: acc)
  case (Cons b bs)
  have "push_bit 8 (from_le_bytes acc :: u64) OR ucast b = from_le_bytes (b # acc)" by (simp add: or.commute)
  then show ?case using Cons [of "b # acc"] by simp
qed simp

lemma varint_decode_Cons:
  "varint_decode (first # others) =
     (let len = 2 ^ unat (drop_bit 6 first)
      in if length others + 1 < len then (0, 0) else (len, from_be_bytes ((first AND 0x3f) # take (len - 1) others)))"
  using foldl_from_be [of "[first AND 0x3f]"] by (simp add: varint_decode_def from_be_bytes_def Let_def)

lemma top_bits: "unat (drop_bit 6 (b :: octet)) = (if bit b 7 then 2 else 0) + (if bit b 6 then 1 else 0)"
  by (rule octet_all) code_simp

lemma varint_decode_bound: "varint_decode input = (n, v) \<Longrightarrow> n \<le> length input \<and> n \<in> {0, 1, 2, 4, 8}"
proof (cases input)
  case (Cons first others)
  have "2 ^ unat (drop_bit 6 first) \<in> {1, 2, 4, 8 :: nat}" by (simp add: top_bits)
  then show "varint_decode input = (n, v) \<Longrightarrow> ?thesis" unfolding Cons varint_decode_Cons Let_def
    by (auto split: if_splits)
qed (simp add: varint_decode_def)

text \<open>The octets of a word whose two high bits are taken off again.\<close>

lemma be_octets:
  fixes x :: "'a::len word"
  assumes "LENGTH('a) = 8 * Suc m" "m < 8"
  obtains b bs where "to_be_bytes x = b # bs" "length bs = m" "bit b 6 = bit x (8 * m + 6)" "bit b 7 = bit x (8 * m + 7)"
    "(from_be_bytes ((b AND 0x3f) # bs) :: u64) = take_bit (8 * m + 6) (ucast x)"
proof -
  let ?o = "\<lambda>i. ucast (drop_bit (8 * i) x) :: octet"
  let ?xs = "map ?o [0..<m]"
  have le: "to_le_bytes x = ?xs @ [?o m]" using assms(1) by (simp add: to_le_bytes_def)
  then have be: "to_be_bytes x = ?o m # rev ?xs" by (simp add: to_be_bytes_def)
  have low: "bit (b AND 0x3f) n \<longleftrightarrow> bit b n \<and> n < 6" for b :: octet and n
  proof -
    have "b AND 0x3f = take_bit 6 b" by (rule octet_all [where b = b]) code_simp
    then show ?thesis by (auto simp: bit_simps)
  qed
  have "(from_be_bytes ((?o m AND 0x3f) # rev ?xs) :: u64) = take_bit (8 * m + 6) (ucast x)"
  proof (rule bit_word_eqI)
    fix n assume "n < LENGTH(64)"
    define q r where "q = n div 8" and "r = n mod 8"
    then have n: "n = 8 * q + r" "r < 8" by simp_all
    have "bit (from_be_bytes ((?o m AND 0x3f) # rev ?xs) :: u64) n \<longleftrightarrow> q < Suc m \<and> bit ((?xs @ [?o m AND 0x3f]) ! q) r"
      using \<open>n < LENGTH(64)\<close> by (simp add: from_be_bytes_def bit_from_le_bytes q_def r_def)
    also have "\<dots> \<longleftrightarrow> n < 8 * m + 6 \<and> bit x n"
    proof (cases "q < m")
      case True
      then have "8 * q + 8 \<le> 8 * m" by simp
      then have "n < 8 * m" using n by linarith
      then show ?thesis using True n by (simp add: nth_append bit_simps)
    next
      case False
      show ?thesis
      proof (cases "q = m")
        case True
        then show ?thesis using n by (auto simp: nth_append low) (simp_all add: bit_simps)
      next
        case neq: False
        then have "8 * Suc m \<le> 8 * q" using False by simp
        then show ?thesis using neq False n by simp
      qed
    qed
    also have "\<dots> \<longleftrightarrow> bit (take_bit (8 * m + 6) (ucast x) :: u64) n"
      using \<open>n < LENGTH(64)\<close> by (auto simp: bit_simps)
    finally show "bit (from_be_bytes ((?o m AND 0x3f) # rev ?xs) :: u64) n = bit (take_bit (8 * m + 6) (ucast x) :: u64) n" .
  qed
  then show thesis using that [OF be] assms by (simp add: bit_simps)
qed

lemma varint_word:
  fixes x :: "'a::len word"
  assumes "LENGTH('a) = 8 * 2 ^ k" "k < 4" "bit x (LENGTH('a) - 2) = odd k" "bit x (LENGTH('a) - 1) = (2 \<le> k)"
  shows "varint_decode (to_be_bytes x @ rest) = (2 ^ k, take_bit (LENGTH('a) - 2) (ucast x))"
proof -
  obtain m where m: "2 ^ k = Suc m" by (cases "2 ^ k :: nat") simp_all
  have "m < 8" using assms(2) m by (cases k; simp add: numeral_eq_Suc less_Suc_eq; auto)
  then obtain b bs where b: "to_be_bytes x = b # bs" "length bs = m" "bit b 6 = bit x (8 * m + 6)" "bit b 7 = bit x (8 * m + 7)"
    "(from_be_bytes ((b AND 0x3f) # bs) :: u64) = take_bit (8 * m + 6) (ucast x)"
    using be_octets [of m x] assms(1) m by auto
  have top: "LENGTH('a) - 2 = 8 * m + 6" "LENGTH('a) - 1 = 8 * m + 7" using assms(1) m by simp_all
  consider "k = 0" | "k = 1" | "k = 2" | "k = 3" using assms(2) by linarith
  moreover have "bit b 6 = odd k" "bit b 7 = (2 \<le> k)" using assms(3,4) b(3,4) by (simp_all only: top)
  ultimately have "unat (drop_bit 6 b) = k" by cases (simp_all add: top_bits)
  then show ?thesis unfolding b(1) top using b(2,5) m by (simp add: varint_decode_Cons)
qed

lemma tagged:
  fixes tag :: "'a::len word" and v :: u64
  assumes "take_bit n v = v" "take_bit n tag = 0" "n \<le> LENGTH('a)" "n \<le> 64"
  shows "take_bit n (ucast (ucast v OR tag)) = v"
proof (rule bit_word_eqI)
  fix i assume "i < LENGTH(64)"
  have v: "bit v i = (i < n \<and> bit v i)" by (subst assms(1) [symmetric]) (simp add: bit_take_bit_iff)
  have "\<not> bit tag i" if "i < n" using arg_cong [OF assms(2), of "\<lambda>w. bit w i"] that by (simp add: bit_take_bit_iff)
  then show "bit (take_bit n (ucast (ucast v OR tag)) :: u64) i = bit v i"
    using v assms(3) \<open>i < LENGTH(64)\<close> by (auto simp: bit_simps)
qed

lemma varint_decode_encode:
  assumes "v \<le> VARINT_MAXIMUM"
  shows "varint_decode (varint_encode v @ rest) = (varint_len v, v)"
proof -
  have self: "take_bit n v = v" if "unat v < 2 ^ n" for n
  proof -
    have "unat (take_bit n v) = unat v" using that by (simp add: unsigned_take_bit_eq take_bit_nat_eq_self)
    then show ?thesis by (simp only: word_unat_eq_iff)
  qed
  have none: "\<not> bit v i" if "take_bit n v = v" "n \<le> i" for n i
    using that by (metis bit_take_bit_iff not_le)
  consider "v \<le> 0x3f" | "\<not> v \<le> 0x3f" "v \<le> 0x3fff" | "\<not> v \<le> 0x3fff" "v \<le> 0x3fffffff" | "\<not> v \<le> 0x3fffffff" by blast
  then show ?thesis
  proof cases
    case 1
    have v: "take_bit 6 v = v" using self [of 6] 1 by (simp add: word_le_nat_alt)
    have "take_bit 6 (ucast (ucast v OR (0 :: octet))) = v" by (rule tagged) (simp_all add: v)
    moreover have "\<not> bit (ucast v :: octet) 6" "\<not> bit (ucast v :: octet) 7" using none [OF v] by (simp_all add: bit_simps)
    moreover have "to_be_bytes (ucast v :: octet) = [ucast v]" by (simp add: to_be_bytes_def to_le_bytes_def)
    ultimately show ?thesis using 1 varint_word [of 0 "ucast v :: octet" rest] by (simp add: varint_encode_def varint_len_def)
  next
    case 2
    have v: "take_bit 14 v = v" using self [of 14] 2 by (simp add: word_le_nat_alt)
    have "take_bit 14 (ucast (ucast v OR (0x4000 :: u16))) = v" by (rule tagged) (simp_all add: v)
    moreover have "bit (ucast v OR (0x4000 :: u16)) 14" "\<not> bit (ucast v OR (0x4000 :: u16)) 15"
      using none [OF v] by (simp_all add: bit_simps)
    ultimately show ?thesis using 2 varint_word [of 1 "ucast v OR 0x4000 :: u16" rest]
      by (simp add: varint_encode_def varint_len_def)
  next
    case 3
    have v: "take_bit 30 v = v" using self [of 30] 3 by (simp add: word_le_nat_alt)
    have "take_bit 30 (ucast (ucast v OR (0x80000000 :: u32))) = v" by (rule tagged) (simp_all add: v)
    moreover have "\<not> bit (ucast v OR (0x80000000 :: u32)) 30" "bit (ucast v OR (0x80000000 :: u32)) 31"
      using none [OF v] by (simp_all add: bit_simps)
    moreover have "\<not> v \<le> 0x3f" using 3 by (auto simp: word_le_nat_alt)
    ultimately show ?thesis using 3 varint_word [of 2 "ucast v OR 0x80000000 :: u32" rest]
      by (simp add: varint_encode_def varint_len_def)
  next
    case 4
    have v: "take_bit 62 v = v" using self [of 62] assms by (simp add: word_le_nat_alt VARINT_MAXIMUM_def)
    have "take_bit 62 (ucast (ucast v OR (0xc000000000000000 :: u64))) = v" by (rule tagged) (simp_all add: v)
    moreover have "bit (v OR (0xc000000000000000 :: u64)) 62" "bit (v OR (0xc000000000000000 :: u64)) 63"
      by (simp_all add: bit_or_iff)
    moreover have "\<not> v \<le> 0x3f" "\<not> v \<le> 0x3fff" using 4 by (auto simp: word_le_nat_alt)
    ultimately show ?thesis using 4 varint_word [of 3 "v OR 0xc000000000000000 :: u64" rest]
      by (simp add: varint_encode_def varint_len_def)
  qed
qed

lemma varint_encode_length [simp]: "length (varint_encode v) = varint_len v"
  by (simp add: varint_encode_def varint_len_def length_simps)

lemma varint_len_pos [simp]: "0 < varint_len v"
  by (simp add: varint_len_def)

lemma varint_len_nonzero [simp]: "varint_len v \<noteq> 0"
  by (simp add: varint_len_def)

lemma varint_encode_nonempty [simp]: "varint_encode v \<noteq> []"
  using varint_encode_length [of v] by (metis length_0_conv less_irrefl varint_len_pos)

interpretation varint: prefix_codec "\<lambda>_::unit. \<lambda>v. v \<le> VARINT_MAXIMUM" "\<lambda>_. varint_encode"
  "\<lambda>_ input. (case varint_decode input of (n, v) \<Rightarrow> if n = 0 then None else Some (n, v))"
  by unfold_locales (simp_all add: varint_decode_encode)

text \<open>Two bits say how many octets there are, so \<open>n\<close> octets have \<open>8 * n - 2\<close> left for the value.\<close>

lemma varint_decode_range:
  assumes "varint_decode input = (n, v)" "n \<noteq> 0"
  shows "unat v < 2 ^ (8 * n - 2)"
proof -
  obtain first others where input: "input = first # others" using assms by (cases input) (auto simp: varint_decode_def)
  let ?rest = "take (n - 1) others" and ?top = "first AND 0x3f"
  have v: "v = from_be_bytes (?top # ?rest)" and n: "n \<in> {1, 2, 4, 8}" "length ?rest = n - 1"
    using assms varint_decode_bound [OF assms(1)] unfolding input varint_decode_Cons by (auto simp: Let_def split: if_splits)
  have top: "\<not> bit ?top 6 \<and> \<not> bit ?top 7" by (rule octet_all [where b = first]) code_simp
  have none: "\<not> bit v i" if "8 * n - 2 \<le> i" for i
  proof (cases "i < 64 \<and> i div 8 < n")
    case True
    then have "i < 8 * n" by (simp add: div_less_iff_less_mult mult.commute)
    then have "i = 8 * n - 2 \<or> i = 8 * n - 1" using that by linarith
    then have i: "i div 8 = n - 1" "i mod 8 = 6 \<or> i mod 8 = 7" using n(1) by auto
    have "(rev ?rest @ [?top]) ! (n - 1) = ?top" using nth_append_length [of "rev ?rest" ?top "[]"] n(2) by (metis length_rev)
    then show ?thesis using i top by (auto simp: v from_be_bytes_def bit_from_le_bytes)
  next
    case False
    have "length (rev ?rest @ [?top]) = n" using n by (auto simp del: length_take)
    then show ?thesis using False by (auto simp: v from_be_bytes_def bit_from_le_bytes simp del: length_take)
  qed
  have "take_bit (8 * n - 2) v = v" by (rule bit_word_eqI) (use none in \<open>auto simp: bit_take_bit_iff not_le [symmetric]\<close>)
  then show ?thesis using take_bit_nat_less_exp [of "8 * n - 2" "unat v"] by (metis unsigned_take_bit_eq)
qed

lemma varint_decode_max: "snd (varint_decode input) \<le> VARINT_MAXIMUM"
proof (cases "fst (varint_decode input) = 0")
  case True
  then have "snd (varint_decode input) = 0"
    by (cases input) (auto simp: varint_decode_def Let_def split: if_splits)
  then show ?thesis by simp
next
  case False
  obtain n v where nv: "varint_decode input = (n, v)" by fastforce
  have "(2 :: nat) ^ (8 * n - 2) \<le> 2 ^ 62" using varint_decode_bound [OF nv] by (intro power_increasing) auto
  then have "unat v < 2 ^ 62" using varint_decode_range [OF nv] False nv by simp
  then show ?thesis by (simp add: nv word_le_nat_alt VARINT_MAXIMUM_def)
qed

text \<open>No octets denote a value in fewer than the encoder takes for it.\<close>

lemma varint_len_least:
  assumes "varint_decode input = (n, v)" "n \<noteq> 0"
  shows "varint_len v \<le> n"
  using varint_decode_range [OF assms] varint_decode_bound [OF assms(1)] assms(2)
  by (auto simp: varint_len_def word_le_nat_alt)

lemma varint_only_encode: "v \<le> VARINT_MAXIMUM \<Longrightarrow> varint_only (varint_encode v) = Inr v"
  using varint_decode_encode [of v "[]"] by (simp add: varint_only_def)

lemma varint_cut:
  assumes "v \<le> VARINT_MAXIMUM" "n < varint_len v"
  shows "fst (varint_decode (take n (varint_encode v))) = 0"
proof -
  obtain first others where e: "varint_encode v = first # others" by (cases "varint_encode v") simp_all
  have "fst (varint_decode (varint_encode v)) = varint_len v" using varint_decode_encode [OF assms(1), of "[]"] by simp
  moreover have "varint_len v \<noteq> 0" by (simp add: varint_len_def)
  ultimately have "2 ^ unat (drop_bit 6 first) = varint_len v"
    unfolding e varint_decode_Cons Let_def by (auto split: if_splits)
  then show ?thesis using assms(2) unfolding e by (cases n) (auto simp: varint_decode_def varint_decode_Cons Let_def)
qed

subsection \<open>Properties\<close>

text \<open>C19: every value a variable-length integer can hold is written in the shortest of its four forms, as
  no octets in which the value can be read are fewer, and read back from it whatever follows; what is
  cut short is not read, and what is read never passes the maximum or the input.\<close>

theorem varint_roundtrip:
  "(v \<le> VARINT_MAXIMUM \<longrightarrow> varint_decode (varint_encode v @ rest) = (varint_len v, v) \<and>
      (\<forall>n < varint_len v. fst (varint_decode (take n (varint_encode v))) = 0)) \<and>
   length (varint_encode v) = varint_len v \<and> varint_len v \<le> VARINT_MAX_SIZE \<and>
   (\<forall>octets n. varint_decode octets = (n, v) \<and> n \<noteq> 0 \<longrightarrow> length (varint_encode v) \<le> n) \<and>
   fst (varint_decode input) \<le> length input \<and> snd (varint_decode input) \<le> VARINT_MAXIMUM"
proof (intro conjI impI allI)
  show "varint_decode (varint_encode v @ rest) = (varint_len v, v)" if "v \<le> VARINT_MAXIMUM"
    using varint_decode_encode [OF that] .
  show "fst (varint_decode (take n (varint_encode v))) = 0" if "v \<le> VARINT_MAXIMUM" "n < varint_len v" for n
    using varint_cut [OF that] .
  show "varint_len v \<le> VARINT_MAX_SIZE" by (simp add: varint_len_def VARINT_MAX_SIZE_def)
  show "length (varint_encode v) \<le> n" if "varint_decode octets = (n, v) \<and> n \<noteq> 0" for octets n
    using varint_len_least [of octets n v] that by simp
  show "fst (varint_decode input) \<le> length input" using varint_decode_bound [of input] by (cases "varint_decode input") auto
qed (simp_all add: varint_decode_max)

theorem varint_roundtrip_witness:
  "varint_decode (varint_encode 0x3fffffff @ [7]) = (4, 0x3fffffff) \<and> length (varint_encode 1) \<le> 2"
proof
  show "varint_decode (varint_encode 0x3fffffff @ [7]) = (4, 0x3fffffff)"
    using varint_roundtrip [where v = "0x3fffffff" and rest = "[7]"] by (simp add: VARINT_MAXIMUM_def varint_len_def)
  have "varint_decode [0x40, 1] = (2, 1)" by code_simp
  then show "length (varint_encode 1) \<le> 2" using varint_roundtrip [where v = 1] by auto
qed

text \<open>Counting in fours from the first stream of a role stays among the streams of that role and direction.\<close>

lemma stream_ids:
  "is_bidi (first_bidi r + STREAM_STEP * k)" "is_uni (first_uni r + STREAM_STEP * k)"
  "client_initiated (first_bidi r + STREAM_STEP * k) = is_client r" "client_initiated (first_uni r + STREAM_STEP * k) = is_client r"
proof -
  have tests: "w AND 1 = 0 \<longleftrightarrow> \<not> bit w 0" "w AND 2 = 0 \<longleftrightarrow> \<not> bit w 1" for w :: u64
    using and_exp_eq_0_iff_not_bit [of w 0] and_exp_eq_0_iff_not_bit [of w 1] by simp_all
  have four: "4 * k = push_bit 2 k" by (simp add: push_bit_eq_mult)
  have sum: "c + push_bit 2 k = c OR push_bit 2 k" if "c \<in> {0, 1, 2, 3}" for c :: u64
  proof (rule disjunctive_add)
    fix n
    have "take_bit 2 c = c" using that by auto
    then have "bit c n \<Longrightarrow> n < 2" by (metis bit_take_bit_iff)
    then show "\<not> bit c n \<or> \<not> bit (push_bit 2 k) n" by (auto simp: bit_push_bit_iff)
  qed
  show "is_bidi (first_bidi r + STREAM_STEP * k)" "is_uni (first_uni r + STREAM_STEP * k)"
    "client_initiated (first_bidi r + STREAM_STEP * k) = is_client r" "client_initiated (first_uni r + STREAM_STEP * k) = is_client r"
    unfolding is_bidi_def is_uni_def client_initiated_def STREAM_STEP_def four tests first_bidi_def first_uni_def
    by (cases "is_client r"; simp add: sum bit_or_iff bit_push_bit_iff)+
qed

end
