(* ===== verification/H3_Frames.thy ===== *)
theory H3_Frames
  imports Varint Qpack
begin

section \<open>The HTTP/3 frame layer (src/src/protocol/h3/frames.rs)\<close>

text \<open>
  Frames on and off the wire, the kinds of stream and the settings. The buffer a frame is taken off
  is returned beside the result. A slice shared with the buffer and a copy of it are the same octets.
\<close>

definition H3_NO_ERROR :: u64 where "H3_NO_ERROR = 0x0100"
definition H3_GENERAL_PROTOCOL_ERROR :: u64 where "H3_GENERAL_PROTOCOL_ERROR = 0x0101"
definition H3_INTERNAL_ERROR :: u64 where "H3_INTERNAL_ERROR = 0x0102"
definition H3_STREAM_CREATION_ERROR :: u64 where "H3_STREAM_CREATION_ERROR = 0x0103"
definition H3_CLOSED_CRITICAL_STREAM :: u64 where "H3_CLOSED_CRITICAL_STREAM = 0x0104"
definition H3_FRAME_UNEXPECTED :: u64 where "H3_FRAME_UNEXPECTED = 0x0105"
definition H3_FRAME_ERROR :: u64 where "H3_FRAME_ERROR = 0x0106"
definition H3_EXCESSIVE_LOAD :: u64 where "H3_EXCESSIVE_LOAD = 0x0107"
definition H3_ID_ERROR :: u64 where "H3_ID_ERROR = 0x0108"
definition H3_SETTINGS_ERROR :: u64 where "H3_SETTINGS_ERROR = 0x0109"
definition H3_MISSING_SETTINGS :: u64 where "H3_MISSING_SETTINGS = 0x010a"
definition H3_REQUEST_REJECTED :: u64 where "H3_REQUEST_REJECTED = 0x010b"
definition H3_REQUEST_CANCELLED :: u64 where "H3_REQUEST_CANCELLED = 0x010c"
definition H3_REQUEST_INCOMPLETE :: u64 where "H3_REQUEST_INCOMPLETE = 0x010d"
definition H3_MESSAGE_ERROR :: u64 where "H3_MESSAGE_ERROR = 0x010e"
definition H3_CONNECT_ERROR :: u64 where "H3_CONNECT_ERROR = 0x010f"
definition H3_VERSION_FALLBACK :: u64 where "H3_VERSION_FALLBACK = 0x0110"
definition QPACK_DECOMPRESSION_FAILED :: u64 where "QPACK_DECOMPRESSION_FAILED = 0x0200"
definition QPACK_ENCODER_STREAM_ERROR :: u64 where "QPACK_ENCODER_STREAM_ERROR = 0x0201"
definition QPACK_DECODER_STREAM_ERROR :: u64 where "QPACK_DECODER_STREAM_ERROR = 0x0202"

datatype h3_type = H3DATA | H3HEADERS | CANCELPUSH | H3SETTINGS | H3PUSHPROMISE | H3GOAWAY | MAXPUSHID

definition H3_RESERVED :: "u64 list" where "H3_RESERVED = [0x02, 0x06, 0x08, 0x09]"

fun h3_code :: "h3_type \<Rightarrow> u64" where
  "h3_code H3DATA = 0x00"
| "h3_code H3HEADERS = 0x01"
| "h3_code CANCELPUSH = 0x03"
| "h3_code H3SETTINGS = 0x04"
| "h3_code H3PUSHPROMISE = 0x05"
| "h3_code H3GOAWAY = 0x07"
| "h3_code MAXPUSHID = 0x0d"

definition h3_from_code :: "u64 \<Rightarrow> h3_type option" where
  "h3_from_code code =
     (if code = 0x00 then Some H3DATA
      else if code = 0x01 then Some H3HEADERS
      else if code = 0x03 then Some CANCELPUSH
      else if code = 0x04 then Some H3SETTINGS
      else if code = 0x05 then Some H3PUSHPROMISE
      else if code = 0x07 then Some H3GOAWAY
      else if code = 0x0d then Some MAXPUSHID
      else None)"

datatype h3_frame =
    H3Data bytes
  | H3Headers bytes
  | CancelPush u64
  | H3Settings "(u64 \<times> u64) list"
  | H3PushPromise u64 bytes
  | H3GoAway u64
  | MaxPushID u64

fun h3_kind :: "h3_frame \<Rightarrow> h3_type" where
  "h3_kind (H3Data _) = H3DATA"
| "h3_kind (H3Headers _) = H3HEADERS"
| "h3_kind (CancelPush _) = CANCELPUSH"
| "h3_kind (H3Settings _) = H3SETTINGS"
| "h3_kind (H3PushPromise _ _) = H3PUSHPROMISE"
| "h3_kind (H3GoAway _) = H3GOAWAY"
| "h3_kind (MaxPushID _) = MAXPUSHID"

fun h3_payload :: "h3_frame \<Rightarrow> bytes" where
  "h3_payload (H3Data octets) = octets"
| "h3_payload (H3Headers octets) = octets"
| "h3_payload (CancelPush push_id) = varint_encode push_id"
| "h3_payload (H3Settings params) = concat (map (\<lambda>(setting, v). varint_encode setting @ varint_encode v) params)"
| "h3_payload (H3PushPromise push_id block) = varint_encode push_id @ block"
| "h3_payload (H3GoAway sid) = varint_encode sid"
| "h3_payload (MaxPushID push_id) = varint_encode push_id"

fun h3_payload_len :: "h3_frame \<Rightarrow> nat" where
  "h3_payload_len (H3Data octets) = length octets"
| "h3_payload_len (H3Headers octets) = length octets"
| "h3_payload_len (CancelPush push_id) = varint_len push_id"
| "h3_payload_len (H3Settings params) = sum_list (map (\<lambda>(setting, v). varint_len setting + varint_len v) params)"
| "h3_payload_len (H3PushPromise push_id block) = varint_len push_id + length block"
| "h3_payload_len (H3GoAway sid) = varint_len sid"
| "h3_payload_len (MaxPushID push_id) = varint_len push_id"

definition h3_encode_into :: "h3_frame \<Rightarrow> bytes \<Rightarrow> bytes" where
  "h3_encode_into f out =
     out @ varint_encode (h3_code (h3_kind f)) @ varint_encode (word_of_nat (h3_payload_len f)) @ h3_payload f"

definition h3_write :: "h3_type \<Rightarrow> bytes \<Rightarrow> bytes \<Rightarrow> bytes" where
  "h3_write kind payload out = out @ varint_encode (h3_code kind) @ varint_encode (word_of_nat (length payload)) @ payload"

definition h3_encode :: "h3_frame \<Rightarrow> bytes" where
  "h3_encode f = h3_encode_into f []"

text \<open>The parameters of a SETTINGS payload, one after the other.\<close>

function h3_params :: "bytes \<Rightarrow> (u64 \<times> u64) list \<Rightarrow> error + (u64 \<times> u64) list" where
  "h3_params rest params =
     (if rest = [] then Inr params
      else let (consumed, setting) = varint_decode rest; (taken, v) = varint_decode (drop consumed rest)
        in if consumed = 0 \<or> taken = 0 then Inl Protocol
           else if list_ex (\<lambda>(other, _). other = setting) params then Inl Protocol
           else h3_params (drop (consumed + taken) rest) (params @ [(setting, v)]))"
  by pat_completeness auto
termination by (relation "measure (\<lambda>(rest, params). length rest)") auto

declare h3_params.simps [simp del]

definition h3_assemble :: "h3_type \<Rightarrow> bytes \<Rightarrow> error + h3_frame" where
  "h3_assemble kind payload =
     (case kind of
        H3DATA \<Rightarrow> Inr (H3Data payload)
      | H3HEADERS \<Rightarrow> Inr (H3Headers payload)
      | CANCELPUSH \<Rightarrow> res_bind (varint_only payload) (\<lambda>push_id. Inr (CancelPush push_id))
      | MAXPUSHID \<Rightarrow> res_bind (varint_only payload) (\<lambda>push_id. Inr (MaxPushID push_id))
      | H3GOAWAY \<Rightarrow> res_bind (varint_only payload) (\<lambda>sid. Inr (H3GoAway sid))
      | H3SETTINGS \<Rightarrow> res_bind (h3_params payload []) (\<lambda>params. Inr (H3Settings params))
      | H3PUSHPROMISE \<Rightarrow>
          (let (consumed, push_id) = varint_decode payload
           in if consumed = 0 then Inl Protocol else Inr (H3PushPromise push_id (drop consumed payload))))"

text \<open>One whole frame off the front of a buffer; frames of unknown type are stepped over.\<close>

function h3_parse :: "bytes \<Rightarrow> bytes \<times> (error + h3_frame option)" where
  "h3_parse buffer =
     (let (taken, code) = varint_decode buffer;
          (took, len) = varint_decode (drop (min taken (length buffer)) buffer);
          consumed = (if taken = 0 \<or> took = 0 \<or> length buffer < taken + took + unat len then 0 else taken + took)
      in if consumed = 0 then (buffer, Inr None)
         else if code \<in> set H3_RESERVED then (buffer, Inl Protocol)
         else let frame = take (consumed + unat len) buffer; rest = drop (consumed + unat len) buffer
           in case h3_from_code code of
                Some kind \<Rightarrow> (rest, res_bind (h3_assemble kind (drop consumed frame)) (\<lambda>f. Inr (Some f)))
              | None \<Rightarrow> h3_parse rest)"
  by pat_completeness auto
termination by (relation "measure length") (auto split: if_splits)

declare h3_parse.simps [simp del]

subsection \<open>Kinds of stream\<close>

datatype stream_kind = ControlStream | PushStream | QPACKEncoderStream | QPACKDecoderStream | RequestStream

fun stream_code :: "stream_kind \<Rightarrow> u64 option" where
  "stream_code ControlStream = Some 0x00"
| "stream_code PushStream = Some 0x01"
| "stream_code QPACKEncoderStream = Some 0x02"
| "stream_code QPACKDecoderStream = Some 0x03"
| "stream_code RequestStream = None"

definition stream_from_code :: "u64 \<Rightarrow> stream_kind option" where
  "stream_from_code code =
     (if code = 0x00 then Some ControlStream
      else if code = 0x01 then Some PushStream
      else if code = 0x02 then Some QPACKEncoderStream
      else if code = 0x03 then Some QPACKDecoderStream
      else None)"

subsection \<open>Settings\<close>

record h3_settings =
  qpack_max_table_capacity :: u64
  qpack_blocked_streams :: u64
  max_field_section_size :: "u64 option"
  h3_enable_connect_protocol :: bool

definition QPACK_MAX_TABLE_CAPACITY :: u64 where "QPACK_MAX_TABLE_CAPACITY = 0x01"
definition MAX_FIELD_SECTION_SIZE :: u64 where "MAX_FIELD_SECTION_SIZE = 0x06"
definition QPACK_BLOCKED_STREAMS :: u64 where "QPACK_BLOCKED_STREAMS = 0x07"
definition H3_ENABLE_CONNECT_PROTOCOL :: u64 where "H3_ENABLE_CONNECT_PROTOCOL = 0x08"
definition SETTINGS_RESERVED :: "u64 list" where "SETTINGS_RESERVED = [0x00, 0x02, 0x03, 0x04, 0x05]"

lemmas h3_setting_defs = QPACK_MAX_TABLE_CAPACITY_def MAX_FIELD_SECTION_SIZE_def QPACK_BLOCKED_STREAMS_def
  H3_ENABLE_CONNECT_PROTOCOL_def SETTINGS_RESERVED_def

definition h3_parameters :: "h3_settings \<Rightarrow> (u64 \<times> u64) list" where
  "h3_parameters s =
     [(QPACK_MAX_TABLE_CAPACITY, qpack_max_table_capacity s), (QPACK_BLOCKED_STREAMS, qpack_blocked_streams s),
      (H3_ENABLE_CONNECT_PROTOCOL, if h3_enable_connect_protocol s then 1 else 0)]
     @ (case max_field_section_size s of Some n \<Rightarrow> [(MAX_FIELD_SECTION_SIZE, n)] | None \<Rightarrow> [])"

definition h3_settings_peer :: h3_settings where
  "h3_settings_peer = \<lparr> qpack_max_table_capacity = word_of_nat Q_DEFAULT_CAPACITY, qpack_blocked_streams = 0,
     max_field_section_size = None, h3_enable_connect_protocol = False \<rparr>"

definition h3_settings_default :: h3_settings where
  "h3_settings_default = \<lparr> qpack_max_table_capacity = word_of_nat Q_MAX_CAPACITY, qpack_blocked_streams = word_of_nat Q_MAX_BLOCKED,
     max_field_section_size = None, h3_enable_connect_protocol = True \<rparr>"

definition h3_settings_apply :: "h3_settings \<Rightarrow> u64 \<Rightarrow> u64 \<Rightarrow> error + h3_settings" where
  "h3_settings_apply s setting v =
     (if setting \<in> set SETTINGS_RESERVED then Inl Protocol
      else if setting = QPACK_MAX_TABLE_CAPACITY then Inr (s\<lparr> qpack_max_table_capacity := v \<rparr>)
      else if setting = QPACK_BLOCKED_STREAMS then Inr (s\<lparr> qpack_blocked_streams := v \<rparr>)
      else if setting = MAX_FIELD_SECTION_SIZE then Inr (s\<lparr> max_field_section_size := Some v \<rparr>)
      else if setting = H3_ENABLE_CONNECT_PROTOCOL then
        if 1 < v then Inl Protocol else Inr (s\<lparr> h3_enable_connect_protocol := (v = 1) \<rparr>)
      else Inr s)"

text \<open>A whole SETTINGS frame, applied in order, as the control stream does.\<close>

fun h3_settings_apply_all :: "h3_settings \<Rightarrow> (u64 \<times> u64) list \<Rightarrow> error + h3_settings" where
  "h3_settings_apply_all s [] = Inr s"
| "h3_settings_apply_all s ((setting, v) # params) =
     res_bind (h3_settings_apply s setting v) (\<lambda>s. h3_settings_apply_all s params)"

subsection \<open>Frames in order\<close>

definition small :: "u64 \<Rightarrow> bool" where "small v \<longleftrightarrow> v \<le> VARINT_MAXIMUM"

fun h3_content_ok :: "h3_frame \<Rightarrow> bool" where
  "h3_content_ok (H3Data octets) = True"
| "h3_content_ok (H3Headers octets) = True"
| "h3_content_ok (CancelPush push_id) = small push_id"
| "h3_content_ok (H3Settings params) = (distinct (map fst params) \<and> list_all (\<lambda>(setting, v). small setting \<and> small v) params)"
| "h3_content_ok (H3PushPromise push_id block) = small push_id"
| "h3_content_ok (H3GoAway sid) = small sid"
| "h3_content_ok (MaxPushID push_id) = small push_id"

text \<open>The frames the format allows: what they carry can be written, and their length too.\<close>

definition h3_frame_ok :: "h3_frame \<Rightarrow> bool" where
  "h3_frame_ok f \<longleftrightarrow> h3_content_ok f \<and> h3_payload_len f < 2 ^ 62"

lemma h3_payload_length [simp]: "length (h3_payload f) = h3_payload_len f"
proof (cases f)
  case (H3Settings params)
  then show ?thesis by (induction params arbitrary: f) auto
qed simp_all

lemma h3_codes:
  "h3_from_code (h3_code k) = Some k" "h3_code k \<notin> set H3_RESERVED" "h3_code k \<le> VARINT_MAXIMUM" "varint_len (h3_code k) = 1"
  by (cases k; simp add: h3_from_code_def H3_RESERVED_def VARINT_MAXIMUM_def varint_len_def)+

lemma small_length: "n < 2 ^ 62 \<Longrightarrow> (word_of_nat n :: u64) \<le> VARINT_MAXIMUM \<and> unat (word_of_nat n :: u64) = n"
  by (simp add: word_le_nat_alt VARINT_MAXIMUM_def unat_of_nat)

definition h3_unknown :: "u64 \<Rightarrow> bytes \<Rightarrow> bytes" where
  "h3_unknown code payload = varint_encode code @ varint_encode (word_of_nat (length payload)) @ payload"

lemma h3_params_payload:
  "distinct (map fst (params @ ps)) \<Longrightarrow> list_all (\<lambda>(setting, v). small setting \<and> small v) ps \<Longrightarrow>
   h3_params (concat (map (\<lambda>(setting, v). varint_encode setting @ varint_encode v) ps)) params = Inr (params @ ps)"
proof (induction ps arbitrary: params)
  case Nil
  then show ?case by (subst h3_params.simps) simp
next
  case (Cons p ps)
  obtain setting v where p: "p = (setting, v)" by fastforce
  have small: "setting \<le> VARINT_MAXIMUM" "v \<le> VARINT_MAXIMUM" using Cons(3) p by (simp_all add: small_def)
  have "\<not> list_ex (\<lambda>(other, _). other = setting) params" using Cons(2) p by (force simp: list_ex_iff)
  then show ?case using Cons(1) [of "params @ [p]"] Cons(2,3) p small
    by (subst h3_params.simps) (simp add: varint_decode_encode)
qed

lemma h3_assemble_payload: "h3_content_ok f \<Longrightarrow> h3_assemble (h3_kind f) (h3_payload f) = Inr f"
  using h3_params_payload [of "[]"] by (cases f) (simp_all add: h3_assemble_def varint_only_encode small_def varint_decode_encode)

lemma h3_parse_front:
  assumes "code \<le> VARINT_MAXIMUM" "length payload < 2 ^ 62"
  shows "h3_parse (varint_encode code @ varint_encode (word_of_nat (length payload)) @ payload @ rest) =
    (if code \<in> set H3_RESERVED then (varint_encode code @ varint_encode (word_of_nat (length payload)) @ payload @ rest, Inl Protocol)
     else case h3_from_code code of
        Some kind \<Rightarrow> (rest, res_bind (h3_assemble kind payload) (\<lambda>f. Inr (Some f)))
      | None \<Rightarrow> h3_parse rest)"
  using assms small_length [OF assms(2)]
  by (subst h3_parse.simps) (simp add: varint_decode_encode Let_def drop_append split: option.split)

lemma h3_parse_cut:
  assumes "code \<le> VARINT_MAXIMUM" "length payload < 2 ^ 62"
    and "n < varint_len code + varint_len (word_of_nat (length payload)) + length payload"
  shows "h3_parse (take n (varint_encode code @ varint_encode (word_of_nat (length payload)) @ payload)) =
    (take n (varint_encode code @ varint_encode (word_of_nat (length payload)) @ payload), Inr None)"
proof -
  let ?len = "word_of_nat (length payload) :: u64"
  note len = small_length [OF assms(2)]
  let ?whole = "varint_encode code @ varint_encode ?len @ payload"
  consider "n < varint_len code" | "varint_len code \<le> n" "n - varint_len code < varint_len ?len"
    | "varint_len code \<le> n" "varint_len ?len \<le> n - varint_len code" by linarith
  then show ?thesis
  proof cases
    case 1
    then have whole: "take n ?whole = take n (varint_encode code)" by simp
    obtain c where "varint_decode (take n (varint_encode code)) = (0, c)"
      using varint_cut [OF assms(1) 1] by (metis prod.collapse)
    then show ?thesis unfolding whole by (subst h3_parse.simps) (simp add: case_prod_beta Let_def)
  next
    case 2
    then have whole: "take n ?whole = varint_encode code @ take (n - varint_len code) (varint_encode ?len)" by simp
    obtain c where "varint_decode (take (n - varint_len code) (varint_encode ?len)) = (0, c)"
      using varint_cut [of ?len "n - varint_len code"] len 2(2) by (metis prod.collapse)
    then show ?thesis unfolding whole using assms(1)
      by (subst h3_parse.simps) (simp add: varint_decode_encode Let_def)
  next
    case 3
    let ?k = "n - varint_len code - varint_len ?len"
    have whole: "take n ?whole = varint_encode code @ varint_encode ?len @ take ?k payload" using 3 by simp
    obtain part where part: "part = take ?k payload" by simp
    then have short: "length part < length payload" using 3 assms(3) by auto
    show ?thesis unfolding whole part [symmetric] using assms(1) len short
      by (subst h3_parse.simps) (simp add: varint_decode_encode Let_def)
  qed
qed

lemma h3_params_ok:
  "h3_params rest params = Inr ps \<Longrightarrow> distinct (map fst params) \<Longrightarrow> list_all (\<lambda>(setting, v). small setting \<and> small v) params \<Longrightarrow>
   distinct (map fst ps) \<and> list_all (\<lambda>(setting, v). small setting \<and> small v) ps"
proof (induction rest params rule: h3_params.induct)
  case (1 rest params)
  show ?case
  proof (cases "rest = []")
    case True
    then show ?thesis using 1(2-) by (subst (asm) h3_params.simps) simp
  next
    case False
    obtain consumed setting where one: "varint_decode rest = (consumed, setting)" by fastforce
    obtain taken v where two: "varint_decode (drop consumed rest) = (taken, v)" by fastforce
    have small: "small setting" "small v"
      using varint_decode_max [of rest] varint_decode_max [of "drop consumed rest"] one two by (simp_all add: small_def)
    have ok: "consumed \<noteq> 0" "taken \<noteq> 0" "\<not> list_ex (\<lambda>(other, _). other = setting) params"
      and rec: "h3_params (drop (consumed + taken) rest) (params @ [(setting, v)]) = Inr ps"
      using 1(2) False one two by (subst (asm) h3_params.simps, auto split: if_splits)+
    have "setting \<notin> fst ` set params" using ok(3) by (force simp: list_ex_iff)
    then show ?thesis using 1(1) [OF False one [symmetric] refl two [symmetric] refl] ok rec 1(3,4) small by auto
  qed
qed

lemma varint_only_small: "varint_only payload = Inr v \<Longrightarrow> small v"
  using varint_decode_max [of payload] by (auto simp: varint_only_def small_def split: prod.splits if_splits)

lemma h3_assemble_ok: "h3_assemble kind payload = Inr f \<Longrightarrow> h3_content_ok f \<and> h3_kind f = kind"
  using h3_params_ok [of payload "[]"] varint_decode_max [of payload]
  by (cases kind) (auto simp: h3_assemble_def res_bind_Inr_iff varint_only_small [unfolded small_def] small_def split: prod.splits if_splits)

subsection \<open>Properties\<close>

text \<open>C17: every frame the format allows is read back whole from what it is written as, whatever follows it,
  and the length that precedes a payload is the payload's; a frame cut short anywhere is left in
  the buffer untouched.\<close>

theorem h3_frame_roundtrip:
  assumes "h3_frame_ok f"
  shows "h3_parse (h3_encode f @ rest) = (rest, Inr (Some f)) \<and> length (h3_payload f) = h3_payload_len f \<and>
    (\<forall>n < length (h3_encode f). h3_parse (take n (h3_encode f)) = (take n (h3_encode f), Inr None))"
proof -
  have ok: "h3_content_ok f" "length (h3_payload f) < 2 ^ 62" using assms by (simp_all add: h3_frame_ok_def)
  have enc: "h3_encode f = varint_encode (h3_code (h3_kind f)) @ varint_encode (word_of_nat (length (h3_payload f))) @ h3_payload f"
    by (simp add: h3_encode_def h3_encode_into_def)
  show ?thesis
    using h3_parse_front [OF h3_codes(3) ok(2), of "h3_kind f" rest] h3_parse_cut [OF h3_codes(3) ok(2), of _ "h3_kind f"]
    by (simp add: enc h3_codes h3_assemble_payload ok(1))
qed

theorem h3_frame_roundtrip_witness:
  "h3_parse (h3_encode (H3Settings [(1, 4096), (7, 16)]) @ [9]) = ([9], Inr (Some (H3Settings [(1, 4096), (7, 16)])))"
proof -
  have "h3_frame_ok (H3Settings [(1, 4096), (7, 16)])"
    by (simp add: h3_frame_ok_def small_def VARINT_MAXIMUM_def varint_len_def)
  from h3_frame_roundtrip [OF this] show ?thesis by blast
qed

text \<open>Whatever the octets, a frame that is read is one the format allows, of a type that is neither
  unknown nor reserved, and reading it shortens the buffer.\<close>

lemma h3_frame_valid:
  assumes "h3_parse buffer = (rest, Inr (Some f))"
  shows "h3_content_ok f \<and> length rest < length buffer \<and> suffix rest buffer"
  using assms
proof (induction buffer rule: h3_parse.induct)
  case (1 buffer)
  obtain taken code where one: "varint_decode buffer = (taken, code)" by fastforce
  obtain took len where two: "varint_decode (drop (min taken (length buffer)) buffer) = (took, len)" by fastforce
  define consumed where "consumed = (if taken = 0 \<or> took = 0 \<or> length buffer < taken + took + unat len then 0 else taken + took)"
  let ?rest = "drop (consumed + unat len) buffer" and ?frame = "take (consumed + unat len) buffer"
  have parse: "h3_parse buffer = (if consumed = 0 then (buffer, Inr None) else if code \<in> set H3_RESERVED then (buffer, Inl Protocol)
      else case h3_from_code code of
          Some kind \<Rightarrow> (?rest, res_bind (h3_assemble kind (drop consumed ?frame)) (\<lambda>f. Inr (Some f)))
        | None \<Rightarrow> h3_parse ?rest)"
    by (subst h3_parse.simps) (simp only: one two consumed_def Let_def prod.case)
  then have ok: "consumed \<noteq> 0" "code \<notin> set H3_RESERVED" using 1(2) by (auto split: if_splits)
  then have shorter: "length ?rest < length buffer" by (auto simp: consumed_def split: if_splits)
  show ?case
  proof (cases "h3_from_code code")
    case None
    then have "h3_parse ?rest = (rest, Inr (Some f))" using parse 1(2) ok by simp
    from 1(1) [OF one [symmetric] refl two [symmetric] refl consumed_def ok refl refl None this] shorter show ?thesis
      using suffix_order.trans [OF _ suffix_drop [of "consumed + unat len" buffer]] by auto
  next
    case (Some kind)
    then have "rest = ?rest" "res_bind (h3_assemble kind (drop consumed ?frame)) (\<lambda>f. Inr (Some f)) = Inr (Some f)"
      using parse 1(2) ok by simp_all
    then have "rest = ?rest" "h3_assemble kind (drop consumed ?frame) = Inr f" by (simp_all add: res_bind_Inr_iff)
    then show ?thesis using shorter h3_assemble_ok suffix_drop by blast
  qed
qed

lemma h3_frame_valid_witness: "h3_content_ok (H3GoAway 5)"
proof -
  have "h3_parse [7, 1, 5, 0] = ([0], Inr (Some (H3GoAway 5)))" by code_simp
  from h3_frame_valid [OF this] show ?thesis by blast
qed

text \<open>A frame of a type HTTP/2 used is refused and left in the buffer, one of a type nobody knows is
  stepped over, however long, and no type is both known and reserved.\<close>

lemma h3_frame_skipped:
  assumes "small code" "length payload < 2 ^ 62"
  shows "(code \<in> set H3_RESERVED \<longrightarrow>
      h3_parse (h3_unknown code payload @ rest) = (h3_unknown code payload @ rest, Inl Protocol)) \<and>
    (code \<notin> set H3_RESERVED \<and> h3_from_code code = None \<longrightarrow> h3_parse (h3_unknown code payload @ rest) = h3_parse rest) \<and>
    (code \<in> set H3_RESERVED \<longrightarrow> h3_from_code code = None)"
  using h3_parse_front [of code payload rest] assms
  by (auto simp: h3_unknown_def small_def H3_RESERVED_def h3_from_code_def)

lemma h3_frame_skipped_witness: "h3_parse (h3_unknown 0x21 [1, 2, 3] @ []) = h3_parse []"
proof -
  have "small 0x21" by (simp add: small_def VARINT_MAXIMUM_def)
  from h3_frame_skipped [OF this, of "[1, 2, 3]" "[]"] show ?thesis by (simp add: H3_RESERVED_def h3_from_code_def)
qed

text \<open>C18: the settings one end announces are what the other comes to hold, whatever it assumed before;
  settings of HTTP/2 are refused, and unknown ones change nothing.\<close>

theorem h3_settings_exchange:
  "h3_settings_apply_all h3_settings_peer (h3_parameters s) = Inr s \<and> distinct (map fst (h3_parameters s)) \<and>
   (setting \<in> set SETTINGS_RESERVED \<longrightarrow> h3_settings_apply t setting v = Inl Protocol) \<and>
   (setting \<notin> set (SETTINGS_RESERVED @ [QPACK_MAX_TABLE_CAPACITY, QPACK_BLOCKED_STREAMS, MAX_FIELD_SECTION_SIZE, H3_ENABLE_CONNECT_PROTOCOL]) \<longrightarrow>
      h3_settings_apply t setting v = Inr t)"
  by (cases s) (auto simp: h3_settings_apply_def h3_parameters_def h3_settings_peer_def h3_setting_defs split: option.split)

theorem h3_settings_exchange_witness: "h3_settings_apply h3_settings_peer 0x21 7 = Inr h3_settings_peer"
  using h3_settings_exchange [of h3_settings_default "0x21" h3_settings_peer 7] by (simp add: h3_setting_defs)

text \<open>A kind of stream that announces itself is known by its code, and no code names a request.\<close>

lemma stream_codes: "stream_from_code code = Some k \<longleftrightarrow> stream_code k = Some code"
  by (cases k) (auto simp: stream_from_code_def)

end
