(* ===== verification/Codings.thy ===== *)
theory Codings
  imports Scan Text_Type Errors
begin

section \<open>Content codings (src/src/helpers/compression.rs)\<close>

text \<open>
  The codings, the lists a field names them in, and the coding of a body. The compressors are the
  \<open>zstd\<close>, \<open>brotli\<close> and \<open>flate2\<close> crates, a parameter: what each writes for an input, or that it
  fails, and what a decompressor yields before it ends and whether it ends with an error. Quality
  values, which are floating-point numbers, are not modelled, nor is what rests on them.
\<close>

datatype compression = Auto | Zstd | Brotli | Gzip | Deflate

definition compression_str :: "compression \<Rightarrow> bytes" where
  "compression_str c = ascii (case c of Auto \<Rightarrow> '''' | Zstd \<Rightarrow> ''zstd'' | Brotli \<Rightarrow> ''br'' | Gzip \<Rightarrow> ''gzip'' | Deflate \<Rightarrow> ''deflate'')"

definition IDENTITY :: bytes where "IDENTITY = ascii ''identity''"
definition GZIP_ALIAS :: bytes where "GZIP_ALIAS = ascii ''x-gzip''"

text \<open>\<open>trim_ascii\<close> and \<open>eq_ignore_ascii_case\<close>.\<close>

definition is_space :: "octet \<Rightarrow> bool" where
  "is_space b \<longleftrightarrow> b \<in> {0x20, 9, 10, 12, 13}"

definition trim_ascii :: "bytes \<Rightarrow> bytes" where
  "trim_ascii s = rev (dropWhile is_space (rev (dropWhile is_space s)))"

definition same_ignoring_case :: "bytes \<Rightarrow> bytes \<Rightarrow> bool" where
  "same_ignoring_case a b \<longleftrightarrow> lowercase a = lowercase b"

definition compression_parse :: "bytes \<Rightarrow> compression option" where
  "compression_parse token =
     (let token = trim_ascii token; n = length token
      in case token of
           [] \<Rightarrow> None
         | first # _ \<Rightarrow>
             (let first = lower_octet first; named = (\<lambda>name c. if same_ignoring_case token name then Some c else None)
              in if n = 2 \<and> first = of_char CHR ''b'' then named (compression_str Brotli) Brotli
                 else if n = 4 \<and> first = of_char CHR ''g'' then named (compression_str Gzip) Gzip
                 else if n = 4 \<and> first = of_char CHR ''z'' then named (compression_str Zstd) Zstd
                 else if n = 6 \<and> first = of_char CHR ''x'' then named GZIP_ALIAS Gzip
                 else if n = 7 \<and> first = of_char CHR ''d'' then named (compression_str Deflate) Deflate
                 else None))"

subsection \<open>The codings a field lists\<close>

definition coding_split :: "bytes \<Rightarrow> octet \<Rightarrow> (bytes \<times> bytes) option" where
  "coding_split s octet = map_option (\<lambda>at. (take at s, drop (at + 1) s)) (scan_find s octet)"

definition coding_token :: "bytes \<Rightarrow> bytes" where
  "coding_token entry = (case coding_split entry 0x3b of Some (token, _) \<Rightarrow> trim_ascii token | None \<Rightarrow> trim_ascii entry)"

lemma coding_split_shorter: "coding_split s octet = Some (entry, rest) \<Longrightarrow> length rest < length s"
  using position_SomeD [of "\<lambda>b. b = octet" s] by (auto simp: coding_split_def scan_find_spec)

text \<open>The tokens the iterator yields, in order; an entry without one is stepped over.\<close>

function coding_tokens :: "bytes \<Rightarrow> bytes list" where
  "coding_tokens rest =
     (if rest = [] then []
      else let (entry, rest') = (case coding_split rest 0x2c of Some (entry, rest) \<Rightarrow> (entry, rest) | None \<Rightarrow> (rest, []));
               token = coding_token entry
           in if token \<noteq> [] then token # coding_tokens rest' else coding_tokens rest')"
  by pat_completeness auto
termination
  by (relation "measure length") (auto split: option.splits dest: coding_split_shorter)

declare coding_tokens.simps [simp del]

text \<open>\<open>Err\<close> is the early return of \<open>None\<close>.\<close>

fun applied_from :: "bytes list \<Rightarrow> compression option \<Rightarrow> compression option" where
  "applied_from [] found = found"
| "applied_from (token # tokens) found =
     (if same_ignoring_case token IDENTITY then applied_from tokens found
      else if found \<noteq> None then None
      else case compression_parse token of None \<Rightarrow> None | Some c \<Rightarrow> applied_from tokens (Some c))"

definition compression_applied :: "bytes list \<Rightarrow> compression option" where
  "compression_applied values = applied_from (concat (map coding_tokens values)) None"

definition compression_encoded :: "bytes list \<Rightarrow> bool" where
  "compression_encoded values \<longleftrightarrow>
     list_ex (list_ex (\<lambda>token. \<not> same_ignoring_case token IDENTITY)) (map coding_tokens values)"

subsection \<open>Coding a body\<close>

record codec_library =
  lib_encode :: "compression \<Rightarrow> bytes \<Rightarrow> bytes option"
  lib_reader :: "compression \<Rightarrow> bytes \<Rightarrow> (bytes \<times> bool) option"
  lib_raw_deflate :: "bytes \<Rightarrow> bytes \<times> bool"

text \<open>
  A reader is what it yields and whether an error ends it. \<open>drain\<close> reads at most one octet past
  \<open>most\<close>, so an error behind that is never met.
\<close>

definition compression_drain :: "bytes \<times> bool \<Rightarrow> u64 \<Rightarrow> compression_error + bytes" where
  "compression_drain reader most =
     (case reader of (octets, failed) \<Rightarrow>
        if unat most < length octets then Inl TooLarge
        else if failed then Inl Coding else Inr octets)"

definition compression_encode :: "codec_library \<Rightarrow> compression \<Rightarrow> bytes \<Rightarrow> compression_error + bytes" where
  "compression_encode lib c input =
     (if c = Auto then Inl Settled else ok_or Coding (lib_encode lib c input))"

definition compression_decode :: "codec_library \<Rightarrow> compression \<Rightarrow> bytes \<Rightarrow> u64 \<Rightarrow> compression_error + bytes" where
  "compression_decode lib c input most =
     (if c = Auto then Inl Settled
      else case lib_reader lib c input of
        None \<Rightarrow> Inl Coding
      | Some reader \<Rightarrow>
          (case compression_drain reader most of
             Inl Coding \<Rightarrow> if c = Deflate then compression_drain (lib_raw_deflate lib input) most else Inl Coding
           | settled \<Rightarrow> settled))"

text \<open>Every coding's own name, alone in a field, is read back as that coding.\<close>

lemma compression_parse_str: "c \<noteq> Auto \<Longrightarrow> compression_parse (compression_str c) = Some c"
proof -
  have "\<forall>c \<in> set [Zstd, Brotli, Gzip, Deflate]. compression_parse (compression_str c) = Some c" by code_simp
  then show "c \<noteq> Auto \<Longrightarrow> compression_parse (compression_str c) = Some c" by (cases c) simp_all
qed

lemma compression_applied_str:
  "c \<noteq> Auto \<Longrightarrow> compression_applied [compression_str c] = Some c \<and> compression_encoded [compression_str c]"
proof -
  have "\<forall>c \<in> set [Zstd, Brotli, Gzip, Deflate]. coding_tokens (compression_str c) = [compression_str c] \<and>
      \<not> same_ignoring_case (compression_str c) IDENTITY" by code_simp
  then have "c \<noteq> Auto \<Longrightarrow> coding_tokens (compression_str c) = [compression_str c] \<and>
      \<not> same_ignoring_case (compression_str c) IDENTITY" by (cases c) auto
  then show "c \<noteq> Auto \<Longrightarrow> compression_applied [compression_str c] = Some c \<and> compression_encoded [compression_str c]"
    by (simp add: compression_applied_def compression_encoded_def compression_parse_str)
qed

end
