(* ===== verification/Messages.thy ===== *)
theory Messages
  imports Complex_Main Header_Section Codings Decimal Urls
begin

section \<open>Messages and their limits (src/src/models.rs)\<close>

text \<open>
  A request or a response, what makes it carry a body, and the coding of that body on its way out
  and in. The address of a peer and what a handshake settled are opaque here: they are stamped on
  and handed over, and \<open>Security::default\<close> is an argument of what builds a message. A file named
  by a body is read by the caller, so its octets are an argument where the code awaits them.
\<close>

datatype body = BData bytes | BText bytes | BFile bytes

fun body_len :: "body \<Rightarrow> nat option" where
  "body_len (BData octets) = Some (length octets)"
| "body_len (BText octets) = Some (length octets)"
| "body_len (BFile _) = None"

definition body_is_empty :: "body \<Rightarrow> bool" where
  "body_is_empty b \<longleftrightarrow> body_len b = Some 0"

fun body_into_inline :: "body \<Rightarrow> bytes + bytes" where
  "body_into_inline (BData octets) = Inr octets"
| "body_into_inline (BText octets) = Inr octets"
| "body_into_inline (BFile path) = Inl path"

text \<open>\<open>read\<close> is the filesystem: what reading a path gives, or that it fails.\<close>

definition body_into_bytes :: "(bytes \<Rightarrow> bytes option) \<Rightarrow> body \<Rightarrow> error + bytes" where
  "body_into_bytes read b = (case body_into_inline b of Inr octets \<Rightarrow> Inr octets | Inl path \<Rightarrow> ok_or IO (read path))"

fun body_inline :: "body \<Rightarrow> bytes option" where
  "body_inline (BData octets) = Some octets"
| "body_inline (BText octets) = Some octets"
| "body_inline (BFile _) = None"

record ('addr, 'sec) message =
  msg_version :: version
  msg_body :: "body option"
  msg_compression :: "compression option"
  msg_headers :: "headers option"
  msg_trailers :: "headers option"
  msg_stream_id :: "u64 option"
  msg_connection_id :: "bytes option"
  msg_client :: "'addr option"
  msg_security :: 'sec
  msg_method :: "http_method option"
  msg_target :: "utext option"
  msg_status :: "u16 option"

definition message_new :: "'sec \<Rightarrow> version \<Rightarrow> ('addr, 'sec) message" where
  "message_new security v = \<lparr> msg_version = v, msg_body = None, msg_compression = None, msg_headers = Some headers_new,
     msg_trailers = None, msg_stream_id = None, msg_connection_id = None, msg_client = None, msg_security = security,
     msg_method = None, msg_target = None, msg_status = None \<rparr>"

definition message_request :: "'sec \<Rightarrow> http_method \<Rightarrow> utext \<Rightarrow> version \<Rightarrow> ('addr, 'sec) message" where
  "message_request security m target v = (message_new security v)\<lparr> msg_method := Some m, msg_target := Some target \<rparr>"

definition message_response :: "'sec \<Rightarrow> u16 \<Rightarrow> version \<Rightarrow> ('addr, 'sec) message" where
  "message_response security code v = (message_new security v)\<lparr> msg_status := Some code \<rparr>"

definition is_request :: "('addr, 'sec) message \<Rightarrow> bool" where
  "is_request m \<longleftrightarrow> msg_method m \<noteq> None"

definition is_response :: "('addr, 'sec) message \<Rightarrow> bool" where
  "is_response m \<longleftrightarrow> msg_status m \<noteq> None"

definition status_within :: "u16 \<Rightarrow> u16 \<Rightarrow> ('addr, 'sec) message \<Rightarrow> bool" where
  "status_within lo hi m \<longleftrightarrow> (case msg_status m of Some code \<Rightarrow> lo \<le> code \<and> code \<le> hi | None \<Rightarrow> False)"

definition tunneling :: "('addr, 'sec) message \<Rightarrow> http_method option \<Rightarrow> bool" where
  "tunneling m method \<longleftrightarrow> method = Some CONNECT \<and> (is_request m \<or> status_within 200 299 m)"

definition is_informational :: "('addr, 'sec) message \<Rightarrow> bool" where
  "is_informational m \<longleftrightarrow> status_within 100 199 m"

definition bodyless :: "('addr, 'sec) message \<Rightarrow> http_method option \<Rightarrow> bool" where
  "bodyless m method =
     (case msg_status m of
        Some code \<Rightarrow> (100 \<le> code \<and> code \<le> 199 \<or> code = 204 \<or> code = 304) \<or> method = Some HEAD
      | None \<Rightarrow> False)"

definition message_compressed :: "('addr, 'sec) message \<Rightarrow> bool" where
  "message_compressed m =
     (case msg_headers m of
        Some h \<Rightarrow> compression_encoded (headers_get_all h (ascii ''content-encoding'')) | None \<Rightarrow> False)"

definition codable :: "('addr, 'sec) message \<Rightarrow> bool" where
  "codable m =
     (let bodyless = status_within 100 199 m \<or> msg_status m = Some 204 \<or> msg_status m = Some 304;
          partial = msg_status m = Some 206 \<or>
            (case msg_headers m of Some h \<Rightarrow> headers_contains h (ascii ''content-range'') | None \<Rightarrow> False)
      in \<not> bodyless \<and> \<not> partial \<and> msg_method m \<noteq> Some CONNECT)"

definition materialize :: "(bytes \<Rightarrow> bytes option) \<Rightarrow> ('addr, 'sec) message \<Rightarrow> error + ('addr, 'sec) message" where
  "materialize read m =
     (case msg_body m of
        None \<Rightarrow> Inr m
      | Some b \<Rightarrow> res_bind (body_into_bytes read b) (\<lambda>octets. Inr (m\<lparr> msg_body := Some (BData octets) \<rparr>)))"

text \<open>\<open>headers.insert("content-length", length.to_string())\<close>, where there is one.\<close>

definition correct_length :: "headers \<Rightarrow> nat \<Rightarrow> headers" where
  "correct_length h n =
     (if headers_contains h (ascii ''content-length'')
      then headers_insert h (text_from_str (ascii ''content-length'')) (text_from_string (show_decimal n)) else h)"

definition message_compress :: "codec_library \<Rightarrow> compression option \<Rightarrow> ('addr, 'sec) message \<Rightarrow> error + ('addr, 'sec) message" where
  "message_compress lib accepted m =
     (case msg_compression m of
        None \<Rightarrow> Inr m
      | Some compression \<Rightarrow>
          (case (if compression = Auto then accepted else Some compression) of
             None \<Rightarrow> Inr (m\<lparr> msg_compression := None \<rparr>)
           | Some coding \<Rightarrow>
               if message_compressed m \<or> \<not> codable m \<or> (case msg_body m of None \<Rightarrow> True | Some b \<Rightarrow> body_is_empty b)
               then Inr (m\<lparr> msg_compression := None \<rparr>)
               else (case Option.bind (msg_body m) body_inline of
                  None \<Rightarrow> Inl Protocol
                | Some octets \<Rightarrow>
                    res_bind (map_err error_of_compression (compression_encode lib coding octets)) (\<lambda>encoded.
                      let varying = compression = Auto \<and> is_response m;
                          h = (case msg_headers m of Some h \<Rightarrow> h | None \<Rightarrow> headers_new);
                          h = headers_append_lowercase h (text_from_str (ascii ''content-encoding''))
                                (text_from_str (compression_str coding));
                          h = correct_length h (length encoded);
                          h = (if varying \<and> \<not> headers_contains h (ascii ''vary'')
                               then headers_append_lowercase h (text_from_str (ascii ''vary'')) (text_from_str (ascii ''Accept-Encoding''))
                               else h)
                      in Inr (m\<lparr> msg_body := Some (BData encoded), msg_compression := Some coding, msg_headers := Some h \<rparr>)))))"

definition message_decompress :: "codec_library \<Rightarrow> u64 \<Rightarrow> ('addr, 'sec) message \<Rightarrow> error + ('addr, 'sec) message" where
  "message_decompress lib most m =
     (case msg_headers m of
        None \<Rightarrow> Inr m
      | Some h \<Rightarrow>
          (case compression_applied (headers_get_all h (ascii ''content-encoding'')) of
             None \<Rightarrow> Inr m
           | Some coding \<Rightarrow>
               (case Option.bind (msg_body m) body_inline of
                  None \<Rightarrow> Inr m
                | Some octets \<Rightarrow>
                    res_bind (map_err error_of_compression (compression_decode lib coding octets most)) (\<lambda>decoded.
                      let h = fst (headers_remove h (ascii ''content-encoding''));
                          h = correct_length h (length decoded)
                      in Inr (m\<lparr> msg_body := Some (BData decoded), msg_compression := Some coding, msg_headers := Some h \<rparr>)))))"

subsection \<open>Limits\<close>

text \<open>Timeouts are numbers of seconds, all whole in the defaults; \<open>0\<close> waits forever.\<close>

record limits =
  lim_max_message_size :: u64
  lim_max_message_body_size :: u64
  lim_max_decompressed_body_size :: u64
  lim_max_startline_size :: u32
  lim_max_headers_size :: u64
  lim_max_header_count :: u16
  lim_max_chunk_header_size :: u32
  lim_read_chunk_size :: u64
  lim_idle_capacity :: u64
  lim_max_pending_handshakes :: u32
  lim_handshake_timeout :: real
  lim_read_timeout :: real
  lim_write_timeout :: real
  lim_receive_timeout :: real
  lim_send_timeout :: real
  lim_inline_body_size :: u64
  lim_max_concurrent_streams :: u32
  lim_max_connection_buffer_size :: u64
  lim_max_premature_resets :: u32
  lim_max_encoder_table_size :: u64
  lim_max_idle_frames :: u32
  lim_output_high_water :: u64
  lim_max_requests_per_connection :: u64
  lim_qpack_block_timeout :: real
  lim_max_peer_uni_streams :: u32
  lim_max_outstanding_sections :: u32
  lim_max_blocked_streams :: u32
  lim_tunnel_backlog :: u32
  lim_command_backlog :: u32
  lim_ws_linger_timeout :: real
  lim_ws_max_fragments :: u16
  lim_max_cookies :: u32
  lim_max_cookies_per_domain :: u16
  lim_max_hsts_entries :: u32

definition limits_default :: limits where
  "limits_default = \<lparr>
     lim_max_message_size = 64 * 1024 * 1024,
     lim_max_message_body_size = 64 * 1024 * 1024,
     lim_max_decompressed_body_size = 256 * 1024 * 1024,
     lim_max_startline_size = 8 * 1024,
     lim_max_headers_size = 64 * 1024,
     lim_max_header_count = 100,
     lim_max_chunk_header_size = 128,
     lim_read_chunk_size = 16 * 1024,
     lim_idle_capacity = 64 * 1024,
     lim_max_pending_handshakes = 256,
     lim_handshake_timeout = 10,
     lim_read_timeout = 30,
     lim_write_timeout = 30,
     lim_receive_timeout = 300,
     lim_send_timeout = 1800,
     lim_inline_body_size = 64 * 1024,
     lim_max_concurrent_streams = 100,
     lim_max_connection_buffer_size = 64 * 1024 * 1024,
     lim_max_premature_resets = 1000,
     lim_max_encoder_table_size = 64 * 1024,
     lim_max_idle_frames = 1000,
     lim_output_high_water = 64 * 1024,
     lim_max_requests_per_connection = 10000,
     lim_qpack_block_timeout = 5,
     lim_max_peer_uni_streams = 32,
     lim_max_outstanding_sections = 512,
     lim_max_blocked_streams = 16,
     lim_tunnel_backlog = 32,
     lim_command_backlog = 256,
     lim_ws_linger_timeout = 10,
     lim_ws_max_fragments = 4096,
     lim_max_cookies = 3000,
     lim_max_cookies_per_domain = 50,
     lim_max_hsts_entries = 4096 \<rparr>"

subsection \<open>Coding a body and taking it off again\<close>

lemma utf8_names:
  "is_utf8 (ascii ''content-length'')" "is_utf8 (ascii ''content-encoding'')" "is_utf8 (ascii ''vary'')"
  "is_utf8 (ascii ''Accept-Encoding'')"
  "lowercase (ascii ''content-length'') = ascii ''content-length''"
  "lowercase (ascii ''content-encoding'') = ascii ''content-encoding''" "lowercase (ascii ''vary'') = ascii ''vary''"
  by code_simp+

lemma utf8_codings: "is_utf8 (compression_str c)"
proof -
  have "\<forall>c \<in> set [Auto, Zstd, Brotli, Gzip, Deflate]. is_utf8 (compression_str c)" by code_simp
  then show ?thesis by (cases c) simp_all
qed

lemma utf8_decimal: "is_utf8 (show_decimal n)"
proof -
  have "is_digit b \<longrightarrow> b < 0x80" for b by (rule octet_all) code_simp
  then have "is_ascii (show_decimal n)" using show_decimal_digits [of n] by (auto simp: is_ascii_def list_all_iff)
  then show ?thesis by (rule is_ascii_utf8)
qed

abbreviation LENGTH_NAME :: bytes where "LENGTH_NAME \<equiv> ascii ''content-length''"
abbreviation CODING_NAME :: bytes where "CODING_NAME \<equiv> ascii ''content-encoding''"

lemma names_differ: "LENGTH_NAME \<noteq> CODING_NAME" "ascii ''vary'' \<noteq> CODING_NAME" "ascii ''vary'' \<noteq> LENGTH_NAME"
  by code_simp+

definition values_of :: "(bytes \<times> bytes) list \<Rightarrow> bytes \<Rightarrow> bytes list" where
  "values_of fs name = map snd (filter (\<lambda>(k, v). k = name) fs)"

lemma get_all_values:
  "headers_ok h \<Longrightarrow> headers_get_all h (ascii ''content-length'') = values_of (content h) LENGTH_NAME"
  "headers_ok h \<Longrightarrow> headers_get_all h (ascii ''content-encoding'') = values_of (content h) CODING_NAME"
  "headers_ok h \<Longrightarrow> headers_contains h (ascii ''content-length'') \<longleftrightarrow> values_of (content h) LENGTH_NAME \<noteq> []"
  by (simp_all only: headers_get_all_spec headers_contains_spec utf8_names values_of_def)

lemma values_of_append: "values_of (fs @ gs) name = values_of fs name @ values_of gs name"
  by (simp add: values_of_def)

lemma values_of_other: "values_of (filter (\<lambda>(k, _). k \<noteq> n) fs) name = (if n = name then [] else values_of fs name)"
  by (induction fs) (auto simp: values_of_def)

lemma values_of_single: "values_of [(n, v)] name = (if n = name then [v] else [])"
  by (simp add: values_of_def)

lemma correct_length_spec:
  assumes "headers_ok h"
  shows "headers_ok (correct_length h n)"
    "values_of (content (correct_length h n)) LENGTH_NAME
      = (if values_of (content h) LENGTH_NAME = [] then [] else [show_decimal n])"
    "values_of (content (correct_length h n)) CODING_NAME = values_of (content h) CODING_NAME"
    "filter (\<lambda>(k, _). k \<noteq> LENGTH_NAME) (content (correct_length h n)) = filter (\<lambda>(k, _). k \<noteq> LENGTH_NAME) (content h)"
proof -
  have texts: "text_ok (text_from_str LENGTH_NAME)" "text_ok (text_from_string (show_decimal n))"
    by (simp_all only: text_from_str_of text_ok_of utf8_names utf8_decimal)
  note ins = headers_insert_ok [OF assms texts]
  show "headers_ok (correct_length h n)" using assms ins(1) by (simp add: correct_length_def)
  let ?h = "headers_insert h (text_from_str LENGTH_NAME) (text_from_string (show_decimal n))"
  have content: "content ?h = filter (\<lambda>(k, _). k \<noteq> LENGTH_NAME) (content h) @ [(LENGTH_NAME, show_decimal n)]"
    unfolding ins(2) by (simp only: text_from_str_of text_bytes_of utf8_names)
  have "values_of (content ?h) LENGTH_NAME = [show_decimal n]"
    unfolding content values_of_append values_of_other values_of_single by (simp only: if_True refl simp_thms append_Nil)
  moreover have "values_of (content ?h) CODING_NAME = values_of (content h) CODING_NAME"
    unfolding content values_of_append values_of_other values_of_single using names_differ(1)
    by (simp only: if_False append_Nil2)
  moreover have "filter (\<lambda>(k, _). k \<noteq> LENGTH_NAME) (content ?h) = filter (\<lambda>(k, _). k \<noteq> LENGTH_NAME) (content h)"
    unfolding content by (simp del: ascii_Cons)
  ultimately show "values_of (content (correct_length h n)) LENGTH_NAME
      = (if values_of (content h) LENGTH_NAME = [] then [] else [show_decimal n])"
    "values_of (content (correct_length h n)) CODING_NAME = values_of (content h) CODING_NAME"
    "filter (\<lambda>(k, _). k \<noteq> LENGTH_NAME) (content (correct_length h n)) = filter (\<lambda>(k, _). k \<noteq> LENGTH_NAME) (content h)"
    unfolding correct_length_def get_all_values(3) [OF assms]
    by (cases "values_of (content h) LENGTH_NAME = []"; simp only: simp_thms if_True if_False)+
qed

lemma append_coding:
  assumes "headers_ok h"
  shows "headers_ok (headers_append_lowercase h (text_from_str CODING_NAME) (text_from_str (compression_str c)))"
    "content (headers_append_lowercase h (text_from_str CODING_NAME) (text_from_str (compression_str c)))
      = content h @ [(CODING_NAME, compression_str c)]"
  unfolding headers_append_lowercase_def
  using headers_push_ok [OF assms, of "text_of CODING_NAME" "text_of (compression_str c)"]
  by (simp_all only: text_from_str_of text_ok_of text_bytes_of utf8_names utf8_codings simp_thms)

lemma remove_coding:
  assumes "headers_ok h"
  shows "headers_ok (fst (headers_remove h CODING_NAME))"
    "content (fst (headers_remove h CODING_NAME)) = filter (\<lambda>(k, _). k \<noteq> CODING_NAME) (content h)"
  using headers_remove_ok [OF assms, of CODING_NAME] by (simp_all only: utf8_names)

lemma compress_explicit:
  assumes "msg_compression m = Some c" "c \<noteq> Auto" "codable m" "\<not> message_compressed m"
    and "msg_headers m = Some h" "headers_ok h" "Option.bind (msg_body m) body_inline = Some octets" "octets \<noteq> []"
    and "lib_encode lib c octets = Some coded"
  shows "message_compress lib accepted m = Inr (m\<lparr> msg_body := Some (BData coded), msg_compression := Some c,
    msg_headers := Some (correct_length (headers_append_lowercase h (text_from_str CODING_NAME)
      (text_from_str (compression_str c))) (length coded)) \<rparr>)"
proof -
  obtain b where b: "msg_body m = Some b" "body_inline b = Some octets"
    using assms(7) by (cases "msg_body m") auto
  then have "\<not> body_is_empty b" using assms(8) by (cases b) (auto simp: body_is_empty_def)
  then show ?thesis using assms b by (simp add: message_compress_def compression_encode_def Let_def)
qed

subsection \<open>Properties\<close>

text \<open>C36: a message whose body was coded on its way out, in a coding that was chosen for it, says so, with
  its length corrected; and the end that takes the coding off has the message as it was, where the
  library's decompressor undoes its compressor and the body is within bounds: the body, every field in
  its place but a stated length, which is the body's, and all else, with the coding it came in noted.\<close>

theorem compress_undone:
  assumes "msg_compression m = Some c" "c \<noteq> Auto" "codable m"
    and "msg_headers m = Some h" "headers_ok h" "headers_get_all h (ascii ''content-encoding'') = []"
    and "Option.bind (msg_body m) body_inline = Some octets" "octets \<noteq> []" "length octets \<le> unat most"
    and "lib_encode lib c octets = Some coded" "lib_reader lib c coded = Some (octets, False)"
  shows "\<exists>m1 h1 h2. message_compress lib accepted m = Inr m1 \<and> message_compressed m1 \<and>
    m1 = m\<lparr> msg_body := Some (BData coded), msg_headers := Some h1 \<rparr> \<and>
    headers_get_all h1 (ascii ''content-encoding'') = [compression_str c] \<and>
    headers_get_all h1 (ascii ''content-length'') =
      (if headers_contains h (ascii ''content-length'') then [show_decimal (length coded)] else []) \<and>
    message_decompress lib most m1 = Inr (m\<lparr> msg_body := Some (BData octets), msg_headers := Some h2 \<rparr>) \<and>
    filter (\<lambda>(k, _). k \<noteq> ascii ''content-length'') (content h2) = filter (\<lambda>(k, _). k \<noteq> ascii ''content-length'') (content h) \<and>
    headers_get_all h2 (ascii ''content-length'') =
      (if headers_contains h (ascii ''content-length'') then [show_decimal (length octets)] else [])"
proof -
  have none: "values_of (content h) CODING_NAME = []" using assms(5,6) by (simp only: get_all_values)
  have plain: "\<not> message_compressed m"
    using assms(4,6) by (simp add: message_compressed_def compression_encoded_def del: ascii_Cons)
  let ?h0 = "headers_append_lowercase h (text_from_str CODING_NAME) (text_from_str (compression_str c))"
  let ?h1 = "correct_length ?h0 (length coded)"
  let ?m1 = "m\<lparr> msg_body := Some (BData coded), msg_headers := Some ?h1 \<rparr>"
  have kept: "m\<lparr> msg_compression := Some c \<rparr> = m" using assms(1) by (cases m) simp
  then have kept1: "m\<lparr> msg_body := b, msg_compression := Some c, msg_headers := x \<rparr> = m\<lparr> msg_body := b, msg_headers := x \<rparr>" for b x
    using assms(1) by (cases m) simp
  note h0 = append_coding [OF assms(5), of c]
  note h1 = correct_length_spec [OF h0(1), of "length coded"]
  have codings: "headers_get_all ?h1 CODING_NAME = [compression_str c]"
    using none by (simp only: get_all_values(2) [OF h1(1)] h1(3) h0(2) values_of_append) (simp add: values_of_def)
  let ?h2 = "fst (headers_remove ?h1 CODING_NAME)"
  let ?h3 = "correct_length ?h2 (length octets)"
  note h2 = remove_coding [OF h1(1)]
  note h3 = correct_length_spec [OF h2(1), of "length octets"]
  have compressed: "message_compressed ?m1"
    using codings compression_applied_str [OF assms(2)] by (simp add: message_compressed_def del: ascii_Cons)
  have "message_decompress lib most ?m1 = Inr (?m1\<lparr> msg_body := Some (BData octets), msg_compression := Some c, msg_headers := Some ?h3 \<rparr>)"
    using codings compression_applied_str [OF assms(2)] assms(2,9,11)
    by (simp add: message_decompress_def compression_decode_def compression_drain_def Let_def del: ascii_Cons)
  then have undone: "message_decompress lib most ?m1 = Inr (m\<lparr> msg_body := Some (BData octets), msg_headers := Some ?h3 \<rparr>)"
    using assms(1) by (cases m) (simp del: ascii_Cons)
  have stated: "headers_contains h LENGTH_NAME \<longleftrightarrow> values_of (content h) LENGTH_NAME \<noteq> []" by (rule get_all_values(3) [OF assms(5)])
  have l0: "values_of (content ?h0) LENGTH_NAME = values_of (content h) LENGTH_NAME"
    unfolding h0(2) values_of_append values_of_single using names_differ(1) by (simp del: ascii_Cons)
  have l1: "headers_get_all ?h1 LENGTH_NAME = (if headers_contains h LENGTH_NAME then [show_decimal (length coded)] else [])"
    unfolding get_all_values(1) [OF h1(1)] h1(2) l0 stated by (simp del: ascii_Cons)
  have l2: "values_of (content ?h2) LENGTH_NAME = values_of (content ?h1) LENGTH_NAME"
    unfolding h2(2) values_of_other using names_differ(1) by (simp del: ascii_Cons)
  have l3: "headers_get_all ?h3 LENGTH_NAME = (if headers_contains h LENGTH_NAME then [show_decimal (length octets)] else [])"
    unfolding get_all_values(1) [OF h3(1)] h3(2) l2 h1(2) l0 stated by (simp del: ascii_Cons)
  have absent: "filter (\<lambda>(k, _). k \<noteq> CODING_NAME) (content h) = content h"
    using none by (auto simp: values_of_def filter_empty_conv intro!: filter_True simp del: ascii_Cons)
  have swap: "filter P (filter Q xs) = filter Q (filter P xs)" for P Q and xs :: "(bytes \<times> bytes) list"
    by (simp add: conj_commute)
  have others: "filter (\<lambda>(k, _). k \<noteq> LENGTH_NAME) (content ?h3) = filter (\<lambda>(k, _). k \<noteq> LENGTH_NAME) (content h)"
  proof -
    have "filter (\<lambda>(k, _). k \<noteq> LENGTH_NAME) (content ?h3)
        = filter (\<lambda>(k, _). k \<noteq> CODING_NAME) (filter (\<lambda>(k, _). k \<noteq> LENGTH_NAME) (content ?h1))"
      unfolding h3(4) h2(2) by (rule swap)
    also have "\<dots> = filter (\<lambda>(k, _). k \<noteq> LENGTH_NAME) (filter (\<lambda>(k, _). k \<noteq> CODING_NAME) (content ?h0))"
      unfolding h1(4) by (rule swap)
    also have "filter (\<lambda>(k, _). k \<noteq> CODING_NAME) (content ?h0) = content h"
      unfolding h0(2) filter_append absent by (simp del: ascii_Cons)
    finally show ?thesis .
  qed
  have "message_compress lib accepted m = Inr ?m1"
    using compress_explicit [OF assms(1-3) plain assms(4,5,7,8,10)] unfolding kept1 .
  then show ?thesis using compressed codings l1 undone others l3
    by (intro exI [of _ ?m1] exI [of _ ?h1] exI [of _ ?h3] conjI) (simp_all only: refl)
qed

text \<open>A library whose coders mark what they coded with an octet in front.\<close>

definition marking_library :: codec_library where
  "marking_library = \<lparr> lib_encode = (\<lambda>_ octets. Some (0x5a # octets)), lib_reader = (\<lambda>_ coded. Some (tl coded, False)),
     lib_raw_deflate = (\<lambda>_. ([], True)) \<rparr>"

theorem compress_undone_witness:
  "\<exists>m1 m2. message_compress marking_library None
      ((message_request () POST (text_of (ascii ''/'')) V1_1 :: (unit, unit) message)\<lparr> msg_body := Some (BData [1, 2]), msg_compression := Some Gzip \<rparr>)
     = Inr m1 \<and> message_decompress marking_library 8 m1 = Inr m2 \<and> msg_body m2 = Some (BData [1, 2])"
proof -
  let ?m = "(message_request () POST (text_of (ascii ''/'')) V1_1 :: (unit, unit) message)\<lparr> msg_body := Some (BData [1, 2]), msg_compression := Some Gzip \<rparr>"
  have codable: "codable ?m"
    by (simp add: codable_def status_within_def message_request_def message_new_def headers_contains_spec [OF headers_new_ok(1)]
        headers_get_all_spec [OF headers_new_ok(1)] headers_new_ok(2) del: ascii_Cons)
  have none: "headers_get_all headers_new (ascii ''content-encoding'') = []"
    by (simp only: get_all_values(2) [OF headers_new_ok(1)] headers_new_ok(2)) (simp add: values_of_def)
  have parts: "msg_compression ?m = Some Gzip" "Gzip \<noteq> Auto" "msg_headers ?m = Some headers_new" "headers_ok headers_new"
    "Option.bind (msg_body ?m) body_inline = Some [1, 2]" "[1, 2 :: octet] \<noteq> []" "length [1, 2 :: octet] \<le> unat (8 :: u64)"
    "lib_encode marking_library Gzip [1, 2] = Some [0x5a, 1, 2]" "lib_reader marking_library Gzip [0x5a, 1, 2] = Some ([1, 2], False)"
    by (simp_all add: message_request_def message_new_def headers_new_ok marking_library_def)
  obtain m1 h2 where "message_compress marking_library None ?m = Inr m1"
    "message_decompress marking_library 8 m1 = Inr (?m\<lparr> msg_body := Some (BData [1, 2]), msg_headers := Some h2 \<rparr>)"
    using compress_undone [OF parts(1,2) codable parts(3,4) none parts(5-9), where accepted = None] by blast
  moreover have "msg_body (?m\<lparr> msg_body := Some (BData [1, 2]), msg_headers := Some h2 \<rparr>) = Some (BData [1, 2])" by simp
  ultimately show ?thesis by blast
qed

text \<open>Nothing is coded on a message that may not carry content, carries part of a representation, is
  coded already or has no body; such a message goes out as it is.\<close>

lemma compress_refrains:
  assumes "\<not> codable m \<or> message_compressed m \<or> msg_body m = None \<or> msg_body m = Some (BData []) \<or> msg_compression m = None"
  shows "message_compress lib accepted m = Inr (m\<lparr> msg_compression := None \<rparr>)"
  using assms by (auto simp: message_compress_def body_is_empty_def split: option.split)

lemma compress_refrains_witness:
  "message_compress marking_library (Some Gzip) ((message_response () 200 V1_1)\<lparr> msg_compression := Some Auto \<rparr>)
     = Inr (message_response () 200 V1_1)"
  using compress_refrains [of "(message_response () 200 V1_1)\<lparr> msg_compression := Some Auto \<rparr>" marking_library "Some Gzip"]
  by (simp add: message_response_def message_new_def)

text \<open>The coding that is to be taken off a message, and the octets it is taken off.\<close>

definition coded_body :: "('addr, 'sec) message \<Rightarrow> (compression \<times> bytes) option" where
  "coded_body m =
     Option.bind (msg_headers m) (\<lambda>h.
       Option.bind (compression_applied (headers_get_all h (ascii ''content-encoding''))) (\<lambda>c.
         map_option (Pair c) (Option.bind (msg_body m) body_inline)))"

lemma parse_not_auto: "compression_parse token \<noteq> Some Auto"
  by (auto simp: compression_parse_def Let_def split: list.split)

lemma applied_not_auto: "compression_applied values \<noteq> Some Auto"
proof -
  have "applied_from tokens found \<noteq> Some Auto" if "found \<noteq> Some Auto" for tokens found
    using that parse_not_auto by (induction tokens found rule: applied_from.induct) (auto split: option.split)
  then show ?thesis by (simp add: compression_applied_def)
qed

lemma decompress_coded:
  "message_decompress lib most m =
     (case coded_body m of
        None \<Rightarrow> Inr m
      | Some (c, octets) \<Rightarrow> res_bind (map_err error_of_compression (compression_decode lib c octets most)) (\<lambda>decoded.
          Inr (m\<lparr> msg_body := Some (BData decoded), msg_compression := Some c, msg_headers := Some (correct_length
            (fst (headers_remove (the (msg_headers m)) (ascii ''content-encoding''))) (length decoded)) \<rparr>)))"
  by (simp add: message_decompress_def coded_body_def Let_def del: ascii_Cons split: option.split)

lemma coded_not_auto: "coded_body m = Some (c, octets) \<Longrightarrow> c \<noteq> Auto"
  using applied_not_auto by (auto simp: coded_body_def Option.bind_eq_Some_conv simp del: ascii_Cons)

text \<open>C37: a message with no coding to take off, with one that is not understood or with no octets at hand to
  take it off, is handed on as it is. Off any other, what is taken is all that the decompressor yields, and no more than the ceiling, however
  small it arrived: where it yields more, the message is refused as past a limit, and where it fails,
  or there is none, as a violation of the protocol.\<close>

theorem decompress_bounded:
  "case coded_body m of
     None \<Rightarrow> message_decompress lib most m = Inr m
   | Some (c, octets) \<Rightarrow>
       (case message_decompress lib most m of
          Inr m' \<Rightarrow> (\<exists>decoded. msg_body m' = Some (BData decoded) \<and> length decoded \<le> unat most \<and>
            (lib_reader lib c octets = Some (decoded, False) \<or> c = Deflate \<and> lib_raw_deflate lib octets = (decoded, False)))
        | Inl e \<Rightarrow>
            (case lib_reader lib c octets of
               None \<Rightarrow> e = Protocol
             | Some (decoded, failed) \<Rightarrow>
                 if unat most < length decoded then e = Limit
                 else failed \<and> (e = Protocol \<or> c = Deflate \<and> e = Limit \<and> unat most < length (fst (lib_raw_deflate lib octets)))))"
proof (cases "coded_body m")
  case (Some p)
  obtain c octets where p: "p = (c, octets)" by fastforce
  have "c \<noteq> Auto" using coded_not_auto Some p by blast
  then show ?thesis unfolding decompress_coded Some p
    by (auto simp: compression_decode_def compression_drain_def not_less simp del: ascii_Cons
        split: option.splits sum.splits prod.splits compression_error.splits if_splits)
qed (simp add: decompress_coded)

text \<open>What yields more than the ceiling is refused, and not handed on.\<close>

theorem decompress_bounded_witness:
  "\<exists>m :: (unit, unit) message. coded_body m = Some (Gzip, [0x5a, 1, 2, 3]) \<and> message_decompress marking_library 2 m = Inl Limit"
proof -
  define h where "h = headers_append_lowercase headers_new (text_from_str CODING_NAME) (text_from_str (compression_str Gzip))"
  define m :: "(unit, unit) message" where "m = (message_new () V1_1)\<lparr> msg_body := Some (BData [0x5a, 1, 2, 3]), msg_headers := Some h \<rparr>"
  have "headers_get_all h CODING_NAME = [compression_str Gzip]"
    unfolding h_def get_all_values(2) [OF append_coding(1) [OF headers_new_ok(1)]] append_coding(2) [OF headers_new_ok(1)]
      headers_new_ok(2) by (simp add: values_of_def del: ascii_Cons)
  then have coded: "coded_body m = Some (Gzip, [0x5a, 1, 2, 3])"
    using compression_applied_str [of Gzip] by (simp add: coded_body_def m_def message_new_def del: ascii_Cons)
  moreover have "lib_reader marking_library Gzip [0x5a, 1, 2, 3] = Some ([1, 2, 3], False)" by (simp add: marking_library_def)
  ultimately have "message_decompress marking_library 2 m = Inl Limit"
    using decompress_bounded [where m = m and lib = marking_library and most = 2] by (auto split: sum.splits)
  then show ?thesis using coded by blast
qed

end
