(* ===== verification/H1_Body.thy ===== *)
theory H1_Body
  imports Messages Strings Decimal Machine Errors
begin

section \<open>Bodies of HTTP/1 messages (src/src/protocol/h1.rs)\<close>

text \<open>
  How the length of a body is determined and the chunked transfer coding, which are what two
  intermediaries must not read in two ways. A position in the input is a natural number, a size
  taken off the wire a machine integer, and a range its two ends.
\<close>

definition CRLF :: bytes where "CRLF = [0x0d, 0x0a]"

subsection \<open>Numbers\<close>

definition hex_digit :: "u64 \<Rightarrow> octet" where
  "hex_digit v = ascii ''0123456789abcdef'' ! unat (v AND 0xf)"

text \<open>The digits from the back; a word never has more than the sixteen there is room for.\<close>

lemma unat_nibble: "unat (drop_bit 4 v) = unat v div 16" "unat (v AND 0xf) = unat v mod 16" for v :: u64
proof -
  show "unat (drop_bit 4 v) = unat v div 16" by (simp only: unat_drop_bit_eq) (simp add: drop_bit_eq_div)
  have "v AND 0xf = take_bit 4 v" by (simp add: take_bit_eq_mask mask_eq_exp_minus_1)
  then show "unat (v AND 0xf) = unat v mod 16" by (simp only: unsigned_take_bit_eq) (simp add: take_bit_eq_mod)
qed

function hex_from :: "u64 \<Rightarrow> bytes \<Rightarrow> bytes" where
  "hex_from v digits =
     (let digits = hex_digit v # digits; v = drop_bit 4 v
      in if v = 0 then digits else hex_from v digits)"
  by pat_completeness auto
termination
proof (relation "measure (\<lambda>(v, _). unat v)")
  fix v v' :: u64 and digits digits' :: bytes
  assume "v' = drop_bit 4 v" "v' \<noteq> 0"
  then have "unat v' = unat v div 16" "unat v' \<noteq> 0" by (simp only: unat_nibble, simp only: unat_eq_zero not_False_eq_True)
  then show "((v', digits'), v, digits) \<in> measure (\<lambda>(v, _). unat v)" by simp
qed simp

declare hex_from.simps [simp del]

definition hexadecimal :: "u64 \<Rightarrow> bytes" where
  "hexadecimal v = hex_from v []"

definition checked_mul :: "'a::len word \<Rightarrow> 'a word \<Rightarrow> 'a word option" where
  "checked_mul a b = (if unat a * unat b < 2 ^ LENGTH('a) then Some (a * b) else None)"

subsection \<open>Chunks\<close>

definition chunk_write :: "bytes \<Rightarrow> bytes \<Rightarrow> bytes" where
  "chunk_write octets out = out @ hexadecimal (word_of_nat (length octets)) @ CRLF @ octets @ CRLF"

definition chunk_encode :: "bytes \<Rightarrow> bytes" where
  "chunk_encode octets = hexadecimal (word_of_nat (length octets)) @ CRLF @ octets @ CRLF"

definition hex_value :: "octet \<Rightarrow> octet option" where
  "hex_value digit =
     (if 0x30 \<le> digit \<and> digit \<le> 0x39 then Some (digit - 0x30)
      else if 0x61 \<le> digit \<and> digit \<le> 0x66 then Some (digit - 0x61 + 10)
      else if 0x41 \<le> digit \<and> digit \<le> 0x46 then Some (digit - 0x41 + 10)
      else None)"

fun size_from :: "u64 \<Rightarrow> bytes \<Rightarrow> error + u64" where
  "size_from acc [] = Inr acc"
| "size_from acc (digit # digits) =
     (case hex_value digit of
        None \<Rightarrow> Inl Protocol
      | Some v \<Rightarrow>
          (case Option.bind (checked_mul acc 16) (\<lambda>acc. checked_add acc (ucast v)) of
             None \<Rightarrow> Inl Protocol
           | Some acc \<Rightarrow> size_from acc digits))"

definition chunk_size :: "bytes \<Rightarrow> error + u64" where
  "chunk_size digits = (if digits = [] then Inl Protocol else size_from 0 digits)"

text \<open>Where the octets of the chunk start and how many there are.\<close>

definition parse_size :: "bytes \<Rightarrow> error + (nat \<times> u64) option" where
  "parse_size input =
     (case scan_find input 0x0a of
        None \<Rightarrow> Inr None
      | Some finish \<Rightarrow>
          if finish = 0 \<or> input ! (finish - 1) \<noteq> 0x0d then Inl Protocol
          else let line = take (finish - 1) input;
                   digits = (case scan_find line (of_char CHR '';'') of Some k \<Rightarrow> take k line | None \<Rightarrow> line)
            in res_bind (chunk_size digits) (\<lambda>n. Inr (Some (finish + 1, n))))"

text \<open>How many octets the chunk takes, none where it has not arrived, and the range of its data.\<close>

definition chunk_decode :: "bytes \<Rightarrow> error + nat \<times> (nat \<times> nat)" where
  "chunk_decode input =
     res_bind (parse_size input) (\<lambda>found. case found of
        None \<Rightarrow> Inr (0, (0, 0))
      | Some (start, n) \<Rightarrow>
          if n = 0 then Inr (start, (0, 0))
          else if USIZE_MAX < start + unat n then Inl Protocol
          else let finish = start + unat n
            in if USIZE_MAX < finish + 2 then Inl Protocol
               else if length input < finish + 2 then Inr (0, (0, 0))
               else if take 2 (drop finish input) \<noteq> CRLF then Inl Protocol
               else Inr (finish + 2, (start, finish)))"

subsection \<open>The length of a body\<close>

datatype body_length = NoBody | Chunked | Fixed u64 | UntilClose

definition CHUNKED :: bytes where "CHUNKED = ascii ''chunked''"

definition content_length :: "bytes \<Rightarrow> error + u64" where
  "content_length v =
     (if v = [] \<or> \<not> list_all is_digit v then Inl Protocol
      else map_err (\<lambda>_. Protocol) (ok_or () (map_option word_of_nat (parse_unsigned (2 ^ 64 - 1) v))))"

text \<open>The members of every value of a field that is a list.\<close>

definition members :: "headers \<Rightarrow> bytes \<Rightarrow> bytes list" where
  "members h name = concat (map (split_at (of_char CHR '','')) (headers_get_all h name))"

fun lengths_agree :: "u64 \<Rightarrow> bytes list \<Rightarrow> error + unit" where
  "lengths_agree n [] = Inr ()"
| "lengths_agree n (v # vs) =
     res_bind (content_length v) (\<lambda>m. if m \<noteq> n then Inl Protocol else lengths_agree n vs)"

definition measured_length :: "headers \<Rightarrow> error + body_length" where
  "measured_length h =
     (let values = map trim (members h (ascii ''content-length''));
          first = (case values of [] \<Rightarrow> [] | v # _ \<Rightarrow> v)
      in res_bind (content_length first) (\<lambda>n. res_bind (lengths_agree n (tl values)) (\<lambda>_. Inr (Fixed n))))"

definition coded_length :: "('addr, 'sec) message \<Rightarrow> headers \<Rightarrow> error + body_length" where
  "coded_length m h =
     (let applied = length (filter (\<lambda>coding. eq_ignore_case (trim coding) CHUNKED) (members h (ascii ''transfer-encoding'')));
          values = headers_get_all h (ascii ''transfer-encoding'');
          final = trim (after_last (of_char CHR '','') (if values = [] then [] else last values))
      in if 1 < applied then Inl Protocol
         else if \<not> eq_ignore_case final CHUNKED then
           if is_request m \<or> 0 < applied then Inl Protocol else Inr UntilClose
         else Inr Chunked)"

definition body_length_of :: "('addr, 'sec) message \<Rightarrow> http_method option \<Rightarrow> error + body_length" where
  "body_length_of m method =
     (if msg_status m \<noteq> None \<and> (bodyless m method \<or> method = Some CONNECT \<and> status_within 200 299 m) then Inr NoBody
      else case msg_headers m of
          None \<Rightarrow> Inr (if is_request m then NoBody else UntilClose)
        | Some h \<Rightarrow>
            (let encoded = headers_contains h (ascii ''transfer-encoding''); measured = headers_contains h (ascii ''content-length'')
             in if encoded \<and> measured then Inl Protocol
                else if encoded then coded_length m h
                else if measured then measured_length h
                else Inr (if is_request m then NoBody else UntilClose)))"

subsection \<open>Hexadecimal\<close>

text \<open>The hexadecimal digits, and the number each stands for: its place among them, in either case.\<close>

definition is_hex :: "octet \<Rightarrow> bool" where
  "is_hex d \<longleftrightarrow> d \<in> set (ascii ''0123456789abcdefABCDEF'')"

definition digit_of :: "octet \<Rightarrow> nat" where
  "digit_of d =
     (case position (\<lambda>c. c = d) (ascii ''0123456789abcdef'') of
        Some k \<Rightarrow> k
      | None \<Rightarrow> (case position (\<lambda>c. c = d) (ascii ''0123456789ABCDEF'') of Some k \<Rightarrow> k | None \<Rightarrow> 0))"

lemma hex_value_spec: "case hex_value d of None \<Rightarrow> \<not> is_hex d | Some v \<Rightarrow> is_hex d \<and> unat v = digit_of d"
proof -
  let ?list = "[0x30, 0x31, 0x32, 0x33, 0x34, 0x35, 0x36, 0x37, 0x38, 0x39, 0x61, 0x62, 0x63, 0x64, 0x65, 0x66,
    0x41, 0x42, 0x43, 0x44, 0x45, 0x46] :: bytes"
  have list: "ascii ''0123456789abcdefABCDEF'' = ?list" by code_simp
  have lower: "ascii ''0123456789abcdef'' = [0x30, 0x31, 0x32, 0x33, 0x34, 0x35, 0x36, 0x37, 0x38, 0x39, 0x61, 0x62, 0x63, 0x64, 0x65, 0x66]"
    and upper: "ascii ''0123456789ABCDEF'' = [0x30, 0x31, 0x32, 0x33, 0x34, 0x35, 0x36, 0x37, 0x38, 0x39, 0x41, 0x42, 0x43, 0x44, 0x45, 0x46]"
    by code_simp+
  have all: "list_all (\<lambda>d. map_option unat (hex_value d) = Some (digit_of d)) ?list"
    unfolding digit_of_def lower upper by (simp add: hex_value_def)
  have inside: "map_option unat (hex_value d) = Some (digit_of d)" if "is_hex d"
    by (rule bspec [OF all [unfolded list_all_iff] that [unfolded is_hex_def list]])
  have "d \<in> set ?list" if "hex_value d \<noteq> None"
  proof -
    have "48 \<le> unat d \<and> unat d < 58 \<or> 97 \<le> unat d \<and> unat d < 103 \<or> 65 \<le> unat d \<and> unat d < 71"
      using that by (simp add: hex_value_def word_le_nat_alt split: if_splits)
    then have "unat d \<in> set [48..<58] \<union> set [97..<103] \<union> set [65..<71]" by (simp only: set_upt Un_iff atLeastLessThan_iff disj_assoc)
    moreover have "set [48..<58] \<union> set [97..<103] \<union> set [65..<71] \<subseteq> unat ` set ?list" by (simp add: upt_conv_Cons)
    ultimately have "unat d \<in> unat ` set ?list" by blast
    then obtain x where x: "unat d = unat x" "x \<in> set ?list" by (rule imageE)
    then have "d = x" by (simp only: word_unat_eq_iff)
    then show ?thesis using x(2) by (simp only:)
  qed
  then have "is_hex d" if "hex_value d \<noteq> None" using that unfolding is_hex_def list by blast
  then show ?thesis using inside by (cases "hex_value d") auto
qed

text \<open>What a run of hexadecimal digits denotes.\<close>

definition hex_number :: "nat \<Rightarrow> bytes \<Rightarrow> nat" where
  "hex_number acc digits = fold (\<lambda>d acc. 16 * acc + digit_of d) digits acc"

lemma hex_number_simps [simp]:
  "hex_number acc [] = acc" "hex_number acc (d # ds) = hex_number (16 * acc + digit_of d) ds"
  by (simp_all add: hex_number_def)

lemma hex_number_grows: "acc \<le> hex_number acc ds"
proof (induction ds arbitrary: acc)
  case (Cons d ds)
  have "acc \<le> 16 * acc + digit_of d" by simp
  also have "\<dots> \<le> hex_number (16 * acc + digit_of d) ds" by (rule Cons)
  finally show ?case by simp
qed simp

lemma hex_number_append [simp]: "hex_number acc (xs @ ys) = hex_number (hex_number acc xs) ys"
  by (simp add: hex_number_def)

lemma size_from_spec:
  "size_from acc ds = (if list_all is_hex ds \<and> hex_number (unat acc) ds < 2 ^ 64
     then Inr (word_of_nat (hex_number (unat acc) ds)) else Inl Protocol)"
proof (induction ds arbitrary: acc)
  case (Cons d ds)
  show ?case
  proof (cases "hex_value d")
    case (Some v)
    let ?k = "16 * unat acc + unat v"
    have digit: "is_hex d" "digit_of d = unat v" using Some hex_value_spec [of d] by simp_all
    have v: "unat (ucast v :: u64) = unat v" by (rule unat_octet)
    show ?thesis
    proof (cases "?k < 2 ^ 64")
      case True
      then have mul: "checked_mul acc 16 = Some (acc * 16)" "unat (acc * 16) = unat acc * 16"
        by (simp_all add: checked_mul_def unat_word_ariths)
      have add: "checked_add (acc * 16) (ucast v) = Some (acc * 16 + ucast v)" using True by (simp add: checked_add_unat mul v)
      have "unat (acc * 16 + ucast v) = ?k" using True by (simp add: unat_word_ariths(1) mul v)
      then show ?thesis using Some mul(1) add digit Cons [of "acc * 16 + ucast v"] by simp
    next
      case False
      have "Option.bind (checked_mul acc 16) (\<lambda>acc. checked_add acc (ucast v)) = None"
      proof (cases "unat acc * 16 < 2 ^ 64")
        case True
        then have "unat (acc * 16) = unat acc * 16" by (simp add: unat_word_ariths)
        then show ?thesis using False True by (simp add: checked_mul_def checked_add_unat v)
      qed (simp add: checked_mul_def)
      moreover have "\<not> hex_number ?k ds < 2 ^ 64" using False hex_number_grows [of ?k ds] by linarith
      ultimately show ?thesis using Some digit by simp
    qed
  next
    case None
    then show ?thesis using hex_value_spec [of d] by simp
  qed
next
  case Nil
  have "unat acc < 2 ^ 64" using unsigned_less [of acc, where 'a = nat] by simp
  then show ?case by simp
qed

lemma hex_digit_spec:
  "is_hex (hex_digit v)" "digit_of (hex_digit v) = unat v mod 16" "hex_digit v \<notin> {0x0a, 0x0d, of_char CHR '';''}"
proof -
  have "\<forall>k \<in> set [0..<16]. is_hex (ascii ''0123456789abcdef'' ! k) \<and> digit_of (ascii ''0123456789abcdef'' ! k) = k \<and>
      ascii ''0123456789abcdef'' ! k \<notin> {0x0a, 0x0d, of_char CHR '';''}" by code_simp
  moreover have "unat v mod 16 \<in> set [0..<16]" by simp
  ultimately show "is_hex (hex_digit v)" "digit_of (hex_digit v) = unat v mod 16" "hex_digit v \<notin> {0x0a, 0x0d, of_char CHR '';''}"
    unfolding hex_digit_def unat_nibble by blast+
qed

lemma hex_from_spec:
  "\<exists>ds. hex_from v digits = ds @ digits \<and> ds \<noteq> [] \<and> list_all is_hex ds \<and> hex_number 0 ds = unat v \<and>
     list_all (\<lambda>d. d \<notin> {0x0a, 0x0d, of_char CHR '';''}) ds"
proof (induction v digits rule: hex_from.induct)
  case (1 v digits)
  note shift = unat_nibble(1) [of v]
  show ?case
  proof (cases "drop_bit 4 v = 0")
    case True
    then have "unat v < 16" using shift by (simp add: div_eq_0_iff)
    then show ?thesis using True hex_digit_spec [of v] by (subst hex_from.simps) (intro exI [of _ "[hex_digit v]"], simp)
  next
    case False
    obtain ds where ds: "hex_from (drop_bit 4 v) (hex_digit v # digits) = ds @ hex_digit v # digits" "ds \<noteq> []" "list_all is_hex ds"
      "hex_number 0 ds = unat (drop_bit 4 v)" "list_all (\<lambda>d. d \<notin> {0x0a, 0x0d, of_char CHR '';''}) ds"
      using 1 [OF refl refl False] by blast
    then have "hex_from v digits = (ds @ [hex_digit v]) @ digits" using False by (subst hex_from.simps) simp
    moreover have "hex_number 0 (ds @ [hex_digit v]) = unat v" using ds(4) shift hex_digit_spec(2) [of v] by simp
    ultimately show ?thesis using ds(3,5) hex_digit_spec(1,3) [of v] by (intro exI [of _ "ds @ [hex_digit v]"]) simp
  qed
qed

lemma hex_from_length: "unat v < 16 ^ k \<Longrightarrow> 0 < k \<Longrightarrow> length (hex_from v digits) \<le> length digits + k"
proof (induction k arbitrary: v digits)
  case (Suc k)
  show ?case
  proof (cases "drop_bit 4 v = 0")
    case False
    have small: "unat (drop_bit 4 v) < 16 ^ k" using Suc.prems(1) unat_nibble(1) [of v] by (simp add: less_mult_imp_div_less mult.commute)
    then have "0 < k" using False by (cases k) (simp_all add: unat_eq_zero)
    then show ?thesis using False Suc.IH [OF small, of "hex_digit v # digits"] by (subst hex_from.simps) simp
  qed (subst hex_from.simps, simp)
qed simp

lemma hexadecimal_short: "length (hexadecimal v) \<le> 16"
proof -
  have "unat v < 16 ^ 16" using unsigned_less [of v, where 'a = nat] by simp
  from hex_from_length [OF this, of "[]"] show ?thesis by (simp add: hexadecimal_def)
qed

lemma hexadecimal_spec:
  "hexadecimal v \<noteq> []" "chunk_size (hexadecimal v) = Inr v" "list_all (\<lambda>d. d \<notin> {0x0a, 0x0d, of_char CHR '';''}) (hexadecimal v)"
proof -
  obtain ds where ds: "hexadecimal v = ds" "ds \<noteq> []" "list_all is_hex ds" "hex_number 0 ds = unat v"
    "list_all (\<lambda>d. d \<notin> {0x0a, 0x0d, of_char CHR '';''}) ds"
    using hex_from_spec [of v "[]"] by (auto simp: hexadecimal_def)
  have "unat v < 2 ^ 64" using unsigned_less [of v, where 'a = nat] by simp
  then show "hexadecimal v \<noteq> []" "chunk_size (hexadecimal v) = Inr v" "list_all (\<lambda>d. d \<notin> {0x0a, 0x0d, of_char CHR '';''}) (hexadecimal v)"
    unfolding ds(1) using ds by (simp_all add: chunk_size_def size_from_spec)
qed

subsection \<open>Chunks read back\<close>

lemma position_past: "list_all (\<lambda>x. \<not> P x) xs \<Longrightarrow> position P (xs @ ys) = map_option (\<lambda>i. length xs + i) (position P ys)"
  by (cases "position P ys"; induction xs; simp)

lemma parse_size_line:
  "parse_size (hexadecimal v @ CRLF @ rest) = Inr (Some (length (hexadecimal v) + 2, v))"
proof -
  let ?ds = "hexadecimal v"
  note ds = hexadecimal_spec [of v]
  have "scan_find (?ds @ CRLF @ rest) 0x0a = Some (length ?ds + 1)" "scan_find ?ds (of_char CHR '';'') = None"
    using ds(3) position_past [of "\<lambda>x. x = 0x0a" ?ds "CRLF @ rest"] by (auto simp: scan_find_spec CRLF_def list_all_iff position_None_iff)
  moreover have "(?ds @ CRLF @ rest) ! length ?ds = 0x0d" by (simp add: CRLF_def)
  ultimately show ?thesis using ds(2) by (simp add: parse_size_def)
qed

lemma parse_size_cut:
  assumes "n < length (hexadecimal v) + 2"
  shows "parse_size (take n (hexadecimal v @ CRLF @ rest)) = Inr None"
proof -
  have "set (take n (hexadecimal v @ CRLF @ rest)) \<subseteq> set (hexadecimal v @ [0x0d])"
  proof -
    have "take n (hexadecimal v @ CRLF @ rest) = take n (hexadecimal v @ [0x0d])"
      using assms by (cases "n - length (hexadecimal v)") (auto simp: CRLF_def)
    then show ?thesis by (metis set_take_subset)
  qed
  then have "0x0a \<notin> set (take n (hexadecimal v @ CRLF @ rest))" using hexadecimal_spec(3) [of v] by (auto simp: list_all_iff)
  then have "scan_find (take n (hexadecimal v @ CRLF @ rest)) 0x0a = None" by (auto simp: scan_find_spec position_None_iff)
  then show ?thesis by (simp add: parse_size_def)
qed

lemma chunk_decode_Some:
  "parse_size input = Inr (Some (start, n)) \<Longrightarrow> n \<noteq> 0 \<Longrightarrow> start + unat n + 2 \<le> USIZE_MAX \<Longrightarrow>
   chunk_decode input =
     (if length input < start + unat n + 2 then Inr (0, (0, 0))
      else if take 2 (drop (start + unat n) input) \<noteq> CRLF then Inl Protocol
      else Inr (start + unat n + 2, (start, start + unat n)))"
  by (simp add: chunk_decode_def Let_def)

text \<open>A \<open>Content-Length\<close> is a run of digits and what they denote.\<close>

lemma content_length_Inr:
  "content_length v = Inr n \<longleftrightarrow> v \<noteq> [] \<and> list_all is_digit v \<and> digits_value v < 2 ^ 64 \<and> n = word_of_nat (digits_value v)"
proof (cases "v \<noteq> [] \<and> list_all is_digit v")
  case True
  then obtain c cs where v: "v = c # cs" "is_digit c" by (cases v) simp_all
  then have "c \<noteq> of_char CHR ''+''" by (auto simp: is_digit_def)
  then have "parse_unsigned (2 ^ 64 - 1) v = (if digits_value v < 2 ^ 64 then Some (digits_value v) else None)"
    using True v by (auto simp: parse_unsigned_def)
  then show ?thesis using True by (auto simp: content_length_def)
qed (auto simp: content_length_def)

lemma lengths_agree_all: "lengths_agree n vs = Inr () \<Longrightarrow> \<forall>v \<in> set vs. content_length v = Inr n"
  by (induction vs) (auto simp: res_bind_Inr_iff split: if_splits)

subsection \<open>Properties\<close>

text \<open>C29: a chunk size is read exactly where it is hexadecimal digits and nothing else and the number they
  denote can be addressed, and it is that number; everything else is refused.\<close>

theorem chunk_size_exact:
  "chunk_size digits =
     (if digits \<noteq> [] \<and> list_all is_hex digits \<and> hex_number 0 digits < 2 ^ 64
      then Inr (word_of_nat (hex_number 0 digits)) else Inl Protocol)"
  by (simp add: chunk_size_def size_from_spec)

text \<open>C28: a chunk is read back as the data it was written from, whatever follows it, and left alone while any
  of it is missing.\<close>

theorem chunk_roundtrip:
  assumes "octets \<noteq> []" "length octets < 2 ^ 63"
  shows "(\<exists>start. chunk_decode (chunk_encode octets @ rest) =
        Inr (length (chunk_encode octets), (start, start + length octets)) \<and>
      take (length octets) (drop start (chunk_encode octets @ rest)) = octets) \<and>
    (\<forall>n < length (chunk_encode octets). chunk_decode (take n (chunk_encode octets)) = Inr (0, (0, 0))) \<and>
    chunk_write octets out = out @ chunk_encode octets"
proof (intro conjI allI impI exI)
  let ?v = "word_of_nat (length octets) :: u64"
  let ?ds = "hexadecimal ?v"
  let ?start = "length ?ds + 2"
  have v: "unat ?v = length octets" using assms(2) by (simp add: unat_of_nat)
  then have nz: "?v \<noteq> 0" using assms(1) by (metis length_0_conv unat_0)
  have short: "length ?ds \<le> 20"
  proof -
    obtain ds where "hexadecimal ?v = ds" by simp
    then show ?thesis using hexadecimal_short [of ?v] by simp
  qed
  have fits: "?start + unat ?v + 2 \<le> USIZE_MAX" using short assms(2) v by (simp add: USIZE_MAX_def)
  have size: "parse_size (?ds @ CRLF @ more) = Inr (Some (?start, ?v))" for more by (rule parse_size_line)
  show "chunk_decode (chunk_encode octets @ rest) = Inr (length (chunk_encode octets), (?start, ?start + length octets))"
    using chunk_decode_Some [OF size [of "octets @ CRLF @ rest"] nz fits] v by (simp add: chunk_encode_def CRLF_def)
  show "take (length octets) (drop ?start (chunk_encode octets @ rest)) = octets" by (simp add: chunk_encode_def CRLF_def)
  show "chunk_write octets out = out @ chunk_encode octets" by (simp add: chunk_write_def chunk_encode_def)
  fix n assume n: "n < length (chunk_encode octets)"
  show "chunk_decode (take n (chunk_encode octets)) = Inr (0, (0, 0))"
  proof (cases "n < ?start")
    case True
    then show ?thesis using parse_size_cut [OF True, of "octets @ CRLF"] by (simp add: chunk_decode_def chunk_encode_def)
  next
    case False
    obtain part where part: "part = take (n - ?start) (octets @ CRLF)" by simp
    then have whole: "take n (chunk_encode octets) = ?ds @ CRLF @ part" using False by (simp add: chunk_encode_def CRLF_def take_Cons' numeral_2_eq_2)
    have "length part < length octets + 2" using n False part by (simp add: chunk_encode_def CRLF_def)
    then show ?thesis unfolding whole using chunk_decode_Some [OF size [of part] nz fits] v by (simp add: CRLF_def)
  qed
qed

theorem chunk_roundtrip_witness: "chunk_decode (take 4 (chunk_encode [1, 2, 3])) = Inr (0, (0, 0))"
proof -
  have "4 < length (chunk_encode [1, 2, 3])" by (simp add: chunk_encode_def CRLF_def hexadecimal_spec(1))
  then show ?thesis using chunk_roundtrip [of "[1, 2, 3]"] by simp
qed

text \<open>A response that has no body whatever its fields say.\<close>

definition without_body :: "('addr, 'sec) message \<Rightarrow> http_method option \<Rightarrow> bool" where
  "without_body m method \<longleftrightarrow>
     msg_status m \<noteq> None \<and> (bodyless m method \<or> method = Some CONNECT \<and> status_within 200 299 m)"

text \<open>C27: no message has two lengths. Save for a response that has no body whatever its fields say, where
  both ways of stating one are there the message is refused, and it has no body only where it is a
  request that states neither. A body is measured only where every length the fields state is the same
  number, it is chunked only where that coding is named once and last, a request never runs until its
  connection closes, and what is refused is a violation of the protocol.\<close>

theorem body_length_unambiguous:
  "(\<not> without_body m method \<and> msg_headers m = Some h \<and>
      headers_contains h (ascii ''transfer-encoding'') \<and> headers_contains h (ascii ''content-length'') \<longrightarrow>
      body_length_of m method = Inl Protocol) \<and>
   (case body_length_of m method of
        Inl e \<Rightarrow> e = Protocol
      | Inr NoBody \<Rightarrow> without_body m method \<or> is_request m \<and> (case msg_headers m of None \<Rightarrow> True
          | Some h \<Rightarrow> \<not> headers_contains h (ascii ''transfer-encoding'') \<and> \<not> headers_contains h (ascii ''content-length''))
      | Inr (Fixed n) \<Rightarrow> (\<exists>h. msg_headers m = Some h \<and> \<not> headers_contains h (ascii ''transfer-encoding'') \<and>
          (\<forall>v \<in> set (map trim (members h (ascii ''content-length''))).
             v \<noteq> [] \<and> list_all is_digit v \<and> digits_value v < 2 ^ 64 \<and> n = word_of_nat (digits_value v)))
      | Inr Chunked \<Rightarrow> (\<exists>h. msg_headers m = Some h \<and> \<not> headers_contains h (ascii ''content-length'') \<and>
          length (filter (\<lambda>coding. eq_ignore_case (trim coding) CHUNKED) (members h (ascii ''transfer-encoding''))) \<le> 1 \<and>
          headers_get_all h (ascii ''transfer-encoding'') \<noteq> [] \<and>
          eq_ignore_case (trim (after_last (of_char CHR '','') (last (headers_get_all h (ascii ''transfer-encoding''))))) CHUNKED)
      | Inr UntilClose \<Rightarrow> \<not> is_request m)" (is "?both \<and> ?one")
proof -
  have fixed: "\<forall>v \<in> set (map trim (members h (ascii ''content-length''))). content_length v = Inr n"
    if "measured_length h = Inr (Fixed n)" for h n
  proof -
    obtain v vs where "map trim (members h (ascii ''content-length'')) = v # vs \<or> map trim (members h (ascii ''content-length'')) = []"
      by (cases "map trim (members h (ascii ''content-length''))") auto
    then show "\<forall>v \<in> set (map trim (members h (ascii ''content-length''))). content_length v = Inr n"
      using that lengths_agree_all by (auto simp: measured_length_def res_bind_Inr_iff Let_def)
  qed
  have refused: "e = Protocol" if "content_length v = Inl e" for v e
    using that by (auto simp: content_length_def ok_or_def split: if_splits option.splits)
  have agreed: "e = Protocol" if "lengths_agree n vs = Inl e" for n vs e
    using that refused by (induction vs) (auto simp: res_bind_Inl_iff split: if_splits)
  have measured: "case measured_length h of Inl e \<Rightarrow> e = Protocol | Inr len \<Rightarrow> \<exists>n. len = Fixed n" for h
    using refused agreed by (auto simp: measured_length_def res_bind_Inr_iff res_bind_Inl_iff Let_def split: sum.split)
  have empty: "\<not> eq_ignore_case (trim (after_last (of_char CHR '','') [])) CHUNKED" by code_simp
  have coded: "case coded_length m h of Inl e \<Rightarrow> e = Protocol | Inr len \<Rightarrow>
      len = Chunked \<and> length (filter (\<lambda>coding. eq_ignore_case (trim coding) CHUNKED) (members h (ascii ''transfer-encoding''))) \<le> 1 \<and>
        headers_get_all h (ascii ''transfer-encoding'') \<noteq> [] \<and>
        eq_ignore_case (trim (after_last (of_char CHR '','') (last (headers_get_all h (ascii ''transfer-encoding''))))) CHUNKED
      \<or> len = UntilClose \<and> \<not> is_request m" for h
    using empty by (auto simp: coded_length_def Let_def simp del: ascii_Cons split: if_splits)
  have here: "body_length_of m method = Inr NoBody" if "without_body m method"
    using that by (simp add: body_length_of_def without_body_def)
  have ?one
  proof (cases "without_body m method \<or> msg_headers m = None")
    case True
    then show ?thesis using here by (auto simp: body_length_of_def without_body_def)
  next
    case False
    then obtain h where h: "msg_headers m = Some h" "\<not> without_body m method" by auto
    let ?encoded = "headers_contains h (ascii ''transfer-encoding'')" and ?measured = "headers_contains h (ascii ''content-length'')"
    have split: "body_length_of m method = (if ?encoded \<and> ?measured then Inl Protocol else if ?encoded then coded_length m h
        else if ?measured then measured_length h else Inr (if is_request m then NoBody else UntilClose))"
      using h(2) unfolding body_length_of_def without_body_def h(1) option.case Let_def by (simp only: if_False refl)
    consider "?encoded" "?measured" "body_length_of m method = Inl Protocol"
      | "?encoded" "\<not> ?measured" "body_length_of m method = coded_length m h"
      | "\<not> ?encoded" "?measured" "body_length_of m method = measured_length h"
      | "\<not> ?encoded" "\<not> ?measured" "body_length_of m method = Inr (if is_request m then NoBody else UntilClose)"
      unfolding split by (cases ?encoded; cases ?measured; simp del: ascii_Cons)
    then show ?thesis
    proof cases
      case 1
      then show ?thesis by simp
    next
      case 2
      then show ?thesis using coded [of h] h by (auto simp del: ascii_Cons split: sum.splits)
    next
      case 3
      then show ?thesis using measured [of h] fixed [of h] h content_length_Inr by (auto simp del: ascii_Cons split: sum.splits)
    next
      case 4
      then show ?thesis using h by (auto simp del: ascii_Cons)
    qed
  qed
  moreover have ?both by (simp add: body_length_of_def without_body_def Let_def del: ascii_Cons)
  ultimately show ?thesis by blast
qed

text \<open>A request that states its length in both ways.\<close>

definition two_lengths :: headers where
  "two_lengths = headers_append (headers_append headers_new (text_from_str (ascii ''transfer-encoding'')) (text_from_str (ascii ''chunked'')))
     (text_from_str (ascii ''content-length'')) (text_from_str (ascii ''3''))"

theorem body_length_unambiguous_witness:
  "body_length_of ((message_request () POST (text_of (ascii ''/'')) V1_1 :: (unit, unit) message)\<lparr> msg_headers := Some two_lengths \<rparr>) None
     = Inl Protocol"
proof -
  let ?m = "(message_request () POST (text_of (ascii ''/'')) V1_1 :: (unit, unit) message)\<lparr> msg_headers := Some two_lengths \<rparr>"
  have "headers_contains two_lengths (ascii ''transfer-encoding'')" "headers_contains two_lengths (ascii ''content-length'')"
    by code_simp+
  moreover have "\<not> without_body ?m None" by (simp add: without_body_def message_request_def message_new_def)
  ultimately show ?thesis using body_length_unambiguous [of ?m None two_lengths] by (simp del: ascii_Cons)
qed

end
