(* ===== verification/Hsts.thy ===== *)
theory Hsts
  imports Decimal Text_Type Strings
begin

section \<open>HTTP Strict Transport Security (src/src/hsts.rs)\<close>

text \<open>
  The field a server writes and a client reads, and the client's memory of which hosts insist on
  TLS. The store is locked for the whole of each operation, so an operation is one step. An \<open>i64\<close> is
  an integer and an instant a number of nanoseconds, the last one the platform can hold being an
  argument. The order in which a hash map is walked is not documented, so which of several entries
  that expire together is dropped is an argument too. Whether a name is an IP address is the
  standard library's parser, spelt out below.
\<close>

subsection \<open>IP addresses\<close>

definition is_dec_octet :: "bytes \<Rightarrow> bool" where
  "is_dec_octet s \<longleftrightarrow> s \<noteq> [] \<and> length s \<le> 3 \<and> list_all is_digit s \<and> digits_value s \<le> 255 \<and> (hd s = 0x30 \<longrightarrow> length s = 1)"

definition is_ipv4 :: "bytes \<Rightarrow> bool" where
  "is_ipv4 s \<longleftrightarrow> (let parts = split_at 0x2e s in length parts = 4 \<and> list_all is_dec_octet parts)"

definition is_hex_group :: "bytes \<Rightarrow> bool" where
  "is_hex_group s \<longleftrightarrow> s \<noteq> [] \<and> length s \<le> 4 \<and>
     list_all (\<lambda>b. 0x30 \<le> b \<and> b \<le> 0x39 \<or> 0x41 \<le> b \<and> b \<le> 0x46 \<or> 0x61 \<le> b \<and> b \<le> 0x66) s"

text \<open>How many of the eight groups a run of them fills; an IPv4 address may end it and fills two.\<close>

definition ipv6_groups :: "bool \<Rightarrow> bytes \<Rightarrow> nat option" where
  "ipv6_groups dotted s =
     (if s = [] then Some 0
      else let parts = split_at 0x3a s
        in if list_all is_hex_group parts then Some (length parts)
           else if dotted \<and> list_all is_hex_group (butlast parts) \<and> is_ipv4 (last parts) then Some (length parts + 1)
           else None)"

definition is_ipv6 :: "bytes \<Rightarrow> bool" where
  "is_ipv6 s \<longleftrightarrow>
     (case split_string (ascii ''::'') s of
        None \<Rightarrow> ipv6_groups True s = Some 8
      | Some (front, back) \<Rightarrow>
          (case (ipv6_groups False front, ipv6_groups True back) of (Some i, Some j) \<Rightarrow> i + j \<le> 7 | _ \<Rightarrow> False))"

definition is_ip_addr :: "bytes \<Rightarrow> bool" where
  "is_ip_addr s \<longleftrightarrow> is_ipv4 s \<or> is_ipv6 s"

subsection \<open>The field\<close>

record hsts_policy =
  max_age :: int
  include_subdomains :: bool
  preload :: bool

definition I64_MAX :: int where "I64_MAX = 0x7fffffffffffffff"

definition hsts_new :: "int \<Rightarrow> hsts_policy" where
  "hsts_new age = \<lparr> max_age = age, include_subdomains = False, preload = False \<rparr>"

definition hsts_append :: "bytes \<times> nat \<Rightarrow> bytes \<Rightarrow> bytes \<times> nat" where
  "hsts_append buffer part =
     (case buffer of (out, written) \<Rightarrow>
        let stop = min (written + length part) (length out)
        in (blit out written (take (stop - written) part), stop))"

text \<open>The digits of the age, from the end of a buffer; \<open>None\<close> where the buffer would be passed.\<close>

function age_digits :: "bytes \<Rightarrow> nat \<Rightarrow> nat \<Rightarrow> (bytes \<times> nat) option" where
  "age_digits digits index age =
     (if index = 0 then None
      else let index = index - 1; digits = digits[index := 0x30 + word_of_nat (age mod 10)]; age = age div 10
        in if age = 0 then Some (digits, index) else age_digits digits index age)"
  by pat_completeness auto
termination by (relation "measure (\<lambda>(digits, index, age). index)") auto

declare age_digits.simps [simp del]

definition hsts_value :: "hsts_policy \<Rightarrow> utext option" where
  "hsts_value p =
     (let buffer = hsts_append (replicate 64 0, 0) (ascii ''max-age='')
      in case age_digits (replicate 20 0) 20 (nat (max 0 (max_age p))) of
           None \<Rightarrow> None
         | Some (digits, index) \<Rightarrow>
             let buffer = hsts_append buffer (drop index digits);
                 buffer = (if include_subdomains p then hsts_append buffer (ascii ''; includeSubDomains'') else buffer);
                 buffer = (if preload p then hsts_append buffer (ascii ''; preload'') else buffer)
             in case buffer of (out, written) \<Rightarrow> Some (text_from_ascii (take written out)))"

text \<open>One directive: the names seen so far and the policy read so far.\<close>

definition hsts_directive :: "bytes \<Rightarrow> bytes set \<times> hsts_policy \<Rightarrow> (bytes set \<times> hsts_policy) option" where
  "hsts_directive directive state =
     (case state of (seen, policy) \<Rightarrow>
        let directive = trim directive
        in if directive = [] then Some (seen, policy)
           else let (name, rest) = (case split_once 0x3d directive of
                        Some (name, rest) \<Rightarrow> (trim name, Some (trim rest)) | None \<Rightarrow> (directive, None));
                    name = lowercase name
             in if name \<in> seen then None
                else if name = ascii ''max-age'' then
                  (case rest of
                     None \<Rightarrow> None
                   | Some rest \<Rightarrow>
                       let digits = trim_matches (\<lambda>b. b = 0x22) rest
                       in if digits = [] \<or> \<not> list_all is_digit digits then None
                          else let age = int (digits_value digits)
                            in Some (insert name seen, policy\<lparr> max_age := if age \<le> I64_MAX then age else I64_MAX \<rparr>))
                else if name = ascii ''includesubdomains'' then Some (insert name seen, policy\<lparr> include_subdomains := True \<rparr>)
                else if name = ascii ''preload'' then Some (insert name seen, policy\<lparr> preload := True \<rparr>)
                else Some (insert name seen, policy))"

fun hsts_directives :: "bytes list \<Rightarrow> bytes set \<times> hsts_policy \<Rightarrow> (bytes set \<times> hsts_policy) option" where
  "hsts_directives [] state = Some state"
| "hsts_directives (d # ds) state = Option.bind (hsts_directive d state) (hsts_directives ds)"

definition hsts_parse :: "bytes \<Rightarrow> hsts_policy option" where
  "hsts_parse v =
     (case hsts_directives (split_at 0x3b v) ({}, \<lparr> max_age = -1, include_subdomains = False, preload = False \<rparr>) of
        None \<Rightarrow> None
      | Some (_, policy) \<Rightarrow> if 0 \<le> max_age policy then Some policy else None)"

subsection \<open>The store\<close>

type_synonym hsts_entries = "(bytes \<times> nat \<times> bool) list"

record hsts_store =
  st_entries :: hsts_entries
  st_limit :: u32

definition hsts_store_new :: hsts_store where
  "hsts_store_new = \<lparr> st_entries = [], st_limit = 4096 \<rparr>"

definition with_limits :: "hsts_store \<Rightarrow> u32 \<Rightarrow> hsts_store" where
  "with_limits st n = st\<lparr> st_limit := n \<rparr>"

definition hsts_normalize :: "bytes \<Rightarrow> bytes option" where
  "hsts_normalize host =
     (let host = trim_end_matches (\<lambda>b. b = 0x2e) (trim_matches (\<lambda>b. b = 0x5b \<or> b = 0x5d) (trim host))
      in if host = [] \<or> is_ip_addr host then None else Some (lowercase host))"

definition entries_remove :: "bytes \<Rightarrow> hsts_entries \<Rightarrow> hsts_entries" where
  "entries_remove k es = filter (\<lambda>(k', _). k' \<noteq> k) es"

definition entries_insert :: "bytes \<Rightarrow> nat \<times> bool \<Rightarrow> hsts_entries \<Rightarrow> hsts_entries" where
  "entries_insert k v es = (k, v) # entries_remove k es"

definition entries_live :: "nat \<Rightarrow> hsts_entries \<Rightarrow> hsts_entries" where
  "entries_live now es = filter (\<lambda>(_, expiry, _). now < expiry) es"

text \<open>The entry that expires soonest; \<open>pick\<close> settles which of several.\<close>

definition entries_soonest :: "nat \<Rightarrow> hsts_entries \<Rightarrow> bytes option" where
  "entries_soonest pick es =
     (case filter (\<lambda>(_, expiry, _). list_all (\<lambda>(_, expiry', _). expiry \<le> expiry') es) es of
        [] \<Rightarrow> None
      | ties \<Rightarrow> Some (fst (ties ! (pick mod length ties))))"

text \<open>Room for one more host.\<close>

definition entries_room :: "nat \<Rightarrow> u32 \<Rightarrow> bytes \<Rightarrow> hsts_entries \<Rightarrow> hsts_entries" where
  "entries_room pick most name es =
     (if unat most \<le> length es \<and> name \<notin> fst ` set es
      then (case entries_soonest pick es of None \<Rightarrow> es | Some soonest \<Rightarrow> entries_remove soonest es)
      else es)"

definition instant_add :: "nat \<Rightarrow> nat \<Rightarrow> nat \<Rightarrow> nat option" where
  "instant_add last_instant now seconds =
     (let t = now + 1000000000 * seconds in if t \<le> last_instant then Some t else None)"

definition hsts_learn :: "nat \<Rightarrow> nat \<Rightarrow> bytes \<Rightarrow> bytes \<Rightarrow> bool \<Rightarrow> nat \<Rightarrow> hsts_store \<Rightarrow> hsts_store" where
  "hsts_learn last_instant pick host header secure now st =
     (if \<not> secure then st
      else case hsts_normalize host of
        None \<Rightarrow> st
      | Some name \<Rightarrow>
          (case hsts_parse header of
             None \<Rightarrow> st
           | Some policy \<Rightarrow>
               if max_age policy \<le> 0 then st\<lparr> st_entries := entries_remove name (st_entries st) \<rparr>
               else case instant_add last_instant now (nat (max_age policy)) of
                 None \<Rightarrow> st
               | Some expiry \<Rightarrow>
                   let es = entries_room pick (st_limit st) name (entries_live now (st_entries st))
                   in st\<lparr> st_entries := entries_insert name (expiry, include_subdomains policy) es \<rparr>))"

function hsts_walk :: "bytes \<Rightarrow> nat \<Rightarrow> bytes \<Rightarrow> hsts_entries \<Rightarrow> hsts_entries \<times> bool" where
  "hsts_walk name now candidate es =
     (let (es, found) = (case map_of es candidate of
            None \<Rightarrow> (es, False)
          | Some (expiry, subdomains) \<Rightarrow>
              if expiry \<le> now then (entries_remove candidate es, False)
              else (es, candidate = name \<or> subdomains))
      in if found then (es, True)
         else case split_once 0x2e candidate of
           None \<Rightarrow> (es, False)
         | Some (_, parent) \<Rightarrow> hsts_walk name now parent es)"
  by pat_completeness auto
termination
  by (relation "measure (\<lambda>(name, now, candidate, es). length candidate)") (auto dest: split_once_shorter)

declare hsts_walk.simps [simp del]

definition hsts_secure :: "bytes \<Rightarrow> nat \<Rightarrow> hsts_store \<Rightarrow> hsts_store \<times> bool" where
  "hsts_secure host now st =
     (case hsts_normalize host of
        None \<Rightarrow> (st, False)
      | Some name \<Rightarrow> (case hsts_walk name now name (st_entries st) of (es, found) \<Rightarrow> (st\<lparr> st_entries := es \<rparr>, found)))"

definition hsts_prune :: "nat \<Rightarrow> hsts_store \<Rightarrow> hsts_store" where
  "hsts_prune now st = st\<lparr> st_entries := entries_live now (st_entries st) \<rparr>"


subsection \<open>What is written is read\<close>

lemma show_decimal_length: "n < 10 ^ k \<Longrightarrow> 0 < k \<Longrightarrow> length (show_decimal n) \<le> k"
proof (induction n arbitrary: k rule: show_decimal.induct)
  case (1 n)
  show ?case
  proof (cases "n < 10")
    case True
    then show ?thesis using 1(3) by (subst show_decimal.simps) simp
  next
    case False
    then obtain j where j: "k = Suc j" "0 < j" using 1(2,3) by (cases k; cases "k - 1") auto
    then have "n div 10 < 10 ^ j" using 1(2) by (simp add: less_mult_imp_div_less mult.commute)
    then show ?thesis using 1(1) [OF False] j False by (subst show_decimal.simps) simp
  qed
qed

lemma age_digits_spec:
  "length (show_decimal n) \<le> index \<Longrightarrow> index \<le> length digits \<Longrightarrow>
   \<exists>digits' index'. age_digits digits index n = Some (digits', index') \<and> drop index' digits' = show_decimal n @ drop index digits"
proof (induction n arbitrary: index digits rule: show_decimal.induct)
  case (1 n)
  let ?d = "0x30 + word_of_nat (n mod 10) :: octet"
  have "0 < index" using 1(2) show_decimal_digits [of n] by (cases index) auto
  then have step: "drop (index - 1) (digits[index - 1 := ?d]) = ?d # drop index digits"
    using 1(3) by (cases index) (simp_all add: drop_update_swap Cons_nth_drop_Suc [symmetric] upd_conv_take_nth_drop)
  show ?case
  proof (cases "n < 10")
    case True
    then show ?thesis using \<open>0 < index\<close> step
      by (subst age_digits.simps, subst show_decimal.simps) (simp add: Let_def)
  next
    case False
    then have "length (show_decimal (n div 10)) \<le> index - 1" using 1(2) by (subst (asm) show_decimal.simps) simp
    with 1(1) [OF False this, of "digits[index - 1 := ?d]"] 1(3) False \<open>0 < index\<close> step show ?thesis
      by (subst age_digits.simps, subst show_decimal.simps) (auto simp: Let_def)
  qed
qed

lemma hsts_append_spec:
  "written + length part \<le> length out \<Longrightarrow>
   \<exists>out'. hsts_append (out, written) part = (out', written + length part) \<and> length out' = length out \<and>
     take (written + length part) out' = take written out @ part"
  by (simp add: hsts_append_def Let_def blit_def)

definition hsts_written :: "hsts_policy \<Rightarrow> bytes" where
  "hsts_written p = (ascii ''max-age='' @ show_decimal (nat (max 0 (max_age p)))) @
     (if include_subdomains p then 0x3b # ascii '' includeSubDomains'' else []) @
     (if preload p then 0x3b # ascii '' preload'' else [])"

lemma directive_texts:
  "trim (ascii '' includeSubDomains'') = ascii ''includeSubDomains''" "trim (ascii '' preload'') = ascii ''preload''"
  "split_once 0x3d (ascii ''includeSubDomains'') = None" "split_once 0x3d (ascii ''preload'') = None"
  "lowercase (ascii ''includeSubDomains'') = ascii ''includesubdomains''" "lowercase (ascii ''preload'') = ascii ''preload''"
  "lowercase (ascii ''max-age'') = ascii ''max-age''" "trim (ascii ''max-age'') = ascii ''max-age''"
  "0x3b \<notin> set (ascii '' includeSubDomains'')" "0x3b \<notin> set (ascii '' preload'')" "0x3b \<notin> set (ascii ''max-age='')"
  "0x3d \<notin> set (ascii ''max-age'')" "ascii ''; includeSubDomains'' = 0x3b # ascii '' includeSubDomains''"
  "ascii ''; preload'' = 0x3b # ascii '' preload''" "ascii ''max-age='' = ascii ''max-age'' @ [0x3d]"
  "ascii ''includeSubDomains'' \<noteq> []" "ascii ''preload'' \<noteq> []"
  "ascii ''includesubdomains'' \<noteq> ascii ''max-age''" "ascii ''preload'' \<noteq> ascii ''max-age''"
  "ascii ''preload'' \<noteq> ascii ''includesubdomains''"
  by code_simp+

lemma hsts_written_ascii: "is_ascii (hsts_written p)"
proof -
  have "is_digit b \<longrightarrow> b < 0x80" for b by (rule octet_all) code_simp
  then have "is_ascii (show_decimal n)" for n using show_decimal_digits [of n] by (auto simp: is_ascii_def list_all_iff)
  moreover have "is_ascii (ascii ''max-age='')" "is_ascii (0x3b # ascii '' includeSubDomains'')" "is_ascii (0x3b # ascii '' preload'')"
    by code_simp+
  ultimately show ?thesis unfolding is_ascii_def hsts_written_def by (simp del: ascii_Cons)
qed

lemma hsts_value_spec:
  assumes "max_age p \<le> I64_MAX"
  shows "hsts_value p = Some (text_of (hsts_written p))"
proof -
  define n where "n = nat (max 0 (max_age p))"
  have "n < 10 ^ 19" using assms by (simp add: n_def I64_MAX_def)
  then have len: "length (show_decimal n) \<le> 19" by (rule show_decimal_length) simp
  obtain digits index where digits: "age_digits (replicate 20 0) 20 n = Some (digits, index)" "drop index digits = show_decimal n"
    using age_digits_spec [of n 20 "replicate 20 0"] len by auto
  let ?part1 = "ascii ''max-age=''" and ?part3 = "ascii ''; includeSubDomains''" and ?part4 = "ascii ''; preload''"
  have lens: "length ?part1 = 8" "length ?part3 = 19" "length ?part4 = 9" by simp_all
  obtain o1 where o1: "hsts_append (replicate 64 0, 0) ?part1 = (o1, 8)" "length o1 = 64" "take 8 o1 = ?part1"
    using hsts_append_spec [of 0 ?part1 "replicate 64 0"] unfolding lens by auto
  obtain o2 where o2: "hsts_append (o1, 8) (show_decimal n) = (o2, 8 + length (show_decimal n))" "length o2 = 64"
      "take (8 + length (show_decimal n)) o2 = ?part1 @ show_decimal n"
    using hsts_append_spec [of 8 "show_decimal n" o1] o1 len by auto
  define w2 where "w2 = 8 + length (show_decimal n)"
  obtain o3 w3 where o3: "(if include_subdomains p then hsts_append (o2, w2) ?part3 else (o2, w2)) = (o3, w3)" "length o3 = 64"
      "w3 \<le> w2 + 19" "take w3 o3 = ?part1 @ show_decimal n @ (if include_subdomains p then ?part3 else [])"
    using hsts_append_spec [of w2 ?part3 o2] o2 len lens
    by (cases "include_subdomains p") (auto simp: w2_def simp del: ascii_Cons)
  obtain o4 w4 where o4: "(if preload p then hsts_append (o3, w3) ?part4 else (o3, w3)) = (o4, w4)"
      "take w4 o4 = ?part1 @ show_decimal n @ (if include_subdomains p then ?part3 else []) @ (if preload p then ?part4 else [])"
    using hsts_append_spec [of w3 ?part4 o3] o3 len lens
    by (cases "preload p") (auto simp: w2_def simp del: ascii_Cons)
  have written: "take w4 o4 = hsts_written p"
    unfolding o4(2) hsts_written_def directive_texts(13,14) n_def by simp
  have "text_from_ascii (take w4 o4) = text_of (hsts_written p)"
    by (simp add: text_from_ascii_of written hsts_written_ascii is_ascii_utf8 utf8_lossy_id)
  then show ?thesis
    unfolding hsts_value_def n_def [symmetric] digits(1) o1(1) Let_def option.case prod.case digits(2) o2(1) [folded w2_def] o3(1) o4(1)
    by simp
qed

lemma digit_plain: "is_digit b \<Longrightarrow> plain_octet b \<and> b \<noteq> 0x22"
proof -
  assume "is_digit b"
  then have b: "0x30 \<le> b" "b \<le> 0x39" by (simp_all add: is_digit_def)
  have "0x20 < (0x30 :: octet)" "(0x39 :: octet) < 0x80" by simp_all
  then have "0x20 < b" "b < 0x80" using less_le_trans [OF _ b(1)] le_less_trans [OF b(2)] by blast+
  then show "plain_octet b \<and> b \<noteq> 0x22" using b by (auto simp: plain_octet_def)
qed

lemma digits_plain: "list_all is_digit ds \<Longrightarrow> trim ds = ds \<and> trim_matches (\<lambda>b. b = 0x22) ds = ds"
proof -
  assume ds: "list_all is_digit ds"
  have "dropWhile (\<lambda>b. b = 0x22) (rev ds) = rev ds" "dropWhile (\<lambda>b. b = 0x22) ds = ds"
    using ds digit_plain by (auto simp: list_all_iff dropWhile_eq_self_iff hd_in_set dest: hd_in_set last_in_set simp: hd_rev)+
  then show ?thesis using ds digit_plain by (auto intro!: trim_plain simp: list_all_iff trim_matches_def)
qed

lemma directive_age:
  assumes "int n \<le> I64_MAX"
  shows "hsts_directive (ascii ''max-age='' @ show_decimal n) ({}, policy) = Some ({ascii ''max-age''}, policy\<lparr> max_age := int n \<rparr>)"
proof -
  let ?ds = "show_decimal n"
  have ds: "?ds \<noteq> []" "list_all is_digit ?ds" "digits_value ?ds = n" using show_decimal_digits [of n] by auto
  have joined: "ascii ''max-age='' @ ?ds = ascii ''max-age'' @ 0x3d # ?ds" unfolding directive_texts by simp
  have "plain_octet b" if "b \<in> set ?ds" for b using that ds(2) digit_plain by (auto simp: list_all_iff)
  then have "trim (ascii ''max-age'' @ 0x3d # ?ds) = ascii ''max-age'' @ 0x3d # ?ds"
    using ds(1) by (intro trim_plain) (simp add: plain_octet_def)
  moreover have "split_once 0x3d (ascii ''max-age'' @ 0x3d # ?ds) = Some (ascii ''max-age'', ?ds)"
    by (rule split_once_at) (rule directive_texts)
  ultimately show ?thesis
    unfolding joined hsts_directive_def prod.case Let_def using ds assms digits_plain [OF ds(2)]
    by (simp add: directive_texts del: ascii_Cons)
qed

lemma directive_flags:
  "ascii ''includesubdomains'' \<notin> seen \<Longrightarrow> hsts_directive (ascii '' includeSubDomains'') (seen, policy)
     = Some (insert (ascii ''includesubdomains'') seen, policy\<lparr> include_subdomains := True \<rparr>)"
  "ascii ''preload'' \<notin> seen \<Longrightarrow> hsts_directive (ascii '' preload'') (seen, policy)
     = Some (insert (ascii ''preload'') seen, policy\<lparr> preload := True \<rparr>)"
  unfolding hsts_directive_def prod.case Let_def directive_texts option.case
  by (simp_all only: directive_texts if_False if_True simp_thms)

lemma hsts_parse_written:
  assumes "max_age p \<le> I64_MAX"
  shows "hsts_parse (hsts_written p) = Some (p\<lparr> max_age := max 0 (max_age p) \<rparr>)"
proof -
  define n where "n = nat (max 0 (max_age p))"
  have n: "int n = max 0 (max_age p)" "int n \<le> I64_MAX" using assms by (simp_all add: n_def I64_MAX_def)
  let ?head = "ascii ''max-age='' @ show_decimal n"
  have "0x3b \<notin> set (show_decimal n)"
    using show_decimal_digits [of n] by (auto simp: list_all_iff is_digit_def)
  then have head: "0x3b \<notin> set ?head" using directive_texts(11) by simp
  have pieces: "split_at 0x3b (hsts_written p) = ?head # (if include_subdomains p then [ascii '' includeSubDomains''] else []) @
      (if preload p then [ascii '' preload''] else [])"
    unfolding hsts_written_def n_def [symmetric]
    using split_at_append [OF head] split_at_last [OF head] split_at_append [OF directive_texts(9)]
      split_at_last [OF directive_texts(9)] split_at_last [OF directive_texts(10)]
    by (cases "include_subdomains p"; cases "preload p") (simp_all del: ascii_Cons)
  show ?thesis
    unfolding hsts_parse_def pieces using n
    by (cases p; cases "include_subdomains p"; cases "preload p")
      (simp_all add: directive_age directive_flags directive_texts(18-20) del: ascii_Cons)
qed

subsection \<open>What the store remembers\<close>

definition parent_domain :: "bytes \<Rightarrow> bytes \<Rightarrow> bool" where
  "parent_domain parent name \<longleftrightarrow> suffix (0x2e # parent) name"

lemma parent_domain_step:
  assumes "split_once 0x2e name = Some (label, parent)"
  shows "parent_domain k name \<longleftrightarrow> k = parent \<or> parent_domain k parent"
proof -
  have name: "name = label @ 0x2e # parent" "0x2e \<notin> set label" using split_once_split [OF assms] by auto
  have "\<not> (\<exists>xs. 0x2e # k = xs @ 0x2e # parent \<and> xs \<noteq> [] \<and> suffix xs label)"
    using name(2) by (auto simp: suffix_def Cons_eq_append_conv)
  then show ?thesis unfolding parent_domain_def name(1) suffix_append suffix_Cons by auto
qed

lemma parent_domain_none: "split_once 0x2e name = None \<Longrightarrow> \<not> parent_domain k name"
  by (auto simp: parent_domain_def split_once_def suffix_def split: if_splits)

definition insists :: "hsts_entries \<Rightarrow> nat \<Rightarrow> bytes \<Rightarrow> bytes \<Rightarrow> bool" where
  "insists es now name candidate \<longleftrightarrow>
     (\<exists>e \<in> set es. now < fst (snd e) \<and> (fst e = name \<or> snd (snd e)) \<and> (fst e = candidate \<or> parent_domain (fst e) candidate))"

lemma entries_remove_simps:
  "set (entries_remove k es) = {e \<in> set es. fst e \<noteq> k}" "distinct (map fst es) \<Longrightarrow> distinct (map fst (entries_remove k es))"
  "length (entries_remove k es) \<le> length es"
  by (auto simp: entries_remove_def distinct_map_filter)

lemma hsts_walk_spec:
  "distinct (map fst es) \<Longrightarrow> (case hsts_walk name now candidate es of (es', found) \<Rightarrow>
     (found \<longleftrightarrow> insists es now name candidate) \<and> entries_live now es' = entries_live now es \<and>
     set es' \<subseteq> set es \<and> distinct (map fst es') \<and> length es' \<le> length es)"
proof (induction name now candidate es rule: hsts_walk.induct)
  case (1 name now candidate es)
  define es1 where "es1 = (case map_of es candidate of Some (expiry, _) \<Rightarrow> if expiry \<le> now then entries_remove candidate es else es | None \<Rightarrow> es)"
  define found where "found \<longleftrightarrow> (case map_of es candidate of Some (expiry, sub) \<Rightarrow> now < expiry \<and> (candidate = name \<or> sub) | None \<Rightarrow> False)"
  have step: "(case map_of es candidate of None \<Rightarrow> (es, False)
      | Some (expiry, sub) \<Rightarrow> if expiry \<le> now then (entries_remove candidate es, False) else (es, candidate = name \<or> sub)) = (es1, found)"
    by (auto simp: es1_def found_def split: option.split)
  have here: "found \<longleftrightarrow> (\<exists>expiry sub. (candidate, expiry, sub) \<in> set es \<and> now < expiry \<and> (candidate = name \<or> sub))"
  proof (cases "map_of es candidate")
    case None
    then have "candidate \<notin> fst ` set es" by (simp add: map_of_eq_None_iff)
    then have "(candidate, w) \<notin> set es" for w by (metis fst_conv image_eqI)
    then show ?thesis using None by (simp add: found_def)
  next
    case (Some v)
    moreover have "(candidate, w) \<in> set es \<longleftrightarrow> w = v" for w using map_of_eq_Some_iff [OF 1(2), of candidate w] Some by auto
    ultimately show ?thesis by (cases v) (auto simp: found_def)
  qed
  have es1: "distinct (map fst es1)" "set es1 \<subseteq> set es" "length es1 \<le> length es" "entries_live now es1 = entries_live now es"
  proof -
    have "es1 = es \<or> (\<exists>e sub. map_of es candidate = Some (e, sub) \<and> e \<le> now \<and> es1 = entries_remove candidate es)"
      by (auto simp: es1_def split: option.split)
    moreover have "entries_live now (entries_remove candidate es) = entries_live now es"
      if "map_of es candidate = Some (e, sub)" "e \<le> now" for e sub
    proof -
      have "e' \<le> now" if "(candidate, e', s') \<in> set es" for e' s'
        using that map_of_eq_Some_iff [OF 1(2), of candidate] \<open>map_of es candidate = Some (e, sub)\<close> \<open>e \<le> now\<close>
        by (metis Pair_inject option.inject)
      then show ?thesis unfolding entries_live_def entries_remove_def filter_filter by (intro filter_cong) force+
    qed
    ultimately show "distinct (map fst es1)" "set es1 \<subseteq> set es" "length es1 \<le> length es" "entries_live now es1 = entries_live now es"
      using 1(2) entries_remove_simps by auto
  qed
  have others: "insists es1 now name parent = insists es now name parent" for parent
  proof -
    have "{e \<in> set es1. now < fst (snd e)} = set (entries_live now es1)" "{e \<in> set es. now < fst (snd e)} = set (entries_live now es)"
      by (auto simp: entries_live_def)
    then have live: "{e \<in> set es1. now < fst (snd e)} = {e \<in> set es. now < fst (snd e)}" using es1(4) by simp
    define P where "P e \<longleftrightarrow> (fst e = name \<or> snd (snd e)) \<and> (fst e = parent \<or> parent_domain (fst e) parent)" for e :: "bytes \<times> nat \<times> bool"
    have "insists fs now name parent \<longleftrightarrow> (\<exists>e \<in> {e \<in> set fs. now < fst (snd e)}. P e)" for fs
      unfolding insists_def P_def by blast
    then show ?thesis by (simp only: live)
  qed
  show ?case
  proof (cases found)
    case True
    then obtain expiry sub where "(candidate, expiry, sub) \<in> set es" "now < expiry" "candidate = name \<or> sub" using here by blast
    then have "insists es now name candidate"
      unfolding insists_def by (intro bexI [of _ "(candidate, expiry, sub)"]) auto
    then show ?thesis using es1 True by (subst hsts_walk.simps, unfold step) simp
  next
    case False
    then have here': "insists es now name candidate \<longleftrightarrow> (\<exists>e \<in> set es. now < fst (snd e) \<and> (fst e = name \<or> snd (snd e)) \<and> parent_domain (fst e) candidate)"
    proof -
      have "\<not> (now < fst (snd e) \<and> (fst e = name \<or> snd (snd e)))" if "e \<in> set es" "fst e = candidate" for e
        using here False that by (cases e) fastforce
      then show ?thesis unfolding insists_def by blast
    qed
    show ?thesis
    proof (cases "split_once 0x2e candidate")
      case None
      then show ?thesis using False es1 here' parent_domain_none [OF None]
        by (subst hsts_walk.simps, unfold step) (auto simp: Let_def)
    next
      case (Some pieces)
      obtain label parent where pieces: "split_once 0x2e candidate = Some (label, parent)" using Some by (cases pieces) auto
      have walk: "hsts_walk name now candidate es = hsts_walk name now parent es1"
        using False pieces by (subst hsts_walk.simps, unfold step) simp
      have "insists es now name candidate = insists es1 now name parent"
        unfolding here' others by (simp add: insists_def parent_domain_step [OF pieces])
      then show ?thesis
        using 1(1) [OF step [symmetric] refl False pieces refl es1(1)] es1 unfolding walk by auto
    qed
  qed
qed


subsection \<open>A store in use\<close>

text \<open>What clients do with a store, in any order: learn from responses, ask, prune.\<close>

inductive hsts_run :: "u32 \<Rightarrow> hsts_store \<Rightarrow> bool" for most :: u32 where
  start: "hsts_run most (with_limits hsts_store_new most)"
| learn: "hsts_run most st \<Longrightarrow> hsts_run most (hsts_learn last_instant pick host header secure now st)"
| ask: "hsts_run most st \<Longrightarrow> hsts_run most (fst (hsts_secure host now st))"
| prune: "hsts_run most st \<Longrightarrow> hsts_run most (hsts_prune now st)"

definition store_ok :: "hsts_store \<Rightarrow> bool" where
  "store_ok st \<longleftrightarrow> distinct (map fst (st_entries st)) \<and> length (st_entries st) \<le> max 1 (unat (st_limit st)) \<and>
     (\<forall>k \<in> fst ` set (st_entries st). \<exists>host. hsts_normalize host = Some k)"

lemma entries_live_simps:
  "set (entries_live now es) = {e \<in> set es. now < fst (snd e)}" "distinct (map fst es) \<Longrightarrow> distinct (map fst (entries_live now es))"
  "length (entries_live now es) \<le> length es"
  by (auto simp: entries_live_def distinct_map_filter)

lemma entries_soonest_in: "es \<noteq> [] \<Longrightarrow> \<exists>k. entries_soonest pick es = Some k \<and> k \<in> fst ` set es"
proof -
  assume es: "es \<noteq> []"
  let ?P = "\<lambda>(_, expiry, _). list_all (\<lambda>(_, expiry', _). expiry \<le> expiry') es"
  define e where "e = Min ((\<lambda>(_, expiry, _). expiry) ` set es)"
  have "e \<in> (\<lambda>(_, expiry, _). expiry) ` set es" unfolding e_def using es by (intro Min_in) auto
  then obtain k sub where k: "(k, e, sub) \<in> set es" by auto
  have "\<forall>(_, expiry', _) \<in> set es. e \<le> expiry'" unfolding e_def by (auto intro!: Min_le rev_image_eqI)
  then have "(k, e, sub) \<in> set (filter ?P es)" using k by (simp add: list_all_iff)
  then have ties: "filter ?P es \<noteq> []" by (metis empty_iff empty_set)
  then have "filter ?P es ! (pick mod length (filter ?P es)) \<in> set (filter ?P es)" by (intro nth_mem) simp
  then have "fst (filter ?P es ! (pick mod length (filter ?P es))) \<in> fst ` set es" by auto
  moreover have "entries_soonest pick es = Some (fst (filter ?P es ! (pick mod length (filter ?P es))))"
    unfolding entries_soonest_def using ties by (cases "filter ?P es") auto
  ultimately show ?thesis by blast
qed

lemma entries_remove_shrinks: "k \<in> fst ` set es \<Longrightarrow> length (entries_remove k es) < length es"
proof -
  assume "k \<in> fst ` set es"
  then obtain e where "e \<in> set es" "fst e = k" by auto
  then show ?thesis unfolding entries_remove_def by (intro length_filter_less [of e]) auto
qed

text \<open>Where there is no room, one entry makes room; an entry of the same name takes its own place.\<close>

lemma entries_insert_ok:
  assumes "distinct (map fst es)" "length es \<le> max 1 (unat n)" and es': "es' = entries_room pick n name es"
  shows "distinct (map fst (entries_insert name v es'))" "length (entries_insert name v es') \<le> max 1 (unat n)"
    "fst ` set (entries_insert name v es') \<subseteq> insert name (fst ` set es)"
proof -
  have es': "distinct (map fst es')" "set es' \<subseteq> set es" "length es' \<le> length es"
    using assms(1) entries_remove_simps by (auto simp: es' entries_room_def split: option.splits if_splits)
  have room: "length es' < max 1 (unat n)" if "name \<notin> fst ` set es"
  proof (cases "unat n \<le> length es \<and> es \<noteq> []")
    case True
    then obtain k where k: "entries_soonest pick es = Some k" "k \<in> fst ` set es" using entries_soonest_in by blast
    then have "es' = entries_remove k es" using True that assms(3) by (simp add: entries_room_def)
    then show ?thesis using entries_remove_shrinks [OF k(2)] assms(2) by simp
  next
    case False
    then have "length es < max 1 (unat n)" by auto
    then show ?thesis using es'(3) by (simp add: le_less_trans)
  qed
  show "distinct (map fst (entries_insert name v es'))"
    using es'(1) entries_remove_simps by (auto simp: entries_insert_def)
  show "fst ` set (entries_insert name v es') \<subseteq> insert name (fst ` set es)"
    using es'(2) by (auto simp: entries_insert_def entries_remove_simps)
  show "length (entries_insert name v es') \<le> max 1 (unat n)"
  proof (cases "name \<in> fst ` set es")
    case True
    then have "es' = es" using assms(3) by (simp add: entries_room_def)
    then show ?thesis using entries_remove_shrinks [OF True] assms(2) by (simp add: entries_insert_def)
  next
    case False
    then show ?thesis using room entries_remove_simps(3) [of name es'] by (simp add: entries_insert_def)
  qed
qed

lemma store_ok_fewer:
  assumes "store_ok st" "set es \<subseteq> set (st_entries st)" "distinct (map fst es)" "length es \<le> length (st_entries st)"
  shows "store_ok (st\<lparr> st_entries := es \<rparr>)"
  using assms by (auto simp: store_ok_def)

lemma hsts_learn_ok:
  assumes "store_ok st"
  shows "store_ok (hsts_learn last_instant pick host header secure now st) \<and>
    st_limit (hsts_learn last_instant pick host header secure now st) = st_limit st"
proof -
  let ?es = "entries_live now (st_entries st)"
  have live: "distinct (map fst ?es)" "length ?es \<le> max 1 (unat (st_limit st))"
    using assms entries_live_simps(2) [of "st_entries st" now] entries_live_simps(3) [of now "st_entries st"] by (auto simp: store_ok_def)
  have sub: "fst ` set ?es \<subseteq> fst ` set (st_entries st)" by (auto simp: entries_live_simps(1))
  have "store_ok (st\<lparr> st_entries := entries_insert name v (entries_room pick (st_limit st) name ?es) \<rparr>)"
    if "hsts_normalize host = Some name" for name v
  proof -
    let ?new = "entries_insert name v (entries_room pick (st_limit st) name ?es)"
    note ok = entries_insert_ok [OF live refl, of name v pick]
    have "\<exists>host. hsts_normalize host = Some k" if "k \<in> fst ` set ?new" for k
    proof -
      have "k = name \<or> k \<in> fst ` set (st_entries st)" using that ok(3) sub by blast
      then show ?thesis using assms \<open>hsts_normalize host = Some name\<close> by (auto simp: store_ok_def)
    qed
    then show ?thesis using ok(1,2) by (simp add: store_ok_def)
  qed
  moreover have "store_ok (st\<lparr> st_entries := entries_remove name (st_entries st) \<rparr>)" for name
    using assms by (intro store_ok_fewer) (auto simp: entries_remove_simps store_ok_def)
  ultimately show ?thesis using assms by (simp add: hsts_learn_def Let_def split: option.split)
qed

lemma hsts_run_ok: "hsts_run most st \<Longrightarrow> store_ok st \<and> st_limit st = most"
proof (induction rule: hsts_run.induct)
  case start
  then show ?case by (simp add: store_ok_def with_limits_def hsts_store_new_def)
next
  case (learn st last_instant pick host header secure now)
  then show ?case using hsts_learn_ok by auto
next
  case (ask st host now)
  then show ?case
    using hsts_walk_spec [of "st_entries st" now "the (hsts_normalize host)" "the (hsts_normalize host)"]
    by (auto simp: hsts_secure_def store_ok_def split: option.split prod.splits)
next
  case (prune st now)
  then show ?case
    using store_ok_fewer [of st "entries_live now (st_entries st)"] entries_live_simps(1,3) [of now "st_entries st"]
      entries_live_simps(2) [of "st_entries st" now]
    by (auto simp: hsts_prune_def store_ok_def)
qed

lemma hsts_secure_spec:
  assumes "distinct (map fst (st_entries st))"
  shows "snd (hsts_secure host now st) \<longleftrightarrow> (\<exists>name. hsts_normalize host = Some name \<and> insists (st_entries st) now name name)"
    "entries_live now (st_entries (fst (hsts_secure host now st))) = entries_live now (st_entries st)"
  using hsts_walk_spec [OF assms, of now "the (hsts_normalize host)" "the (hsts_normalize host)"]
  by (auto simp: hsts_secure_def split: option.split prod.splits)

subsection \<open>Properties\<close>

text \<open>A policy a server writes is the policy a client reads, with a negative age written as zero; the
  buffer on the stack always holds it.\<close>

lemma hsts_field_round_trip:
  assumes "max_age p \<le> I64_MAX"
  shows "map_option (\<lambda>v. hsts_parse (text_bytes v)) (hsts_value p) = Some (Some (p\<lparr> max_age := max 0 (max_age p) \<rparr>))"
proof -
  have "is_utf8 (hsts_written p)" using hsts_written_ascii by (rule is_ascii_utf8)
  then show ?thesis by (simp add: hsts_value_spec [OF assms] hsts_parse_written [OF assms] text_bytes_of)
qed

lemma hsts_field_round_trip_witness:
  "map_option (\<lambda>v. hsts_parse (text_bytes v)) (hsts_value \<lparr> max_age = 31536000, include_subdomains = True, preload = False \<rparr>)
     = Some (Some \<lparr> max_age = 31536000, include_subdomains = True, preload = False \<rparr>)"
  using hsts_field_round_trip [of "\<lparr> max_age = 31536000, include_subdomains = True, preload = False \<rparr>"]
  by (simp add: I64_MAX_def)

text \<open>C39: whatever responses it learns from and however often it is asked and pruned, a store holds one
  entry to a host, every host in the form it is looked up by, and no more hosts than a ceiling above
  zero; under a ceiling of zero it holds at most one, where it was to hold none.\<close>

theorem hsts_store_bounded:
  assumes "hsts_run most st"
  shows "distinct (map fst (st_entries st)) \<and> length (st_entries st) \<le> (if most = 0 then 1 else unat most) \<and>
    (\<forall>k \<in> fst ` set (st_entries st). \<exists>host. hsts_normalize host = Some k)"
proof -
  have "max 1 (unat most) = (if most = 0 then 1 else unat most)" by (simp add: unat_eq_zero max_def Suc_le_eq word_gt_0)
  then show ?thesis using hsts_run_ok [OF assms] by (auto simp: store_ok_def)
qed

theorem hsts_store_bounded_witness:
  "length (st_entries (hsts_prune 5 (with_limits hsts_store_new 2))) \<le> 2"
  using hsts_store_bounded [OF hsts_run.prune [OF hsts_run.start], of 5 2] by simp

text \<open>C40: a host must be reached over TLS exactly where it, or a parent that covers its subdomains, has an
  entry that has not expired; asking loses no such entry; and a host learnt over a secure transport
  is such a host until its policy expires, while nothing is learnt over an insecure one.\<close>

theorem hsts_insists:
  assumes "hsts_run most st" "hsts_normalize host = Some name"
  shows "(snd (hsts_secure host now st) \<longleftrightarrow> (\<exists>(k, expiry, subdomains) \<in> set (st_entries st).
      now < expiry \<and> (k = name \<or> subdomains \<and> suffix (0x2e # k) name))) \<and>
    entries_live now (st_entries (fst (hsts_secure host now st))) = entries_live now (st_entries st) \<and>
    (hsts_parse header = Some policy \<and> 0 < max_age policy \<and> instant_add last_instant now (nat (max_age policy)) = Some expiry \<and>
      later < expiry \<longrightarrow> snd (hsts_secure host later (hsts_learn last_instant pick host header True now st))) \<and>
    hsts_learn last_instant pick host header False now st = st"
proof -
  have ok: "distinct (map fst (st_entries st))" using hsts_run_ok [OF assms(1)] by (simp add: store_ok_def)
  have "insists es t name name \<longleftrightarrow> (\<exists>(k, expiry, subdomains) \<in> set es. t < expiry \<and> (k = name \<or> subdomains \<and> suffix (0x2e # k) name))"
    for es t unfolding insists_def parent_domain_def by (intro bex_cong) auto
  then have "snd (hsts_secure host now st) \<longleftrightarrow> (\<exists>(k, expiry, subdomains) \<in> set (st_entries st).
      now < expiry \<and> (k = name \<or> subdomains \<and> suffix (0x2e # k) name))"
    using hsts_secure_spec(1) [OF ok] assms(2) by simp
  moreover have "snd (hsts_secure host later (hsts_learn last_instant pick host header True now st))"
    if learnt: "hsts_parse header = Some policy" "0 < max_age policy"
      "instant_add last_instant now (nat (max_age policy)) = Some expiry" "later < expiry"
  proof -
    let ?st = "hsts_learn last_instant pick host header True now st"
    have "store_ok ?st" using hsts_learn_ok hsts_run_ok [OF assms(1)] by blast
    then have "distinct (map fst (st_entries ?st))" by (simp add: store_ok_def)
    moreover have "(name, expiry, include_subdomains policy) \<in> set (st_entries ?st)"
      using learnt assms(2) by (simp add: hsts_learn_def Let_def entries_insert_def)
    ultimately show ?thesis using hsts_secure_spec(1) assms(2) learnt(4) by (auto simp: insists_def intro!: bexI)
  qed
  ultimately show ?thesis using hsts_secure_spec(2) [OF ok] by (simp add: hsts_learn_def)
qed

theorem hsts_insists_witness:
  "snd (hsts_secure (ascii ''A.b.'') 999999999 (hsts_learn 9000000000 0 (ascii ''A.b.'') (ascii ''max-age=1'') True 0
     (with_limits hsts_store_new 2)))"
proof -
  have "hsts_normalize (ascii ''A.b.'') = Some (ascii ''a.b'')" by code_simp
  moreover have "hsts_parse (ascii ''max-age=1'') = Some \<lparr> max_age = 1, include_subdomains = False, preload = False \<rparr>" by code_simp
  ultimately show ?thesis
    using hsts_insists [OF hsts_run.start, where host = "ascii ''A.b.''" and name = "ascii ''a.b''" and most = 2 and now = 0
        and header = "ascii ''max-age=1''" and policy = "\<lparr> max_age = 1, include_subdomains = False, preload = False \<rparr>"
        and last_instant = 9000000000 and expiry = 1000000000 and later = 999999999 and pick = 0]
    by (simp add: instant_add_def del: ascii_Cons)
qed

end
