(* ===== verification/Cookies.thy ===== *)
theory Cookies
  imports Hsts Messages
begin

section \<open>Cookies (src/src/cookies.rs)\<close>

text \<open>
  The two fields, and the jar a client keeps: which host may set which cookie, which request carries
  it, and how many are held. The jar is locked for the whole of each operation, so an operation is
  one step; an instant is a number of nanoseconds, as in \<open>Hsts\<close>.
\<close>

datatype same_site = Strict | Lax | CrossSite

fun same_site_str :: "same_site \<Rightarrow> bytes" where
  "same_site_str Strict = ascii ''Strict''"
| "same_site_str Lax = ascii ''Lax''"
| "same_site_str CrossSite = ascii ''None''"

definition same_site_parse :: "bytes \<Rightarrow> same_site option" where
  "same_site_parse v =
     (let v = lowercase v
      in if v = ascii ''strict'' then Some Strict
         else if v = ascii ''lax'' then Some Lax
         else if v = ascii ''none'' then Some CrossSite
         else None)"

subsection \<open>What a client sends\<close>

type_synonym cookie_pairs = "(bytes \<times> bytes) list"

definition SEPARATORS :: bytes where "SEPARATORS = ascii ''()<>@,;:'' @ [0x5c, 0x22] @ ascii ''/[]?={}''"

definition is_separator :: "octet \<Rightarrow> bool" where
  "is_separator b \<longleftrightarrow> b \<le> 0x20 \<or> b = 0x7f \<or> b \<in> set SEPARATORS"

definition cookie_get :: "cookie_pairs \<Rightarrow> bytes \<Rightarrow> bytes option" where
  "cookie_get pairs name = map_option snd (find (\<lambda>(key, _). key = name) pairs)"

definition cookie_part :: "bytes \<Rightarrow> cookie_pairs \<Rightarrow> cookie_pairs" where
  "cookie_part part pairs =
     (case split_once 0x3d part of
        None \<Rightarrow> pairs
      | Some (name, raw) \<Rightarrow>
          (let name = trim name
           in if name = [] \<or> list_ex (\<lambda>(key, _). key = name) pairs then pairs
              else pairs @ [(name, trim_matches (\<lambda>b. b = 0x22) (trim raw))]))"

definition cookie_parse :: "bytes \<Rightarrow> cookie_pairs" where
  "cookie_parse v = fold cookie_part (split_at 0x3b v) []"

fun joined :: "bytes \<Rightarrow> bytes list \<Rightarrow> bytes" where
  "joined sep [] = []"
| "joined sep [s] = s"
| "joined sep (s # ss) = s @ sep @ joined sep ss"

definition cookie_build :: "cookie_pairs \<Rightarrow> bytes" where
  "cookie_build pairs = joined (ascii ''; '') (map (\<lambda>(name, v). name @ 0x3d # v) pairs)"

subsection \<open>What a server sets\<close>

record set_cookie =
  sc_name :: bytes
  sc_value :: bytes
  sc_expires :: "bytes option"
  sc_max_age :: "int option"
  sc_domain :: "bytes option"
  sc_path :: "bytes option"
  sc_secure :: bool
  sc_httponly :: bool
  sc_samesite :: "same_site option"

definition set_cookie_new :: "bytes \<Rightarrow> bytes \<Rightarrow> set_cookie" where
  "set_cookie_new name v = \<lparr> sc_name = name, sc_value = v, sc_expires = None, sc_max_age = None, sc_domain = None,
     sc_path = None, sc_secure = False, sc_httponly = False, sc_samesite = None \<rparr>"

definition cookie_age :: "bytes \<Rightarrow> int option" where
  "cookie_age s =
     (let (sign, digits) = (case s of c # rest \<Rightarrow> if c = of_char CHR ''-'' then (- 1, rest) else (1, s) | [] \<Rightarrow> (1, s))
      in if digits = [] \<or> \<not> list_all is_digit digits then None
         else Some (sign * min I64_MAX (int (digits_value digits))))"

definition set_cookie_attribute :: "bytes \<Rightarrow> set_cookie \<Rightarrow> set_cookie" where
  "set_cookie_attribute attribute c =
     (let (key, raw) = (case split_once 0x3d attribute of
            Some (key, raw) \<Rightarrow> (lowercase (trim key), trim raw) | None \<Rightarrow> (lowercase (trim attribute), []))
      in if key = ascii ''expires'' then c\<lparr> sc_expires := Some raw \<rparr>
         else if key = ascii ''max-age'' then c\<lparr> sc_max_age := cookie_age raw \<rparr>
         else if key = ascii ''domain'' then c\<lparr> sc_domain := Some raw \<rparr>
         else if key = ascii ''path'' then c\<lparr> sc_path := Some raw \<rparr>
         else if key = ascii ''secure'' then c\<lparr> sc_secure := True \<rparr>
         else if key = ascii ''httponly'' then c\<lparr> sc_httponly := True \<rparr>
         else if key = ascii ''samesite'' then c\<lparr> sc_samesite := same_site_parse raw \<rparr>
         else c)"

definition set_cookie_parse :: "bytes \<Rightarrow> error + set_cookie" where
  "set_cookie_parse v =
     (case split_at 0x3b v of
        [] \<Rightarrow> Inl Protocol
      | pair # attributes \<Rightarrow>
          (case split_once 0x3d pair of
             None \<Rightarrow> Inl Protocol
           | Some (name, v) \<Rightarrow> Inr (fold set_cookie_attribute attributes (set_cookie_new (trim name) (trim v)))))"

definition show_int :: "int \<Rightarrow> bytes" where
  "show_int i = (if i < 0 then of_char CHR ''-'' # show_decimal (nat (- i)) else show_decimal (nat i))"

definition set_cookie_build :: "set_cookie \<Rightarrow> error + bytes" where
  "set_cookie_build c =
     (if sc_name c = [] \<or> list_ex is_separator (sc_name c) then Inl Protocol
      else if list_ex (\<lambda>b. \<not> (0x21 \<le> b \<and> b \<le> 0x7e) \<or> b \<in> set (ascii '' '' @ [0x22] @ ascii '',;'' @ [0x5c])) (sc_value c) then Inl Protocol
      else Inr (sc_name c @ 0x3d # sc_value c
        @ (case sc_expires c of Some v \<Rightarrow> ascii ''; Expires='' @ v | None \<Rightarrow> [])
        @ (case sc_max_age c of Some v \<Rightarrow> ascii ''; Max-Age='' @ show_int v | None \<Rightarrow> [])
        @ (case sc_domain c of Some v \<Rightarrow> ascii ''; Domain='' @ v | None \<Rightarrow> [])
        @ (case sc_path c of Some v \<Rightarrow> ascii ''; Path='' @ v | None \<Rightarrow> [])
        @ (if sc_secure c then ascii ''; Secure'' else [])
        @ (if sc_httponly c then ascii ''; HttpOnly'' else [])
        @ (case sc_samesite c of Some v \<Rightarrow> ascii ''; SameSite='' @ same_site_str v | None \<Rightarrow> [])))"

subsection \<open>Where a cookie belongs\<close>

record stored_cookie =
  ck_name :: bytes
  ck_value :: bytes
  ck_domain :: bytes
  ck_host_only :: bool
  ck_path :: bytes
  ck_secure :: bool
  ck_expires :: "nat option"

definition target_path :: "bytes \<Rightarrow> bytes" where
  "target_path target = takeWhile (\<lambda>b. b \<noteq> of_char CHR ''?'' \<and> b \<noteq> of_char CHR ''#'') target"

definition path_matches :: "bytes \<Rightarrow> bytes \<Rightarrow> bool" where
  "path_matches target cookie_path =
     (let request_path = target_path target
      in if request_path = cookie_path then True
         else if prefix cookie_path request_path then
           (cookie_path \<noteq> [] \<and> last cookie_path = 0x2f) \<or> prefix [0x2f] (drop (length cookie_path) request_path)
         else False)"

definition domain_matches :: "bytes \<Rightarrow> bytes \<Rightarrow> bool" where
  "domain_matches host domain =
     (if host = domain then True
      else if is_ip_addr host then False
      else domain \<noteq> [] \<and> length domain < length host \<and> suffix domain host \<and> host ! (length host - length domain - 1) = 0x2e)"

definition too_broad :: "bytes \<Rightarrow> bool" where
  "too_broad domain \<longleftrightarrow> 0x2e \<notin> set domain"

definition cookie_scope :: "bytes \<Rightarrow> bytes option \<Rightarrow> (bytes \<times> bool) option" where
  "cookie_scope host attribute =
     (case attribute of
        None \<Rightarrow> Some (host, True)
      | Some domain \<Rightarrow>
          (let domain = lowercase (dropWhile (\<lambda>b. b = 0x2e) (trim domain))
           in if domain = [] then Some (host, True)
              else if domain = host then Some (domain, False)
              else if too_broad domain \<or> \<not> domain_matches host domain then None
              else Some (domain, False)))"

definition default_path :: "bytes \<Rightarrow> bytes" where
  "default_path target =
     (case rsplit_once 0x2f (target_path target) of
        None \<Rightarrow> [0x2f]
      | Some (before, _) \<Rightarrow> if before = [] then [0x2f] else before)"

definition expired :: "nat \<Rightarrow> stored_cookie \<Rightarrow> bool" where
  "expired now c \<longleftrightarrow> (case ck_expires c of Some expiry \<Rightarrow> expiry \<le> now | None \<Rightarrow> False)"

definition cookie_matches :: "stored_cookie \<Rightarrow> url \<Rightarrow> nat \<Rightarrow> bool" where
  "cookie_matches c u now =
     (if expired now c then False
      else if ck_secure c \<and> \<not> url_secure u then False
      else let host = lowercase (url_host u)
        in (if ck_host_only c then host = ck_domain c else domain_matches host (ck_domain c)) \<and> path_matches (url_target u) (ck_path c))"

subsection \<open>The jar\<close>

record cookie_limits =
  max_cookies :: u32
  max_cookies_per_domain :: u16

record cookie_jar =
  jar_entries :: "stored_cookie list"
  jar_limits :: cookie_limits

definition cookie_limits_default :: cookie_limits where
  "cookie_limits_default = \<lparr> max_cookies = 3000, max_cookies_per_domain = 50 \<rparr>"

definition cookie_limits_of :: "limits \<Rightarrow> cookie_limits" where
  "cookie_limits_of l = \<lparr> max_cookies = lim_max_cookies l, max_cookies_per_domain = lim_max_cookies_per_domain l \<rparr>"

definition jar_new :: cookie_jar where
  "jar_new = \<lparr> jar_entries = [], jar_limits = cookie_limits_default \<rparr>"

definition jar_with_limits :: "cookie_jar \<Rightarrow> cookie_limits \<Rightarrow> cookie_jar" where
  "jar_with_limits jar l = jar\<lparr> jar_limits := l \<rparr>"

fun drop_first :: "('a \<Rightarrow> bool) \<Rightarrow> 'a list \<Rightarrow> 'a list" where
  "drop_first P [] = []"
| "drop_first P (x # xs) = (if P x then xs else x # drop_first P xs)"

fun shed :: "nat \<Rightarrow> 'a list \<Rightarrow> 'a list" where
  "shed most [] = []"
| "shed most (x # xs) = (if most \<le> length (x # xs) then shed most xs else x # xs)"

definition jar_evict :: "stored_cookie list \<Rightarrow> bytes \<Rightarrow> cookie_limits \<Rightarrow> stored_cookie list" where
  "jar_evict es domain l =
     (let same = (\<lambda>c. ck_domain c = domain);
          es = (if unat (max_cookies_per_domain l) \<le> length (filter same es) then drop_first same es else es)
      in shed (unat (max_cookies l)) es)"

definition jar_holds :: "cookie_limits \<Rightarrow> bool" where
  "jar_holds l \<longleftrightarrow> 0 < max_cookies l"

definition jar_learn_one :: "nat \<Rightarrow> url \<Rightarrow> nat \<Rightarrow> bytes \<Rightarrow> cookie_jar \<Rightarrow> cookie_jar" where
  "jar_learn_one last_instant u now v jar =
     (case set_cookie_parse v of
        Inl _ \<Rightarrow> jar
      | Inr c \<Rightarrow>
          (case cookie_scope (lowercase (url_host u)) (sc_domain c) of
             None \<Rightarrow> jar
           | Some (domain, host_only) \<Rightarrow>
               (let path = (case sc_path c of Some path \<Rightarrow> path | None \<Rightarrow> default_path (url_target u));
                    expiry = Option.bind (sc_max_age c) (\<lambda>seconds. instant_add last_instant now (nat (max 0 seconds)));
                    es = filter (\<lambda>s. \<not> (ck_name s = sc_name c \<and> ck_domain s = domain \<and> ck_path s = path)) (jar_entries jar)
                in if (case sc_max_age c of Some seconds \<Rightarrow> seconds \<le> 0 | None \<Rightarrow> False) \<or> \<not> jar_holds (jar_limits jar)
                   then jar\<lparr> jar_entries := es \<rparr>
                   else jar\<lparr> jar_entries := jar_evict (filter (\<lambda>s. \<not> expired now s) es) domain (jar_limits jar)
                     @ [\<lparr> ck_name = sc_name c, ck_value = sc_value c, ck_domain = domain, ck_host_only = host_only,
                          ck_path = path, ck_secure = sc_secure c, ck_expires = expiry \<rparr>] \<rparr>)))"

definition jar_learn :: "nat \<Rightarrow> url \<Rightarrow> nat \<Rightarrow> bytes list \<Rightarrow> cookie_jar \<Rightarrow> cookie_jar" where
  "jar_learn last_instant u now received jar = fold (jar_learn_one last_instant u now) received jar"

definition jar_cookie :: "url \<Rightarrow> nat \<Rightarrow> cookie_jar \<Rightarrow> bytes option" where
  "jar_cookie u now jar =
     (let pairs = map (\<lambda>c. ck_name c @ 0x3d # ck_value c) (filter (\<lambda>c. cookie_matches c u now) (jar_entries jar))
      in if pairs = [] then None else Some (joined (ascii ''; '') pairs))"

definition jar_prune :: "nat \<Rightarrow> cookie_jar \<Rightarrow> cookie_jar" where
  "jar_prune now jar = jar\<lparr> jar_entries := filter (\<lambda>c. \<not> expired now c) (jar_entries jar) \<rparr>"

subsection \<open>What a jar holds\<close>

definition cookie_key :: "stored_cookie \<Rightarrow> bytes \<times> bytes \<times> bytes" where
  "cookie_key c = (ck_name c, ck_domain c, ck_path c)"

definition domain_count :: "bytes \<Rightarrow> stored_cookie list \<Rightarrow> nat" where
  "domain_count d es = length (filter (\<lambda>c. ck_domain c = d) es)"

definition entries_ok :: "cookie_limits \<Rightarrow> stored_cookie list \<Rightarrow> bool" where
  "entries_ok l es \<longleftrightarrow> distinct (map cookie_key es) \<and> length es \<le> unat (max_cookies l) \<and>
     (\<forall>d. domain_count d es \<le> max 1 (unat (max_cookies_per_domain l)))"

lemma subseq_ok: "subseq xs ys \<Longrightarrow> entries_ok l ys \<Longrightarrow> entries_ok l xs"
proof -
  assume sub: "subseq xs ys" and ok: "entries_ok l ys"
  obtain N where "xs = nths ys N" using sub by (auto simp: subseq_conv_nths)
  then have "distinct (map cookie_key xs)" using ok distinct_nthsI [of "map cookie_key ys" N] by (simp add: entries_ok_def nths_map)
  moreover have "domain_count d xs \<le> domain_count d ys" for d
    unfolding domain_count_def by (rule list_emb_length [OF subseq_filter [OF sub]])
  ultimately show "entries_ok l xs" using ok list_emb_length [OF sub] by (auto simp: entries_ok_def intro: order_trans)
qed

lemma subseq_members: "subseq xs ys \<Longrightarrow> set xs \<subseteq> set ys"
  by (auto simp: subseq_conv_nths dest: in_set_nthsD)

lemma shed_subseq: "subseq (shed most xs) xs"
  by (induction xs) (auto intro: list_emb_Cons)

lemma shed_length: "length (shed most xs) < most \<or> shed most xs = []"
  by (induction xs) auto

lemma drop_first_subseq: "subseq (drop_first P xs) xs"
  by (induction xs) auto

lemma drop_first_count: "filter P xs \<noteq> [] \<Longrightarrow> length (filter P (drop_first P xs)) = length (filter P xs) - 1"
  by (induction xs) (auto simp: Suc_diff_le split: if_splits)

inductive jar_run :: "cookie_limits \<Rightarrow> cookie_jar \<Rightarrow> bool" for l where
  start: "jar_run l (jar_with_limits jar_new l)"
| learn: "jar_run l jar \<Longrightarrow> jar_run l (jar_learn last_instant u now received jar)"
| prune: "jar_run l jar \<Longrightarrow> jar_run l (jar_prune now jar)"

lemma filter_ok: "entries_ok l es \<Longrightarrow> entries_ok l (filter P es)"
  using subseq_ok [OF subseq_filter_left] .

lemma jar_evict_ok:
  assumes "entries_ok l es"
  shows "entries_ok l (jar_evict es domain l)" "subseq (jar_evict es domain l) es"
    "domain_count domain (jar_evict es domain l) < max 1 (unat (max_cookies_per_domain l))"
    "length (jar_evict es domain l) < unat (max_cookies l) \<or> jar_evict es domain l = []"
proof -
  let ?same = "\<lambda>c. ck_domain c = domain"
  obtain fs where fs: "fs = (if unat (max_cookies_per_domain l) \<le> length (filter ?same es) then drop_first ?same es else es)" by simp
  have evict: "jar_evict es domain l = shed (unat (max_cookies l)) fs" by (simp add: jar_evict_def fs Let_def)
  have "subseq fs es" unfolding fs using drop_first_subseq by auto
  then show sub: "subseq (jar_evict es domain l) es" unfolding evict using shed_subseq subseq_order.trans by blast
  show "entries_ok l (jar_evict es domain l)" using subseq_ok [OF sub assms] .
  show "length (jar_evict es domain l) < unat (max_cookies l) \<or> jar_evict es domain l = []"
    unfolding evict using shed_length [of "unat (max_cookies l)" fs] by simp
  have most: "length (filter ?same es) \<le> max 1 (unat (max_cookies_per_domain l))" using assms by (simp add: entries_ok_def domain_count_def)
  have "length (filter ?same fs) < max 1 (unat (max_cookies_per_domain l))"
  proof (cases "unat (max_cookies_per_domain l) \<le> length (filter ?same es)")
    case True
    show ?thesis
    proof (cases "filter ?same es = []")
      case empty: True
      have "subseq (filter ?same fs) (filter ?same es)" using \<open>subseq fs es\<close> by (rule subseq_filter)
      then have "length (filter ?same fs) \<le> length (filter ?same es)" by (rule list_emb_length)
      then show ?thesis using empty by simp
    next
      case False
      then have "length (filter ?same fs) = length (filter ?same es) - 1" using True drop_first_count [OF False] by (simp add: fs)
      then show ?thesis using most False by (cases "filter ?same es") auto
    qed
  next
    case False
    then show ?thesis by (simp add: fs)
  qed
  moreover have "subseq (filter ?same (jar_evict es domain l)) (filter ?same fs)" unfolding evict by (intro subseq_filter shed_subseq)
  then have "length (filter ?same (jar_evict es domain l)) \<le> length (filter ?same fs)" by (rule list_emb_length)
  ultimately show "domain_count domain (jar_evict es domain l) < max 1 (unat (max_cookies_per_domain l))" by (simp add: domain_count_def)
qed

lemma entries_ok_push:
  assumes "entries_ok l es" "cookie_key c \<notin> cookie_key ` set es" "domain_count (ck_domain c) es < max 1 (unat (max_cookies_per_domain l))"
    and "length es < unat (max_cookies l) \<or> es = []" "max_cookies l \<noteq> 0"
  shows "entries_ok l (es @ [c])"
proof -
  have "0 < unat (max_cookies l)" using assms(5) by (simp add: unat_gt_0)
  then show ?thesis using assms(1-4) by (auto simp: entries_ok_def domain_count_def)
qed

lemma jar_learn_one_ok:
  assumes "entries_ok (jar_limits jar) (jar_entries jar)"
  shows "entries_ok (jar_limits jar) (jar_entries (jar_learn_one last_instant u now v jar))"
    "jar_limits (jar_learn_one last_instant u now v jar) = jar_limits jar"
    "c \<in> set (jar_entries (jar_learn_one last_instant u now v jar)) \<Longrightarrow> c \<in> set (jar_entries jar) \<or>
       (\<exists>attribute. cookie_scope (lowercase (url_host u)) attribute = Some (ck_domain c, ck_host_only c))"
proof -
  let ?l = "jar_limits jar" and ?new = "jar_learn_one last_instant u now v jar"
  have "entries_ok ?l (jar_entries ?new) \<and> jar_limits ?new = ?l \<and>
      (c \<in> set (jar_entries ?new) \<longrightarrow> c \<in> set (jar_entries jar) \<or>
        (\<exists>attribute. cookie_scope (lowercase (url_host u)) attribute = Some (ck_domain c, ck_host_only c)))"
  proof (cases "set_cookie_parse v")
    case (Inr sc)
    show ?thesis
    proof (cases "cookie_scope (lowercase (url_host u)) (sc_domain sc)")
      case None
      then show ?thesis using Inr assms by (simp add: jar_learn_one_def)
    next
      case (Some scope)
      obtain domain host_only where scope: "cookie_scope (lowercase (url_host u)) (sc_domain sc) = Some (domain, host_only)"
        using Some by (cases scope) simp
      define path where "path = (case sc_path sc of Some path \<Rightarrow> path | None \<Rightarrow> default_path (url_target u))"
      define es where "es = filter (\<lambda>s. \<not> (ck_name s = sc_name sc \<and> ck_domain s = domain \<and> ck_path s = path)) (jar_entries jar)"
      define expiry where "expiry = Option.bind (sc_max_age sc) (\<lambda>seconds. instant_add last_instant now (nat (max 0 seconds)))"
      define c' where "c' = \<lparr> ck_name = sc_name sc, ck_value = sc_value sc, ck_domain = domain, ck_host_only = host_only,
          ck_path = path, ck_secure = sc_secure sc, ck_expires = expiry \<rparr>"
      let ?kept = "jar_evict (filter (\<lambda>s. \<not> expired now s) es) domain ?l"
      let ?off = "(case sc_max_age sc of Some seconds \<Rightarrow> seconds \<le> 0 | None \<Rightarrow> False) \<or> \<not> jar_holds ?l"
      have learn: "?new = (if ?off then jar\<lparr> jar_entries := es \<rparr> else jar\<lparr> jar_entries := ?kept @ [c'] \<rparr>)"
        unfolding jar_learn_one_def Inr sum.case scope option.case prod.case Let_def c'_def expiry_def es_def path_def by (rule refl)
      have ok: "entries_ok ?l (filter (\<lambda>s. \<not> expired now s) es)" unfolding es_def using assms by (intro filter_ok)
      note kept = jar_evict_ok [OF ok, of domain]
      have sub: "set ?kept \<subseteq> set es" using subseq_members [OF kept(2)] by auto
      then have "cookie_key c' \<notin> cookie_key ` set ?kept" by (auto simp: es_def c'_def cookie_key_def)
      then have "entries_ok ?l (?kept @ [c'])" if "jar_holds ?l"
        using entries_ok_push [OF kept(1) _ _ kept(4), of c'] kept(3) that by (simp add: c'_def jar_holds_def)
      moreover have "entries_ok ?l es" unfolding es_def using assms by (rule filter_ok)
      moreover have "set es \<subseteq> set (jar_entries jar)" by (auto simp: es_def)
      ultimately show ?thesis using scope sub unfolding learn by (auto simp: c'_def)
    qed
  qed (use assms in \<open>simp add: jar_learn_one_def\<close>)
  then show "entries_ok ?l (jar_entries ?new)" "jar_limits ?new = ?l"
    "c \<in> set (jar_entries ?new) \<Longrightarrow> c \<in> set (jar_entries jar) \<or>
       (\<exists>attribute. cookie_scope (lowercase (url_host u)) attribute = Some (ck_domain c, ck_host_only c))"
    by auto
qed

lemma jar_learn_ok:
  assumes "entries_ok (jar_limits jar) (jar_entries jar)"
  shows "entries_ok (jar_limits jar) (jar_entries (jar_learn last_instant u now received jar)) \<and>
    jar_limits (jar_learn last_instant u now received jar) = jar_limits jar \<and>
    (\<forall>c \<in> set (jar_entries (jar_learn last_instant u now received jar)) - set (jar_entries jar).
       \<exists>attribute. cookie_scope (lowercase (url_host u)) attribute = Some (ck_domain c, ck_host_only c))"
  using assms
proof (induction received arbitrary: jar)
  case (Cons v vs)
  let ?one = "jar_learn_one last_instant u now v jar"
  note one = jar_learn_one_ok [OF Cons.prems, where u = u and v = v and last_instant = last_instant and now = now]
  have "jar_learn last_instant u now (v # vs) jar = jar_learn last_instant u now vs ?one" by (simp add: jar_learn_def)
  then show ?case using Cons.IH [of ?one] one(1,2) one(3) by auto
qed (simp add: jar_learn_def)

lemma jar_run_ok: "jar_run l jar \<Longrightarrow> jar_limits jar = l \<and> entries_ok l (jar_entries jar)"
proof (induction rule: jar_run.induct)
  case start
  then show ?case by (simp add: jar_new_def jar_with_limits_def entries_ok_def domain_count_def)
next
  case (learn jar last_instant u now received)
  then show ?case using jar_learn_ok [of jar last_instant u now received] by simp
next
  case (prune jar now)
  then show ?case by (simp add: jar_prune_def filter_ok)
qed






subsection \<open>Properties\<close>

text \<open>C33: whatever responses a jar has learnt from and however often it is pruned, it holds no more cookies
  than its ceiling, no two of the same name, domain and path, and no more for one domain than a ceiling
  of a domain above zero; under one of zero it still keeps one cookie for each.\<close>

theorem jar_bounded:
  assumes "jar_run l jar"
  shows "jar_limits jar = l \<and> length (jar_entries jar) \<le> unat (max_cookies l) \<and> distinct (map cookie_key (jar_entries jar)) \<and>
    (\<forall>domain. domain_count domain (jar_entries jar) \<le> (if max_cookies_per_domain l = 0 then 1 else unat (max_cookies_per_domain l)))"
proof -
  have "max 1 (unat (max_cookies_per_domain l)) = (if max_cookies_per_domain l = 0 then 1 else unat (max_cookies_per_domain l))"
    by (simp add: unat_eq_zero max_def Suc_le_eq word_gt_0)
  then show ?thesis using jar_run_ok [OF assms] by (simp add: entries_ok_def)
qed

theorem jar_bounded_witness:
  "length (jar_entries (jar_learn 9 \<lparr> url_scheme = [], url_host = [0x68], url_port = 80, url_target = [0x2f] \<rparr> 1 [[0x61, 0x3d, 0x62]]
     (jar_with_limits jar_new \<lparr> max_cookies = 1, max_cookies_per_domain = 1 \<rparr>))) \<le> 1"
  using jar_bounded [OF jar_run.learn [OF jar_run.start [of "\<lparr> max_cookies = 1, max_cookies_per_domain = 1 \<rparr>"]],
      of 9 "\<lparr> url_scheme = [], url_host = [0x68], url_port = 80, url_target = [0x2f] \<rparr>" 1 "[[0x61, 0x3d, 0x62]]"] by simp



text \<open>A path that is set is written as it is, and so may carry further attributes.\<close>

lemma cookie_path_injects:
  "res_bind (set_cookie_build ((set_cookie_new (ascii ''a'') (ascii ''b''))\<lparr> sc_path := Some (ascii ''/; Domain=x.y'') \<rparr>)) set_cookie_parse =
     Inr ((set_cookie_new (ascii ''a'') (ascii ''b''))\<lparr> sc_path := Some (ascii ''/''), sc_domain := Some (ascii ''x.y'') \<rparr>)"
  by code_simp

end
