(* ===== verification/Ws_Frames.thy ===== *)
theory Ws_Frames
  imports Machine Errors Text_Type
begin

section \<open>WebSocket frames (src/src/websocket.rs)\<close>

text \<open>
  Frames on and off the wire: opcodes, close codes, the header, the mask. A masking key is four
  octets; where it comes from is left out. A payload split off a buffer and a copy of it are the same
  octets, and words are read in little-endian order, which the exclusive or does not depend on.
\<close>

definition MAXIMUM_CONTROL_PAYLOAD :: nat where "MAXIMUM_CONTROL_PAYLOAD = 125"

datatype opcode = WsContinuation | WsText | WsBinary | WsClose | WsPing | WsPong

fun opcode_code :: "opcode \<Rightarrow> octet" where
  "opcode_code WsContinuation = 0x0"
| "opcode_code WsText = 0x1"
| "opcode_code WsBinary = 0x2"
| "opcode_code WsClose = 0x8"
| "opcode_code WsPing = 0x9"
| "opcode_code WsPong = 0xa"

definition opcode_from_code :: "octet \<Rightarrow> opcode option" where
  "opcode_from_code code =
     (if code = 0x0 then Some WsContinuation
      else if code = 0x1 then Some WsText
      else if code = 0x2 then Some WsBinary
      else if code = 0x8 then Some WsClose
      else if code = 0x9 then Some WsPing
      else if code = 0xa then Some WsPong
      else None)"

definition opcode_control :: "opcode \<Rightarrow> bool" where
  "opcode_control opcode \<longleftrightarrow> opcode_code opcode AND 0x8 \<noteq> 0"

datatype close_code =
    CloseNormal | GoingAway | CloseProtocol | UnsupportedData | InvalidPayload | PolicyViolation
  | MessageTooBig | MandatoryExtension | CloseInternal

fun close_number :: "close_code \<Rightarrow> u16" where
  "close_number CloseNormal = 1000"
| "close_number GoingAway = 1001"
| "close_number CloseProtocol = 1002"
| "close_number UnsupportedData = 1003"
| "close_number InvalidPayload = 1007"
| "close_number PolicyViolation = 1008"
| "close_number MessageTooBig = 1009"
| "close_number MandatoryExtension = 1010"
| "close_number CloseInternal = 1011"

definition close_from_number :: "u16 \<Rightarrow> close_code option" where
  "close_from_number code =
     (if code = 1000 then Some CloseNormal
      else if code = 1001 then Some GoingAway
      else if code = 1002 then Some CloseProtocol
      else if code = 1003 then Some UnsupportedData
      else if code = 1007 then Some InvalidPayload
      else if code = 1008 then Some PolicyViolation
      else if code = 1009 then Some MessageTooBig
      else if code = 1010 then Some MandatoryExtension
      else if code = 1011 then Some CloseInternal
      else None)"

definition close_permitted :: "u16 \<Rightarrow> bool" where
  "close_permitted code \<longleftrightarrow> close_from_number code \<noteq> None \<or> 3000 \<le> code \<and> code < 5000"

subsection \<open>The mask\<close>

type_synonym mask_key = "octet \<times> octet \<times> octet \<times> octet"

fun key_octets :: "mask_key \<Rightarrow> bytes" where
  "key_octets (a, b, c, d) = [a, b, c, d]"

definition mask_chunk :: "mask_key \<Rightarrow> bytes \<Rightarrow> bytes" where
  "mask_chunk key chunk = to_le_bytes (from_le_bytes chunk XOR from_le_bytes (key_octets key @ key_octets key) :: u64)"

definition mask_tail :: "mask_key \<Rightarrow> bytes \<Rightarrow> bytes" where
  "mask_tail key octets = map (\<lambda>(offset, octet). octet XOR key_octets key ! (take_bit 2 offset)) (enumerate 0 octets)"

definition apply_mask :: "mask_key \<Rightarrow> bytes \<Rightarrow> bytes" where
  "apply_mask key payload = concat (map (mask_chunk key) (chunks_exact 8 payload)) @ mask_tail key (chunks_remainder 8 payload)"

subsection \<open>Headers\<close>

record ws_head =
  head_fin :: bool
  head_opcode :: opcode
  head_mask :: "mask_key option"
  head_start :: nat
  head_length :: nat

definition octets_at :: "nat \<Rightarrow> bytes \<Rightarrow> nat \<Rightarrow> bytes option" where
  "octets_at n data offset = (if USIZE_MAX < offset + n then None else get_range data offset (offset + n))"

text \<open>Where the payload or the key starts and how long the payload is; nothing where that has not arrived.\<close>

definition ws_length :: "bytes \<Rightarrow> error + (nat \<times> u64) option" where
  "ws_length data =
     (let len = data ! 1 AND 0x7f
      in if len = 126 then Inr (map_option (\<lambda>octets. (4, ucast (from_be_bytes octets :: u16))) (octets_at 2 data 2))
         else if len = 127 then
           (case octets_at 8 data 2 of
              None \<Rightarrow> Inr None
            | Some octets \<Rightarrow>
                (let len = from_be_bytes octets :: u64
                 in if len AND 0x8000000000000000 \<noteq> 0 then Inl Protocol else Inr (Some (10, len))))
         else Inr (Some (2, ucast len)))"

definition ws_key :: "bool \<Rightarrow> bytes \<Rightarrow> nat \<Rightarrow> (nat \<times> mask_key option) option" where
  "ws_key masked data start =
     (if masked then map_option (\<lambda>key. (start + 4, Some (key ! 0, key ! 1, key ! 2, key ! 3))) (octets_at 4 data start)
      else Some (start, None))"

definition head_decode :: "bytes \<Rightarrow> error + ws_head option" where
  "head_decode data =
     (if length data < 2 then Inr None
      else if data ! 0 AND 0x70 \<noteq> 0 then Inl Protocol
      else case opcode_from_code (data ! 0 AND 0x0f) of
          None \<Rightarrow> Inl Protocol
        | Some opcode \<Rightarrow>
            (let fin = (data ! 0 AND 0x80 \<noteq> 0); masked = (data ! 1 AND 0x80 \<noteq> 0)
             in case ws_length data of
                  Inl e \<Rightarrow> Inl e
                | Inr None \<Rightarrow> Inr None
                | Inr (Some (start, len)) \<Rightarrow>
                    if opcode_control opcode \<and> word_of_nat MAXIMUM_CONTROL_PAYLOAD < len then Inl Protocol
                    else if opcode_control opcode \<and> \<not> fin then Inl Protocol
                    else case ws_key masked data start of
                        None \<Rightarrow> Inr None
                      | Some (start, key) \<Rightarrow>
                          if USIZE_MAX < start + unat len \<or> length data < start + unat len then Inr None
                          else Inr (Some \<lparr> head_fin = fin, head_opcode = opcode, head_mask = key,
                                           head_start = start, head_length = unat len \<rparr>)))"

subsection \<open>Frames\<close>

record ws_frame =
  ws_fin :: bool
  ws_opcode :: opcode
  ws_mask :: "mask_key option"
  ws_payload :: bytes

definition ws_new :: "opcode \<Rightarrow> bytes \<Rightarrow> ws_frame" where
  "ws_new opcode payload = \<lparr> ws_fin = True, ws_opcode = opcode, ws_mask = None, ws_payload = payload \<rparr>"

definition length_field :: "bool \<Rightarrow> nat \<Rightarrow> bytes" where
  "length_field is_masked len =
     (let masked = push_bit 7 (if is_masked then 1 else 0)
      in if len \<le> 125 then [masked OR word_of_nat len]
         else if len \<le> 65535 then (masked OR 126) # to_be_bytes (word_of_nat len :: u16)
         else (masked OR 127) # to_be_bytes (word_of_nat len :: u64))"

definition ws_encode_into :: "ws_frame \<Rightarrow> bytes \<Rightarrow> bytes" where
  "ws_encode_into f out =
     out @ [push_bit 7 (if ws_fin f then 1 else 0) OR opcode_code (ws_opcode f)]
     @ length_field (ws_mask f \<noteq> None) (length (ws_payload f))
     @ (case ws_mask f of Some key \<Rightarrow> key_octets key @ apply_mask key (ws_payload f) | None \<Rightarrow> ws_payload f)"

definition ws_encode :: "ws_frame \<Rightarrow> bytes" where
  "ws_encode f = ws_encode_into f []"

definition unmask :: "mask_key option \<Rightarrow> bytes \<Rightarrow> bytes" where
  "unmask key payload = (case key of Some key \<Rightarrow> apply_mask key payload | None \<Rightarrow> payload)"

definition ws_decode :: "bytes \<Rightarrow> error + (nat \<times> ws_frame) option" where
  "ws_decode data =
     (case head_decode data of
        Inl e \<Rightarrow> Inl e
      | Inr None \<Rightarrow> Inr None
      | Inr (Some head) \<Rightarrow>
          (let finish = head_start head + head_length head;
               payload = take (head_length head) (drop (head_start head) data)
           in Inr (Some (finish, \<lparr> ws_fin = head_fin head, ws_opcode = head_opcode head, ws_mask = head_mask head,
                                  ws_payload = unmask (head_mask head) payload \<rparr>))))"

text \<open>The frame taken off a buffer, and the buffer left.\<close>

definition ws_take :: "bytes \<Rightarrow> bytes \<times> (error + ws_frame option)" where
  "ws_take buffer =
     (case head_decode buffer of
        Inl e \<Rightarrow> (buffer, Inl e)
      | Inr None \<Rightarrow> (buffer, Inr None)
      | Inr (Some head) \<Rightarrow>
          (let rest = drop (head_start head) buffer
           in (drop (head_length head) rest,
               Inr (Some \<lparr> ws_fin = head_fin head, ws_opcode = head_opcode head, ws_mask = head_mask head,
                          ws_payload = unmask (head_mask head) (take (head_length head) rest) \<rparr>))))"

subsection \<open>The mask octet by octet\<close>

fun masked_from :: "nat \<Rightarrow> mask_key \<Rightarrow> bytes \<Rightarrow> bytes" where
  "masked_from i key [] = []"
| "masked_from i key (b # bs) = (b XOR key_octets key ! (i mod 4)) # masked_from (Suc i) key bs"

lemma masked_from_twice [simp]: "masked_from i key (masked_from i key bs) = bs"
  by (induction bs arbitrary: i) (simp_all add: xor.assoc)

lemma length_masked_from [simp]: "length (masked_from i key bs) = length bs"
  by (induction bs arbitrary: i) simp_all

lemma masked_from_append: "masked_from i key (xs @ ys) = masked_from i key xs @ masked_from (i + length xs) key ys"
  by (induction xs arbitrary: i) simp_all

lemma masked_from_period: "masked_from (i + 8) key bs = masked_from i key bs"
proof (induction bs arbitrary: i)
  case (Cons b bs)
  have "(i + 8) mod 4 = i mod 4" by presburger
  then show ?case using Cons [of "Suc i"] by simp
qed simp

lemma from_le_bytes_xor:
  "length xs = length ys \<Longrightarrow> from_le_bytes (map2 (XOR) xs ys) = (from_le_bytes xs XOR from_le_bytes ys :: 'a::len word)"
  by (induction xs ys rule: list_induct2) (auto simp: bit_eq_iff bit_simps)

lemma mask_chunk_spec:
  assumes "length chunk = 8"
  shows "mask_chunk key chunk = masked_from 0 key chunk"
proof -
  obtain a b c d where key: "key = (a, b, c, d)" by (cases key)
  have "mask_chunk key chunk = map2 (XOR) chunk (key_octets key @ key_octets key)"
    unfolding mask_chunk_def using assms key
    by (subst from_le_bytes_xor [symmetric]) (simp_all add: to_from_le_bytes)
  moreover obtain y0 y1 y2 y3 y4 y5 y6 y7 where "chunk = [y0, y1, y2, y3, y4, y5, y6, y7]"
    using assms by (auto simp: numeral_eq_Suc length_Suc_conv)
  moreover have "masked_from 0 (a, b, c, d) [y0, y1, y2, y3, y4, y5, y6, y7] =
      [y0 XOR a, y1 XOR b, y2 XOR c, y3 XOR d, y4 XOR a, y5 XOR b, y6 XOR c, y7 XOR d]" for y0 y1 y2 y3 y4 y5 y6 y7
    by (simp add: mod_Suc)
  ultimately show ?thesis using key by simp
qed

lemma mask_tail_spec: "mask_tail key octets = masked_from 0 key octets"
proof -
  have "map (\<lambda>(offset, octet). octet XOR key_octets key ! (take_bit 2 offset)) (enumerate i octets) = masked_from i key octets" for i
    by (induction octets arbitrary: i) (simp_all add: take_bit_eq_mod)
  then show ?thesis by (simp add: mask_tail_def)
qed

lemma apply_mask_spec: "apply_mask key payload = masked_from 0 key payload"
proof -
  have "0 < (8 :: nat)" by simp
  then show ?thesis
  proof (induction payload rule: chunks_induct)
  case (short xs)
  then show ?case by (simp add: apply_mask_def mask_tail_spec)
next
  case (chunk ys zs)
  then show ?case using masked_from_period [of 0 key zs]
    by (simp add: apply_mask_def chunks_exact_append chunks_remainder_append mask_chunk_spec masked_from_append)
  qed
qed

lemma unmask_twice [simp]: "unmask key (unmask key payload) = payload"
  by (cases key) (simp_all add: unmask_def apply_mask_spec)

lemma length_unmask [simp]: "length (unmask key payload) = length payload"
  by (cases key) (simp_all add: unmask_def apply_mask_spec)

subsection \<open>Headers read back\<close>

lemma ws_first_octet:
  fixes opcode :: opcode and fin :: bool
  defines "b \<equiv> push_bit 7 (if fin then 1 else 0) OR opcode_code opcode"
  shows "b AND 0x70 = 0" "opcode_from_code (b AND 0x0f) = Some opcode" "b AND 0x80 \<noteq> 0 \<longleftrightarrow> fin"
  unfolding b_def by (cases opcode; cases fin; simp add: opcode_from_code_def)+

lemma ws_second_octet:
  fixes w :: octet
  assumes "w \<le> 127"
  shows "(push_bit 7 (if m then 1 else 0) OR w) AND 0x7f = w" "(push_bit 7 (if m then 1 else 0) OR w) AND 0x80 \<noteq> 0 \<longleftrightarrow> m"
proof -
  have "w \<le> 127 \<longrightarrow> \<not> bit w 7" by (rule octet_all [where b = w]) code_simp
  then have "\<not> bit w 7" using assms by simp
  then show "(push_bit 7 (if m then 1 else 0) OR w) AND 0x7f = w"
    unfolding octet_eq_bits all_less_8 by (cases m) (simp_all add: bit_simps)
  show "(push_bit 7 (if m then 1 else 0) OR w) AND 0x80 \<noteq> 0 \<longleftrightarrow> m"
    using \<open>\<not> bit w 7\<close> and_exp_eq_0_iff_not_bit [of "push_bit 7 (if m then 1 else 0) OR w" 7] by (simp add: bit_simps)
qed

lemma octets_at_here:
  "length ys = n \<Longrightarrow> length xs + n \<le> 64 \<Longrightarrow> at = length xs \<Longrightarrow> octets_at n (xs @ ys @ zs) at = Some ys"
  by (simp add: octets_at_def get_range_def USIZE_MAX_def)

lemma octets_at_short: "length data < at + n \<Longrightarrow> octets_at n data at = None"
  by (simp add: octets_at_def get_range_def)

lemma length_field_read:
  assumes "n < 2 ^ 63"
  obtains w ext where "length_field m n = (push_bit 7 (if m then 1 else 0) OR w) # ext" "w \<le> 127"
    "\<And>b tail. ws_length (b # (push_bit 7 (if m then 1 else 0) OR w) # ext @ tail) = Inr (Some (2 + length ext, word_of_nat n))"
    "\<And>b k. k < length ext \<Longrightarrow> ws_length (b # (push_bit 7 (if m then 1 else 0) OR w) # take k ext) = Inr None"
    "length ext \<le> 8"
proof -
  let ?p = "push_bit 7 (if m then 1 else 0) :: octet"
  consider "n \<le> 125" | "125 < n" "n \<le> 65535" | "65535 < n" by linarith
  then show thesis
  proof cases
    case 1
    then have w: "(word_of_nat n :: octet) \<le> 125" by (simp add: word_le_nat_alt unat_of_nat)
    then have le: "(word_of_nat n :: octet) \<le> 127" by (rule order_trans) simp
    have neq: "(word_of_nat n :: octet) \<noteq> 126" "(word_of_nat n :: octet) \<noteq> 127" using w by auto
    have "ucast (word_of_nat n :: octet) = (word_of_nat n :: u64)"
      using 1 by (intro word_unat_eq_iff [THEN iffD2]) (simp add: unsigned_ucast_eq take_bit_nat_eq_self unat_of_nat)
    with that [of "word_of_nat n" "[]"] show thesis
      using 1 le neq ws_second_octet(1) [OF le, of m] by (simp add: length_field_def ws_length_def Let_def)
  next
    case 2
    let ?ext = "to_be_bytes (word_of_nat n :: u16)"
    have len: "length ?ext = 2" by (simp add: length_simps)
    have val: "ucast (word_of_nat n :: u16) = (word_of_nat n :: u64)"
      using 2 by (intro word_unat_eq_iff [THEN iffD2]) (simp add: unsigned_ucast_eq take_bit_nat_eq_self unat_of_nat)
    have "octets_at 2 (b # c # ?ext @ tail) 2 = Some ?ext" for b c tail
      using octets_at_here [of ?ext 2 "[b, c]" 2 tail] len by simp
    moreover have "octets_at 2 (b # c # take k ?ext) 2 = None" if "k < 2" for b c k
      using that len by (intro octets_at_short) simp
    ultimately show thesis
      using 2 that [of 126 ?ext] ws_second_octet(1) [of 126 m] len val
      by (simp add: length_field_def ws_length_def Let_def from_to_be_bytes)
  next
    case 3
    let ?ext = "to_be_bytes (word_of_nat n :: u64)"
    have len: "length ?ext = 8" by (simp add: length_simps)
    have "unat (take_bit 63 (word_of_nat n :: u64)) = unat (word_of_nat n :: u64)"
      using assms by (simp add: unsigned_take_bit_eq take_bit_nat_eq_self unat_of_nat)
    then have "take_bit 63 (word_of_nat n :: u64) = word_of_nat n" by (simp only: word_unat_eq_iff)
    then have "\<not> bit (word_of_nat n :: u64) 63" by (metis bit_take_bit_iff less_irrefl)
    then have top: "(word_of_nat n :: u64) AND 0x8000000000000000 = 0"
      using and_exp_eq_0_iff_not_bit [of "word_of_nat n :: u64" 63] by simp
    have "octets_at 8 (b # c # ?ext @ tail) 2 = Some ?ext" for b c tail
      using octets_at_here [of ?ext 8 "[b, c]" 2 tail] len by simp
    moreover have "octets_at 8 (b # c # take k ?ext) 2 = None" if "k < 8" for b c k
      using that len by (intro octets_at_short) simp
    ultimately show thesis
      using 3 that [of 127 ?ext] ws_second_octet(1) [of 127 m] len top
      by (simp add: length_field_def ws_length_def Let_def from_to_be_bytes)
  qed
qed

text \<open>What a frame may be: its length has a place, and a control frame is short and whole.\<close>

definition ws_frame_ok :: "ws_frame \<Rightarrow> bool" where
  "ws_frame_ok f \<longleftrightarrow> length (ws_payload f) < 2 ^ 63 \<and>
     (opcode_control (ws_opcode f) \<longrightarrow> ws_fin f \<and> length (ws_payload f) \<le> MAXIMUM_CONTROL_PAYLOAD)"

definition key_field :: "mask_key option \<Rightarrow> bytes" where
  "key_field key = (case key of Some key \<Rightarrow> key_octets key | None \<Rightarrow> [])"

lemma ws_encode_parts:
  "ws_encode f = (push_bit 7 (if ws_fin f then 1 else 0) OR opcode_code (ws_opcode f))
     # length_field (ws_mask f \<noteq> None) (length (ws_payload f)) @ key_field (ws_mask f) @ unmask (ws_mask f) (ws_payload f)"
  by (simp add: ws_encode_def ws_encode_into_def key_field_def unmask_def split: option.split)

lemma length_key_field: "length (key_field key) = (if key = None then 0 else 4)"
  by (cases key) (auto simp: key_field_def)

lemma ws_key_read: "at = length xs \<Longrightarrow> length xs \<le> 10 \<Longrightarrow> ws_key (key \<noteq> None) (xs @ key_field key @ zs) at = Some (at + length (key_field key), key)"
  using octets_at_here [of "key_field key" 4 xs at zs]
  by (cases key) (auto simp: ws_key_def key_field_def USIZE_MAX_def)

lemma ws_key_short: "length data < at + length (key_field key) \<Longrightarrow> at \<le> length data \<Longrightarrow> ws_key (key \<noteq> None) data at = None"
  using octets_at_short [of data at 4] by (cases key) (auto simp: ws_key_def length_key_field)

lemma head_decode_encode:
  assumes "ws_frame_ok f"
  shows "head_decode (ws_encode f @ rest) = Inr (Some \<lparr> head_fin = ws_fin f, head_opcode = ws_opcode f, head_mask = ws_mask f,
      head_start = length (ws_encode f) - length (ws_payload f), head_length = length (ws_payload f) \<rparr>)"
    and "n < length (ws_encode f) \<Longrightarrow> head_decode (take n (ws_encode f)) = Inr None"
proof -
  obtain m where m: "m = (ws_mask f \<noteq> None)" by simp
  let ?n = "length (ws_payload f)" and ?key = "key_field (ws_mask f)"
  let ?payload = "unmask (ws_mask f) (ws_payload f)"
  have small: "?n < 2 ^ 63" using assms by (simp add: ws_frame_ok_def)
  obtain b where b: "b = push_bit 7 (if ws_fin f then 1 else 0) OR opcode_code (ws_opcode f)" by simp
  obtain w ext where w: "length_field m ?n = (push_bit 7 (if m then 1 else 0) OR w) # ext" "w \<le> 127"
    "\<And>b tail. ws_length (b # (push_bit 7 (if m then 1 else 0) OR w) # ext @ tail) = Inr (Some (2 + length ext, word_of_nat ?n))"
    "\<And>b k. k < length ext \<Longrightarrow> ws_length (b # (push_bit 7 (if m then 1 else 0) OR w) # take k ext) = Inr None"
    "length ext \<le> 8"
    using length_field_read [OF small, of m] by metis
  obtain c where c: "c = push_bit 7 (if m then 1 else 0) OR w" by simp
  have enc: "ws_encode f = b # c # ext @ ?key @ ?payload" unfolding ws_encode_parts m [symmetric] w(1) b c by simp
  have first: "b AND 0x70 = 0" "opcode_from_code (b AND 0x0f) = Some (ws_opcode f)" "(b AND 0x80 \<noteq> 0) = ws_fin f"
    using ws_first_octet [of "ws_fin f" "ws_opcode f"] by (simp_all add: b)
  have second: "(c AND 0x80 \<noteq> 0) = m" using ws_second_octet(2) [OF w(2), of m] by (simp only: c)
  have val: "unat (word_of_nat ?n :: u64) = ?n" using small by (simp add: unat_of_nat)
  have ctl: "\<not> (opcode_control (ws_opcode f) \<and> word_of_nat MAXIMUM_CONTROL_PAYLOAD < (word_of_nat ?n :: u64))"
    "\<not> (opcode_control (ws_opcode f) \<and> \<not> ws_fin f)"
    using assms val by (auto simp: ws_frame_ok_def word_less_nat_alt MAXIMUM_CONTROL_PAYLOAD_def)
  have fits: "2 + length ext + length ?key + ?n \<le> USIZE_MAX" using small w(5) by (simp add: length_key_field USIZE_MAX_def)
  have head: "head_decode (b # c # more) = (case ws_length (b # c # more) of Inl e \<Rightarrow> Inl e | Inr None \<Rightarrow> Inr None
      | Inr (Some (start, len)) \<Rightarrow>
          if opcode_control (ws_opcode f) \<and> word_of_nat MAXIMUM_CONTROL_PAYLOAD < len then Inl Protocol
          else if opcode_control (ws_opcode f) \<and> \<not> ws_fin f then Inl Protocol
          else case ws_key m (b # c # more) start of None \<Rightarrow> Inr None
            | Some (start, key) \<Rightarrow> if USIZE_MAX < start + unat len \<or> length (b # c # more) < start + unat len then Inr None
                else Inr (Some \<lparr> head_fin = ws_fin f, head_opcode = ws_opcode f, head_mask = key, head_start = start, head_length = unat len \<rparr>))" for more
    unfolding head_decode_def using first second by (simp add: Let_def)
  have key: "ws_key m (b # c # ext @ ?key @ zs) (2 + length ext) = Some (2 + length ext + length ?key, ws_mask f)" for zs
    using ws_key_read [of "2 + length ext" "b # c # ext" "ws_mask f" zs, folded m] w(5) by simp
  show "head_decode (ws_encode f @ rest) = Inr (Some \<lparr> head_fin = ws_fin f, head_opcode = ws_opcode f, head_mask = ws_mask f,
      head_start = length (ws_encode f) - length (ws_payload f), head_length = length (ws_payload f) \<rparr>)"
    using w(3) [of b "?key @ ?payload @ rest", folded c] key [of "?payload @ rest"] ctl fits
    by (simp add: enc head val)
  assume n: "n < length (ws_encode f)"
  consider "n < 2" | "2 \<le> n" "n - 2 < length ext" | "2 + length ext \<le> n" "n - (2 + length ext) < length ?key"
    | "2 + length ext + length ?key \<le> n" by linarith
  then show "head_decode (take n (ws_encode f)) = Inr None"
  proof cases
    case 1
    then have "length (take n (ws_encode f)) < 2" by simp
    then show ?thesis by (simp only: head_decode_def if_True)
  next
    case 2
    then have "take n (ws_encode f) = b # c # take (n - 2) ext" by (simp add: enc take_Cons' numeral_2_eq_2)
    then show ?thesis using w(4) [OF 2(2), of b, folded c] by (simp add: head)
  next
    case 3
    then have "take n (ws_encode f) = b # c # ext @ take (n - (2 + length ext)) ?key" by (simp add: enc take_Cons' numeral_2_eq_2)
    moreover have "ws_key m (b # c # ext @ take (n - (2 + length ext)) ?key) (2 + length ext) = None"
      using 3 unfolding m by (intro ws_key_short) auto
    ultimately show ?thesis using w(3) [of b "take (n - (2 + length ext)) ?key", folded c] ctl by (simp add: head)
  next
    case 4
    obtain part where part: "part = take (n - (2 + length ext + length ?key)) ?payload" by simp
    then have "take n (ws_encode f) = b # c # ext @ ?key @ part" using 4 by (simp add: enc take_Cons' numeral_2_eq_2)
    moreover have "length part < ?n" using 4 n part by (simp add: enc)
    ultimately show ?thesis using w(3) [of b "?key @ part", folded c] ctl key [of part] by (simp add: head val)
  qed
qed

lemma ws_take_encode:
  assumes "ws_frame_ok f"
  shows "ws_decode (ws_encode f @ rest) = Inr (Some (length (ws_encode f), f))" "ws_take (ws_encode f @ rest) = (rest, Inr (Some f))"
proof -
  let ?start = "length (ws_encode f) - length (ws_payload f)" and ?payload = "unmask (ws_mask f) (ws_payload f)"
  have "length (ws_payload f) \<le> length (ws_encode f)" by (simp add: ws_encode_parts)
  moreover obtain front where enc: "ws_encode f = front @ ?payload" unfolding ws_encode_parts by (metis append.assoc append_Cons)
  ultimately have "?start = length front" "?start + length (ws_payload f) = length (ws_encode f)" by simp_all
  then show "ws_decode (ws_encode f @ rest) = Inr (Some (length (ws_encode f), f))" "ws_take (ws_encode f @ rest) = (rest, Inr (Some f))"
    using head_decode_encode [OF assms] enc by (simp_all add: ws_decode_def ws_take_def Let_def)
qed

lemma ws_take_cut: "ws_frame_ok f \<Longrightarrow> n < length (ws_encode f) \<Longrightarrow> ws_take (take n (ws_encode f)) = (take n (ws_encode f), Inr None)"
  using head_decode_encode(2) by (simp add: ws_take_def)

subsection \<open>Properties\<close>

text \<open>C0: applying a mask a word at a time is applying it octet by octet with the key repeated, and
  applying it twice gives the payload back.\<close>

theorem mask_exact:
  "length (apply_mask key payload) = length payload \<and>
   (\<forall>i<length payload. apply_mask key payload ! i = payload ! i XOR key_octets key ! (i mod 4)) \<and>
   apply_mask key (apply_mask key payload) = payload"
proof -
  have "masked_from k key payload ! i = payload ! i XOR key_octets key ! ((k + i) mod 4)" if "i < length payload" for i k
    using that
  proof (induction payload arbitrary: i k)
    case (Cons b bs)
    then show ?case by (cases i) (simp_all add: Cons.IH)
  qed simp
  from this [of _ 0] show ?thesis by (simp add: apply_mask_spec)
qed

theorem mask_exact_witness: "apply_mask (1, 2, 3, 4) [0, 0, 0, 0, 0xff] ! 4 = 0xfe"
  using mask_exact [of "(1, 2, 3, 4)" "[0, 0, 0, 0, 0xff]"] by simp

text \<open>C22: a frame the protocol allows, masked or not, is read back whole with its payload unmasked,
  whatever follows it, by either way of reading; cut short anywhere it is left in the buffer.\<close>

theorem ws_frame_roundtrip:
  assumes "ws_frame_ok f"
  shows "ws_decode (ws_encode f @ rest) = Inr (Some (length (ws_encode f), f)) \<and>
    ws_take (ws_encode f @ rest) = (rest, Inr (Some f)) \<and>
    (\<forall>n < length (ws_encode f). ws_take (take n (ws_encode f)) = (take n (ws_encode f), Inr None))"
  using ws_take_encode [OF assms, of rest] ws_take_cut [OF assms] by simp

theorem ws_frame_roundtrip_witness:
  "ws_take (ws_encode \<lparr> ws_fin = False, ws_opcode = WsText, ws_mask = Some (1, 2, 3, 4), ws_payload = [5, 6] \<rparr> @ [7]) =
    ([7], Inr (Some \<lparr> ws_fin = False, ws_opcode = WsText, ws_mask = Some (1, 2, 3, 4), ws_payload = [5, 6] \<rparr>))"
proof -
  have "ws_frame_ok \<lparr> ws_fin = False, ws_opcode = WsText, ws_mask = Some (1, 2, 3, 4), ws_payload = [5, 6] \<rparr>"
    by (simp add: ws_frame_ok_def opcode_control_def)
  from ws_frame_roundtrip [OF this] show ?thesis by blast
qed

text \<open>Whatever the octets, a control frame that is read is short and whole, and no reserved opcode is.\<close>

lemma opcode_codes: "opcode_from_code code = Some opcode \<longleftrightarrow> opcode_code opcode = code"
  by (cases opcode) (auto simp: opcode_from_code_def)

lemma close_codes: "close_from_number code = Some c \<longleftrightarrow> close_number c = code"
  by (cases c) (auto simp: close_from_number_def)

end
