(* ===== verification/Ws_Messages.thy ===== *)
theory Ws_Messages
  imports Ws_Frames Urls
begin

section \<open>WebSocket connections (src/src/websocket.rs)\<close>

text \<open>
  What a connection makes of the frames that arrive: the direction of masking, control frames, the
  reassembly of fragments and the closing handshake. The transport is an argument: what each read
  brings, and what goes wrong with a frame handed to it. Timeouts belong to it, and what still
  arrives while a close lingers is read and dropped.
\<close>

record ws_limits =
  wl_max_message_size :: u64
  wl_max_fragments :: u16

record ws_conn =
  wc_role :: role
  wc_limits :: ws_limits
  wc_fragments :: "(opcode \<times> bytes) option"
  wc_fragment_count :: nat
  wc_closing :: bool

definition ws_conn_new :: "role \<Rightarrow> ws_limits \<Rightarrow> ws_conn" where
  "ws_conn_new r l = \<lparr> wc_role = r, wc_limits = l, wc_fragments = None, wc_fragment_count = 0, wc_closing = False \<rparr>"

subsection \<open>Frames out and in\<close>

text \<open>The octets a frame is sent as, with the key drawn for it.\<close>

definition ws_outgoing :: "role \<Rightarrow> mask_key \<Rightarrow> ws_frame \<Rightarrow> bytes" where
  "ws_outgoing r key f = ws_encode (f\<lparr> ws_mask := (if is_client r then Some key else None) \<rparr>)"

text \<open>One look at the buffer: a frame, an error, or nothing until more is read.\<close>

definition ws_poll :: "ws_conn \<Rightarrow> bytes \<Rightarrow> bytes \<times> (error + ws_frame option)" where
  "ws_poll c buffer =
     (case ws_take buffer of
        (buffer, Inl e) \<Rightarrow> (buffer, Inl e)
      | (buffer, Inr (Some f)) \<Rightarrow>
          if is_client (wc_role c) = (ws_mask f \<noteq> None) then (buffer, Inl Protocol) else (buffer, Inr (Some f))
      | (buffer, Inr None) \<Rightarrow>
          if unat (wl_max_message_size (wc_limits c)) < length buffer then (buffer, Inl Limit) else (buffer, Inr None))"

text \<open>Reads until a frame is whole; the transport ends where there is nothing more to read.\<close>

fun ws_receive :: "ws_conn \<Rightarrow> bytes \<Rightarrow> (error + bytes) list \<Rightarrow> (bytes \<times> (error + bytes) list) \<times> (error + ws_frame)" where
  "ws_receive c buffer reads =
     (case ws_poll c buffer of
        (buffer, Inl e) \<Rightarrow> ((buffer, reads), Inl e)
      | (buffer, Inr (Some f)) \<Rightarrow> ((buffer, reads), Inr f)
      | (buffer, Inr None) \<Rightarrow>
          (case reads of
             [] \<Rightarrow> ((buffer, []), Inl Closed)
           | Inl e # reads \<Rightarrow> ((buffer, reads), Inl e)
           | Inr octets # reads \<Rightarrow> ws_receive c (buffer @ octets) reads))"

declare ws_receive.simps [simp del]

subsection \<open>Closing\<close>

definition verify_close :: "bytes \<Rightarrow> error + unit" where
  "verify_close payload =
     (if payload = [] then Inr ()
      else if length payload = 1 then Inl Protocol
      else if \<not> close_permitted (from_be_bytes [payload ! 0, payload ! 1]) then Inl Protocol
      else if \<not> is_utf8 (drop 2 payload) then Inl Protocol
      else Inr ())"

text \<open>\<open>str::is_char_boundary\<close>\<close>

definition is_char_boundary :: "bytes \<Rightarrow> nat \<Rightarrow> bool" where
  "is_char_boundary s n \<longleftrightarrow> n = 0 \<or> n = length s \<or> n < length s \<and> \<not> is_continuation (s ! n)"

function boundary_before :: "bytes \<Rightarrow> nat \<Rightarrow> nat" where
  "boundary_before s n = (if is_char_boundary s n then n else boundary_before s (n - 1))"
  by pat_completeness auto
termination by (relation "measure snd") (auto simp: is_char_boundary_def)

declare boundary_before.simps [simp del]

definition close_reason :: "bytes \<Rightarrow> bytes" where
  "close_reason reason = take (boundary_before reason (min (length reason) (MAXIMUM_CONTROL_PAYLOAD - 2))) reason"

text \<open>The connection and the frame handed to the transport, if any.\<close>

definition ws_close :: "ws_conn \<Rightarrow> close_code \<Rightarrow> bytes \<Rightarrow> ws_conn \<times> ws_frame list" where
  "ws_close c code reason =
     (if wc_closing c then (c, [])
      else (c\<lparr> wc_closing := True \<rparr>, [ws_new WsClose (to_be_bytes (close_number code) @ close_reason reason)]))"

subsection \<open>Messages\<close>

datatype ws_outcome = WsContinue | WsMessage opcode bytes | WsFail error

definition INVALID_UTF8 :: bytes where "INVALID_UTF8 = ascii ''invalid utf-8''"

definition ws_finish :: "ws_conn \<Rightarrow> opcode \<Rightarrow> bytes \<Rightarrow> ws_conn \<times> ws_frame list \<times> ws_outcome" where
  "ws_finish c opcode payload =
     (if opcode = WsText \<and> \<not> is_utf8 payload
      then let (c, sent) = ws_close c InvalidPayload INVALID_UTF8 in (c, sent, WsFail Protocol)
      else (c, [], WsMessage opcode payload))"

definition ws_collect :: "ws_conn \<Rightarrow> ws_frame \<Rightarrow> error + ws_conn \<times> opcode" where
  "ws_collect c f =
     (case (wc_fragments c, ws_opcode f) of
        (Some _, WsText) \<Rightarrow> Inl Protocol
      | (Some _, WsBinary) \<Rightarrow> Inl Protocol
      | (None, WsContinuation) \<Rightarrow> Inl Protocol
      | (Some (opcode, pending), WsContinuation) \<Rightarrow>
          Inr (c\<lparr> wc_fragments := Some (opcode, pending @ ws_payload f), wc_fragment_count := wc_fragment_count c + 1 \<rparr>, opcode)
      | (_, opcode) \<Rightarrow> Inr (c\<lparr> wc_fragments := Some (opcode, ws_payload f), wc_fragment_count := 1 \<rparr>, opcode))"

definition ws_data :: "ws_conn \<Rightarrow> ws_frame \<Rightarrow> ws_conn \<times> ws_frame list \<times> ws_outcome" where
  "ws_data c f =
     (let reassembled = (case wc_fragments c of Some (_, pending) \<Rightarrow> length pending | None \<Rightarrow> 0) + length (ws_payload f)
      in if unat (wl_max_message_size (wc_limits c)) < reassembled then (c, [], WsFail Limit)
         else if ws_fin f \<and> wc_fragments c = None \<and> ws_opcode f \<noteq> WsContinuation
           then ws_finish c (ws_opcode f) (ws_payload f)
         else case ws_collect c f of
             Inl e \<Rightarrow> (c, [], WsFail e)
           | Inr (c, opcode) \<Rightarrow>
               if unat (wl_max_fragments (wc_limits c)) < wc_fragment_count c then (c, [], WsFail Limit)
               else if \<not> ws_fin f then (c, [], WsContinue)
               else let pending = wc_fragments c; c = c\<lparr> wc_fragment_count := 0, wc_fragments := None \<rparr>
                 in case pending of
                      None \<Rightarrow> (c, [], WsFail Protocol)
                    | Some (_, payload) \<Rightarrow> ws_finish c opcode payload)"

text \<open>\<open>send\<close> is what the transport answers to a frame: nothing, or the error that sending it met.\<close>

definition ws_control :: "(ws_frame \<Rightarrow> error option) \<Rightarrow> ws_conn \<Rightarrow> ws_frame \<Rightarrow> ws_conn \<times> ws_frame list \<times> ws_outcome" where
  "ws_control send c f =
     (case ws_opcode f of
        WsClose \<Rightarrow>
          (case verify_close (ws_payload f) of
             Inl e \<Rightarrow> (c, [], WsFail e)
           | Inr _ \<Rightarrow>
               if wc_closing c then (c, [], WsMessage WsClose (ws_payload f))
               else let c = c\<lparr> wc_closing := True \<rparr>; reply = ws_new WsClose (ws_payload f)
                 in (c, [reply], case send reply of Some e \<Rightarrow> WsFail e | None \<Rightarrow> WsMessage WsClose (ws_payload f)))
      | WsPing \<Rightarrow>
          (let reply = ws_new WsPong (ws_payload f)
           in (c, [reply], case send reply of Some e \<Rightarrow> WsFail e | None \<Rightarrow> WsContinue))
      | _ \<Rightarrow> (c, [], WsContinue))"

definition ws_handle :: "(ws_frame \<Rightarrow> error option) \<Rightarrow> ws_conn \<Rightarrow> ws_frame \<Rightarrow> ws_conn \<times> ws_frame list \<times> ws_outcome" where
  "ws_handle send c f = (if opcode_control (ws_opcode f) then ws_control send c f else ws_data c f)"

text \<open>The frames that arrive, one after the other, until one makes an answer: the connection, what was
  sent, the frames left and the answer.\<close>

fun ws_receive_message :: "(ws_frame \<Rightarrow> error option) \<Rightarrow> ws_conn \<Rightarrow> ws_frame list \<Rightarrow>
    ws_conn \<times> ws_frame list \<times> ws_frame list \<times> ws_outcome" where
  "ws_receive_message send c [] = (c, [], [], WsContinue)"
| "ws_receive_message send c (f # fs) =
     (case ws_handle send c f of
        (c, sent, WsContinue) \<Rightarrow>
          (let (c, sent', rest, out) = ws_receive_message send c fs in (c, sent @ sent', rest, out))
      | (c, sent, out) \<Rightarrow> (c, sent, fs, out))"

subsection \<open>Boundaries of characters\<close>

lemma is_continuation_range: "is_continuation b \<longleftrightarrow> 0x80 \<le> b \<and> b \<le> 0xbf"
  by (rule octet_all [where b = b]) code_simp

lemma second_ok_continuation: "second_ok a b \<Longrightarrow> is_continuation b"
  by (auto simp: is_continuation_range second_ok_def word_le_nat_alt split: if_splits)

lemma utf8_first_continues:
  assumes "utf8_first a bs = (t, True)"
  shows "t \<le> 3" "m < t \<Longrightarrow> is_continuation (bs ! m)" "\<not> is_continuation a"
proof -
  have w: "0 < utf8_width a" "t = utf8_width a - 1" "tail_len a (utf8_width a - 1) bs = t"
    using assms by (auto simp: utf8_first_def Let_def)
  show "t \<le> 3" using w(2) by (simp add: utf8_width_def split: if_splits)
  show "\<not> is_continuation a" using w(1)
    by (auto simp: is_continuation_range utf8_width_def word_le_nat_alt word_less_nat_alt split: if_splits)
  assume m: "m < t"
  then obtain b cs where bs: "bs = b # cs" "second_ok a b" and t: "t = 1 + length (takeWhile is_continuation (take (t - 1) cs))"
    using w by (cases bs) (auto split: if_splits)
  show "is_continuation (bs ! m)"
  proof (cases m)
    case 0
    then show ?thesis using bs second_ok_continuation by simp
  next
    case (Suc k)
    then have k: "k < length (takeWhile is_continuation (take (t - 1) cs))" using m t by simp
    then have "is_continuation (takeWhile is_continuation (take (t - 1) cs) ! k)" by (meson nth_mem set_takeWhileD)
    then show ?thesis using k Suc bs m takeWhile_nth [OF k] by simp
  qed
qed

lemma utf8_cut: "is_utf8 s \<Longrightarrow> is_char_boundary s n \<Longrightarrow> is_utf8 (take n s)"
proof (induction s arbitrary: n rule: is_utf8.induct)
  case (2 a bs)
  obtain t where t: "utf8_first a bs = (t, True)" "is_utf8 (drop t bs)" using 2(2) by (auto simp: Let_def split: prod.splits)
  note le = utf8_first_ok(2) [OF t(1)]
  show ?case
  proof (cases n)
    case (Suc m)
    have "t \<le> m"
    proof (rule ccontr)
      assume "\<not> t \<le> m"
      then show False using 2(3) Suc le utf8_first_continues(2) [OF t(1), of m] by (auto simp: is_char_boundary_def)
    qed
    then have "is_char_boundary (drop t bs) (m - t)" using 2(3) Suc le by (auto simp: is_char_boundary_def)
    then have "is_utf8 (take (m - t) (drop t bs))" using 2(1) [OF t(1) [symmetric] refl] t(2) by simp
    moreover have "take n (a # bs) = a # take t bs @ take (m - t) (drop t bs)"
      using Suc \<open>t \<le> m\<close> by (simp add: take_add [symmetric])
    ultimately show ?thesis using is_utf8_append_seq [OF t(1)] by simp
  qed simp
qed simp

lemma utf8_boundary_near: "is_utf8 s \<Longrightarrow> n \<le> length s \<Longrightarrow> \<exists>k\<le>3. k \<le> n \<and> is_char_boundary s (n - k)"
proof (induction s arbitrary: n rule: is_utf8.induct)
  case (2 a bs)
  obtain t where t: "utf8_first a bs = (t, True)" "is_utf8 (drop t bs)" using 2(2) by (auto simp: Let_def split: prod.splits)
  note le = utf8_first_ok(2) [OF t(1)]
  show ?case
  proof (cases "n \<le> t")
    case True
    then show ?thesis using utf8_first_continues(1) [OF t(1)] by (intro exI [of _ n]) (simp add: is_char_boundary_def)
  next
    case False
    then obtain m where m: "n = Suc m" "t \<le> m" by (cases n) auto
    have "m - t \<le> length (drop t bs)" using 2(3) m by simp
    then obtain k where k: "k \<le> 3" "k \<le> m - t" "is_char_boundary (drop t bs) (m - t - k)"
      using 2(1) [OF t(1) [symmetric] refl t(2), of "m - t"] by blast
    have "is_char_boundary (a # bs) (n - k)"
    proof (cases "m - t - k = 0")
      case True
      then have "n - k = Suc t" using m k(2) by simp
      moreover have "\<not> is_continuation (bs ! t)" if "t < length bs"
      proof -
        have "is_utf8 (bs ! t # drop (Suc t) bs)" using t(2) that by (simp only: Cons_nth_drop_Suc)
        then obtain u where "utf8_first (bs ! t) (drop (Suc t) bs) = (u, True)" by (auto simp: Let_def split: prod.splits)
        then show ?thesis by (rule utf8_first_continues(3))
      qed
      ultimately show ?thesis using le by (auto simp: is_char_boundary_def)
    next
      case False
      then show ?thesis using k m le by (auto simp: is_char_boundary_def Suc_diff_le)
    qed
    then show ?thesis using k m by (intro exI [of _ k]) auto
  qed
qed (simp add: is_char_boundary_def)

subsection \<open>The closing handshake\<close>

lemma boundary_before_is: "is_char_boundary s (boundary_before s n) \<and> boundary_before s n \<le> n"
proof (induction s n rule: boundary_before.induct)
  case (1 s n)
  then show ?case by (cases "is_char_boundary s n") (subst (1 2) boundary_before.simps, force)+
qed

lemma boundary_before_near: "k \<le> n \<Longrightarrow> is_char_boundary s (n - k) \<Longrightarrow> n - k \<le> boundary_before s n"
proof (induction s n arbitrary: k rule: boundary_before.induct)
  case (1 s n)
  show ?case
  proof (cases "is_char_boundary s n")
    case True
    then show ?thesis by (subst boundary_before.simps) simp
  next
    case False
    then have "0 < k" using 1(3) by (cases k) simp_all
    then have "n - 1 - (k - 1) \<le> boundary_before s (n - 1)" using 1(1) [OF False, of "k - 1"] 1(2,3) by simp
    then show ?thesis using False \<open>0 < k\<close> 1(2) by (subst boundary_before.simps) simp
  qed
qed

lemma close_reason_ok:
  assumes "is_utf8 reason"
  shows "is_utf8 (close_reason reason)" "length (close_reason reason) \<le> 123" "prefix (close_reason reason) reason"
    "min (length reason) 123 \<le> length (close_reason reason) + 3"
proof -
  let ?n = "min (length reason) 123"
  have cut: "close_reason reason = take (boundary_before reason ?n) reason"
    by (simp add: close_reason_def MAXIMUM_CONTROL_PAYLOAD_def)
  show "is_utf8 (close_reason reason)" unfolding cut using boundary_before_is by (intro utf8_cut assms) simp
  have le: "boundary_before reason ?n \<le> ?n" using boundary_before_is [of reason ?n] by blast
  then show "length (close_reason reason) \<le> 123" unfolding cut by simp
  show "prefix (close_reason reason) reason" unfolding cut by (rule take_is_prefix)
  obtain k where "k \<le> 3" "k \<le> ?n" "is_char_boundary reason (?n - k)" using utf8_boundary_near [OF assms, of ?n] by auto
  then have "?n \<le> boundary_before reason ?n + 3" using boundary_before_near [of k ?n reason] by linarith
  moreover have "length (close_reason reason) = boundary_before reason ?n" unfolding cut using le by simp
  ultimately show "?n \<le> length (close_reason reason) + 3" by simp
qed

lemma verify_close_payload: "is_utf8 reason \<Longrightarrow> verify_close (to_be_bytes (close_number code) @ reason) = Inr ()"
proof -
  obtain a b where ab: "to_be_bytes (close_number code) = [a, b]"
    using length_to_be_bytes [of "close_number code"] by (auto simp: numeral_2_eq_2 length_Suc_conv)
  have "from_be_bytes [a, b] = close_number code" using from_to_be_bytes [of "close_number code"] ab by simp
  moreover have "close_permitted (close_number code)"
    using close_codes [of "close_number code" code] by (simp add: close_permitted_def)
  ultimately show "is_utf8 reason \<Longrightarrow> ?thesis" unfolding ab by (simp add: verify_close_def)
qed

subsection \<open>Reassembly\<close>

text \<open>The frames a message is sent as, a part to each, and the answers to the pings among frames.\<close>

fun fragmented :: "opcode \<Rightarrow> bytes list \<Rightarrow> (bool \<times> opcode \<times> bytes) list" where
  "fragmented opcode [] = []"
| "fragmented opcode [p] = [(True, opcode, p)]"
| "fragmented opcode (p # ps) = (False, opcode, p) # fragmented WsContinuation ps"

lemma fragmented_Nil [simp]: "fragmented opcode ps = [] \<longleftrightarrow> ps = []" "[] = fragmented opcode ps \<longleftrightarrow> ps = []"
  by (cases "(opcode, ps)" rule: fragmented.cases; simp)+

definition data_frames :: "ws_frame list \<Rightarrow> (bool \<times> opcode \<times> bytes) list" where
  "data_frames fs = map (\<lambda>f. (ws_fin f, ws_opcode f, ws_payload f)) (filter (\<lambda>f. \<not> opcode_control (ws_opcode f)) fs)"

definition pongs :: "ws_frame list \<Rightarrow> ws_frame list" where
  "pongs fs = map (\<lambda>f. ws_new WsPong (ws_payload f)) (filter (\<lambda>f. ws_opcode f = WsPing) fs)"

lemma data_frames_simps [simp]:
  "data_frames [] = []"
  "data_frames (f # fs) = (if opcode_control (ws_opcode f) then data_frames fs else (ws_fin f, ws_opcode f, ws_payload f) # data_frames fs)"
  by (simp_all add: data_frames_def)

lemma pongs_simps [simp]:
  "pongs [] = []" "pongs (f # fs) = (if ws_opcode f = WsPing then ws_new WsPong (ws_payload f) # pongs fs else pongs fs)"
  by (simp_all add: pongs_def)

lemma opcode_control_simps [simp]:
  "opcode_control WsPing" "opcode_control WsPong" "opcode_control WsClose"
  "\<not> opcode_control WsText" "\<not> opcode_control WsBinary" "\<not> opcode_control WsContinuation"
  by (simp_all add: opcode_control_def)

lemma no_data_left: "data_frames fs = [] \<Longrightarrow> fs \<noteq> [] \<longrightarrow> \<not> opcode_control (ws_opcode (last fs)) \<Longrightarrow> fs = []"
  by (induction fs) (auto split: if_splits)

lemma control_passes:
  assumes "opcode_control (ws_opcode f)" "ws_opcode f \<noteq> WsClose" "\<forall>f. send f = None"
  shows "ws_handle send c f = (c, pongs [f], WsContinue)"
  using assms by (cases "ws_opcode f") (simp_all add: ws_handle_def ws_control_def)

lemma collects:
  assumes "\<forall>f. send f = None"
    and "wc_fragments c = Some (opcode, pending)" "data_frames frames = fragmented WsContinuation parts" "parts \<noteq> []"
    and "\<forall>f\<in>set frames. ws_opcode f \<noteq> WsClose" "\<not> opcode_control (ws_opcode (last frames))"
    and "length pending + length (concat parts) \<le> unat (wl_max_message_size (wc_limits c))"
    and "wc_fragment_count c + length parts \<le> unat (wl_max_fragments (wc_limits c))"
    and "opcode = WsText \<longrightarrow> is_utf8 (pending @ concat parts)"
  shows "ws_receive_message send c frames =
    (c\<lparr> wc_fragments := None, wc_fragment_count := 0 \<rparr>, pongs frames, [], WsMessage opcode (pending @ concat parts))"
  using assms(2-)
proof (induction frames arbitrary: c pending parts)
  case Nil
  then show ?case by auto
next
  case (Cons f fs)
  note sends = assms(1)
  show ?case
  proof (cases "opcode_control (ws_opcode f)")
    case True
    then have "fs \<noteq> []" using Cons.prems(2,3) by auto
    then have "ws_receive_message send c fs =
        (c\<lparr> wc_fragments := None, wc_fragment_count := 0 \<rparr>, pongs fs, [], WsMessage opcode (pending @ concat parts))"
      using Cons.IH [OF Cons.prems(1)] Cons.prems True by simp
    then show ?thesis using control_passes [OF True _ sends] Cons.prems(4) by simp
  next
    case False
    obtain p ps where parts: "parts = p # ps" using Cons.prems(3) by (cases parts) auto
    have f: "ws_opcode f = WsContinuation" "ws_payload f = p" "ws_fin f = (ps = [])" "data_frames fs = fragmented WsContinuation ps"
      using Cons.prems(2) False parts by (cases ps; simp)+
    let ?c = "c\<lparr> wc_fragments := Some (opcode, pending @ p), wc_fragment_count := wc_fragment_count c + 1 \<rparr>"
    have handle: "ws_handle send c f = (if ps = [] then (c\<lparr> wc_fragments := None, wc_fragment_count := 0 \<rparr>, [], WsMessage opcode (pending @ p))
        else (?c, [], WsContinue))"
      using f Cons.prems(1,6,7,8) parts by (auto simp: ws_handle_def ws_data_def ws_collect_def ws_finish_def Let_def)
    show ?thesis
    proof (cases "ps = []")
      case True
      then have "fs = []" using no_data_left [of fs] f(4) Cons.prems(5) by (auto split: if_splits)
      then show ?thesis using handle True parts f(1) by simp
    next
      case more: False
      have "fs \<noteq> []" using f(4) more by auto
      then have "ws_receive_message send ?c fs = (?c\<lparr> wc_fragments := None, wc_fragment_count := 0 \<rparr>, pongs fs, [], WsMessage opcode ((pending @ p) @ concat ps))"
        using Cons.prems parts f(4) more by (intro Cons.IH) auto
      then show ?thesis using handle more parts f(1) by simp
    qed
  qed
qed

subsection \<open>What a connection holds\<close>

definition ws_conn_ok :: "ws_conn \<Rightarrow> bool" where
  "ws_conn_ok c \<longleftrightarrow>
     (case wc_fragments c of
        None \<Rightarrow> wc_fragment_count c = 0
      | Some (opcode, pending) \<Rightarrow> opcode \<in> {WsText, WsBinary} \<and> length pending \<le> unat (wl_max_message_size (wc_limits c)))"

fun ws_answer_ok :: "ws_conn \<Rightarrow> ws_outcome \<Rightarrow> bool" where
  "ws_answer_ok c (WsMessage opcode payload) \<longleftrightarrow>
     (opcode = WsClose \<longrightarrow> wc_closing c \<and> verify_close payload = Inr ()) \<and>
     (opcode \<noteq> WsClose \<longrightarrow> opcode \<in> {WsText, WsBinary} \<and> length payload \<le> unat (wl_max_message_size (wc_limits c))) \<and>
     (opcode = WsText \<longrightarrow> is_utf8 payload)"
| "ws_answer_ok c _ \<longleftrightarrow> True"

definition ws_step_ok :: "ws_conn \<Rightarrow> ws_conn \<Rightarrow> ws_outcome \<Rightarrow> bool" where
  "ws_step_ok c c' out \<longleftrightarrow> ws_conn_ok c' \<and> ws_answer_ok c' out \<and> wc_limits c' = wc_limits c \<and> (wc_closing c \<longrightarrow> wc_closing c')"

lemma ws_step_ok_fail: "ws_conn_ok c \<Longrightarrow> ws_step_ok c c (WsFail e)" "ws_conn_ok c \<Longrightarrow> ws_step_ok c c WsContinue"
  by (simp_all add: ws_step_ok_def)

lemma ws_finish_ok:
  assumes "ws_conn_ok c" "opcode \<in> {WsText, WsBinary}" "length payload \<le> unat (wl_max_message_size (wc_limits c))"
    and "ws_finish c opcode payload = (c', sent, out)"
  shows "ws_step_ok c c' out"
  using assms by (auto simp: ws_finish_def ws_close_def ws_step_ok_def ws_conn_ok_def split: if_splits option.splits)

lemma ws_data_ok:
  assumes "ws_conn_ok c" "\<not> opcode_control (ws_opcode f)" "ws_data c f = (c', sent, out)"
  shows "ws_step_ok c c' out"
proof (cases "wc_fragments c")
  case None
  note finish = ws_finish_ok [OF assms(1), of "ws_opcode f" "ws_payload f" c' sent out]
  show ?thesis
    using assms None finish
    by (cases "ws_opcode f") (auto simp: ws_data_def ws_collect_def ws_step_ok_def ws_conn_ok_def Let_def split: if_splits)
next
  case (Some pair)
  then obtain opcode pending where pair: "wc_fragments c = Some (opcode, pending)" by (cases pair) simp
  have op: "opcode \<in> {WsText, WsBinary}" "length pending \<le> unat (wl_max_message_size (wc_limits c))"
    using assms(1) pair by (simp_all add: ws_conn_ok_def)
  let ?idle = "c\<lparr> wc_fragment_count := 0, wc_fragments := None \<rparr>"
  have idle: "ws_step_ok ?idle c' out \<Longrightarrow> ws_step_ok c c' out" by (simp add: ws_step_ok_def)
  have finish: "ws_finish ?idle opcode (pending @ ws_payload f) = (c', sent, out) \<Longrightarrow>
      length (pending @ ws_payload f) \<le> unat (wl_max_message_size (wc_limits c)) \<Longrightarrow> ws_step_ok c c' out"
    using ws_finish_ok [of ?idle opcode "pending @ ws_payload f" c' sent out] op(1) idle by (simp add: ws_conn_ok_def)
  show ?thesis
    using assms pair op finish
    by (cases "ws_opcode f") (auto simp: ws_data_def ws_collect_def ws_step_ok_def ws_conn_ok_def Let_def split: if_splits)
qed

lemma ws_control_ok:
  assumes "ws_conn_ok c" "ws_control send c f = (c', sent, out)"
  shows "ws_step_ok c c' out"
  using assms by (auto simp: ws_control_def ws_step_ok_def ws_conn_ok_def Let_def split: opcode.splits sum.splits if_splits option.splits)

lemma ws_handle_ok: "ws_conn_ok c \<Longrightarrow> ws_handle send c f = (c', sent, out) \<Longrightarrow> ws_step_ok c c' out"
  using ws_data_ok ws_control_ok by (auto simp: ws_handle_def split: if_splits)

subsection \<open>Properties\<close>

text \<open>C25: the search for a boundary of characters ends within three steps, and so a close frame carries as
  much of its reason as fits, cut between characters, and is one a peer accepts.\<close>

theorem close_frame_accepted:
  assumes "is_utf8 reason" "\<not> wc_closing c"
  shows "\<exists>f. ws_close c code reason = (c\<lparr> wc_closing := True \<rparr>, [f]) \<and> ws_frame_ok f \<and> verify_close (ws_payload f) = Inr () \<and>
    prefix (drop 2 (ws_payload f)) reason \<and> min (length reason) 123 \<le> length (drop 2 (ws_payload f)) + 3"
proof -
  have "length (to_be_bytes (close_number code)) = 2" by (simp add: length_simps)
  then show ?thesis using close_reason_ok [OF assms(1)] assms(2) verify_close_payload [OF close_reason_ok(1) [OF assms(1)], of code]
    by (simp add: ws_close_def ws_new_def ws_frame_ok_def MAXIMUM_CONTROL_PAYLOAD_def)
qed

theorem close_frame_accepted_witness:
  "\<exists>f. ws_close (ws_conn_new Origin \<lparr> wl_max_message_size = 9, wl_max_fragments = 3 \<rparr>) GoingAway [0x62] =
    ((ws_conn_new Origin \<lparr> wl_max_message_size = 9, wl_max_fragments = 3 \<rparr>)\<lparr> wc_closing := True \<rparr>, [f])"
proof -
  have "is_utf8 [0x62]" by code_simp
  from close_frame_accepted [OF this, of "ws_conn_new Origin \<lparr> wl_max_message_size = 9, wl_max_fragments = 3 \<rparr>"]
  show ?thesis by (auto simp: ws_conn_new_def)
qed

text \<open>C23: whatever one end sends, the other accepts with the same payload and nothing else of the buffer
  touched, since each masks exactly where the other insists; what an end sends it would refuse itself.\<close>

theorem ws_masking_agrees:
  assumes "ws_frame_ok f" "is_client (wc_role c) \<noteq> is_client r"
  shows "ws_poll c (ws_outgoing r key f @ rest) = (rest, Inr (Some (f\<lparr> ws_mask := (if is_client r then Some key else None) \<rparr>))) \<and>
    ws_poll (c\<lparr> wc_role := r \<rparr>) (ws_outgoing r key f @ rest) = (rest, Inl Protocol)"
proof -
  let ?f = "f\<lparr> ws_mask := (if is_client r then Some key else None) \<rparr>"
  have "ws_frame_ok ?f" using assms(1) by (simp add: ws_frame_ok_def)
  then have "ws_take (ws_encode ?f @ rest) = (rest, Inr (Some ?f))" using ws_take_encode by blast
  moreover have "(ws_mask ?f \<noteq> None) = is_client r" by (simp del: not_None_eq)
  ultimately show ?thesis using assms(2) unfolding ws_outgoing_def ws_poll_def by (simp only: prod.case sum.case option.case) simp
qed

theorem ws_masking_agrees_witness:
  "ws_poll (ws_conn_new Origin \<lparr> wl_max_message_size = 9, wl_max_fragments = 3 \<rparr>) (ws_outgoing UserAgent (1, 2, 3, 4) (ws_new WsText [7]) @ []) =
    ([], Inr (Some ((ws_new WsText [7])\<lparr> ws_mask := Some (1, 2, 3, 4) \<rparr>)))"
proof -
  have "ws_frame_ok (ws_new WsText [7])" by (simp add: ws_frame_ok_def ws_new_def opcode_control_def)
  moreover have "is_client (wc_role (ws_conn_new Origin \<lparr> wl_max_message_size = 9, wl_max_fragments = 3 \<rparr>)) \<noteq> is_client UserAgent"
    by (simp add: ws_conn_new_def is_client_def)
  ultimately show ?thesis using ws_masking_agrees [of "ws_new WsText [7]"
      "ws_conn_new Origin \<lparr> wl_max_message_size = 9, wl_max_fragments = 3 \<rparr>" UserAgent "(1, 2, 3, 4)" "[]"]
    by (simp add: is_client_def)
qed

text \<open>C24: a frame whose payload is at the ceiling of a message is taken when it arrives whole and refused
  when it arrives in pieces, as soon as the buffer holds more than the ceiling: header octets count.\<close>

theorem ws_frame_at_ceiling:
  assumes "ws_frame_ok f" "is_client (wc_role c) \<noteq> (ws_mask f \<noteq> None)"
    and "unat (wl_max_message_size (wc_limits c)) < n" "n < length (ws_encode f)"
  shows "ws_poll c (ws_encode f) = ([], Inr (Some f)) \<and>
    ws_poll c (take n (ws_encode f)) = (take n (ws_encode f), Inl Limit)"
  using ws_take_encode [OF assms(1), of "[]"] ws_take_cut [OF assms(1,4)] assms(2-4) by (simp add: ws_poll_def)

theorem ws_frame_at_ceiling_witness:
  "ws_poll (ws_conn_new UserAgent \<lparr> wl_max_message_size = 3, wl_max_fragments = 3 \<rparr>) (take 4 (ws_encode (ws_new WsBinary [1, 2, 3]))) =
    (take 4 (ws_encode (ws_new WsBinary [1, 2, 3])), Inl Limit)"
proof -
  let ?c = "ws_conn_new UserAgent \<lparr> wl_max_message_size = 3, wl_max_fragments = 3 \<rparr>"
  have "ws_frame_ok (ws_new WsBinary [1, 2, 3])" by (simp add: ws_frame_ok_def ws_new_def opcode_control_def)
  moreover have "is_client (wc_role ?c) \<noteq> (ws_mask (ws_new WsBinary [1, 2, 3]) \<noteq> None)" by (simp add: ws_conn_new_def is_client_def ws_new_def)
  moreover have "unat (wl_max_message_size (wc_limits ?c)) < 4" by (simp add: ws_conn_new_def)
  moreover have "4 < length (ws_encode (ws_new WsBinary [1, 2, 3]))"
    by (simp add: ws_encode_def ws_encode_into_def ws_new_def length_field_def)
  ultimately show ?thesis using ws_frame_at_ceiling by blast
qed

text \<open>C20: a message in parts is put together again whatever pings and pongs come between them; each ping is
  answered in its turn, nothing after the last part is touched, and the connection is as before.\<close>

theorem ws_reassembles:
  assumes "opcode = WsText \<or> opcode = WsBinary" "data_frames frames = fragmented opcode parts" "parts \<noteq> []"
    and "\<forall>f\<in>set frames. ws_opcode f \<noteq> WsClose" "\<not> opcode_control (ws_opcode (last frames))"
    and "wc_fragments c = None" "wc_fragment_count c = 0" "\<forall>f. send f = None"
    and "length (concat parts) \<le> unat (wl_max_message_size (wc_limits c))"
    and "length parts = 1 \<or> length parts \<le> unat (wl_max_fragments (wc_limits c))"
    and "opcode = WsText \<longrightarrow> is_utf8 (concat parts)"
  shows "ws_receive_message send c frames = (c, pongs frames, [], WsMessage opcode (concat parts))"
  using assms(2,4,5)
proof (induction frames)
  case Nil
  then show ?case using assms(3) by auto
next
  case (Cons f fs)
  show ?case
  proof (cases "opcode_control (ws_opcode f)")
    case True
    then have "fs \<noteq> []" using Cons.prems(1) assms(3) by auto
    then have "ws_receive_message send c fs = (c, pongs fs, [], WsMessage opcode (concat parts))" using Cons True by simp
    then show ?thesis using control_passes [OF True _ assms(8)] Cons.prems(2) by simp
  next
    case False
    obtain p ps where parts: "parts = p # ps" using assms(3) by (cases parts) auto
    have f: "ws_opcode f = opcode" "ws_payload f = p" "ws_fin f = (ps = [])" "data_frames fs = fragmented WsContinuation ps"
      using Cons.prems(1) False parts by (cases ps; simp)+
    let ?c = "c\<lparr> wc_fragments := Some (opcode, p), wc_fragment_count := 1 \<rparr>"
    show ?thesis
    proof (cases "ps = []")
      case True
      then have "fs = []" using no_data_left [of fs] f(4) Cons.prems(3) by (auto split: if_splits)
      then show ?thesis using f True parts assms(1,6,9,11) by (auto simp: ws_handle_def ws_data_def ws_finish_def)
    next
      case more: False
      have handle: "ws_handle send c f = (?c, [], WsContinue)"
        using f more parts assms(1,6,9,10) by (cases ps) (auto simp: ws_handle_def ws_data_def ws_collect_def)
      have "fs \<noteq> []" using f(4) more by auto
      then have "ws_receive_message send ?c fs = (?c\<lparr> wc_fragments := None, wc_fragment_count := 0 \<rparr>, pongs fs, [], WsMessage opcode (p @ concat ps))"
        using collects [OF assms(8), of ?c] f(4) more Cons.prems(2,3) assms(9,10,11) parts
        by (cases ps) simp_all
      moreover have "?c\<lparr> wc_fragments := None, wc_fragment_count := 0 \<rparr> = c" using assms(6,7) by (cases c) simp
      ultimately show ?thesis using handle f(1) assms(1) parts by auto
    qed
  qed
qed

theorem ws_reassembles_witness:
  "ws_receive_message (\<lambda>_. None) (ws_conn_new Origin \<lparr> wl_max_message_size = 9, wl_max_fragments = 2 \<rparr>)
     [\<lparr> ws_fin = False, ws_opcode = WsText, ws_mask = None, ws_payload = [0x61] \<rparr>, ws_new WsPing [5],
      \<lparr> ws_fin = True, ws_opcode = WsContinuation, ws_mask = None, ws_payload = [0x62] \<rparr>] =
   (ws_conn_new Origin \<lparr> wl_max_message_size = 9, wl_max_fragments = 2 \<rparr>, [ws_new WsPong [5]], [], WsMessage WsText [0x61, 0x62])"
proof -
  have "is_utf8 (concat [[0x61], [0x62]])" by code_simp
  then show ?thesis
    using ws_reassembles [of WsText "[\<lparr> ws_fin = False, ws_opcode = WsText, ws_mask = None, ws_payload = [0x61] \<rparr>, ws_new WsPing [5],
        \<lparr> ws_fin = True, ws_opcode = WsContinuation, ws_mask = None, ws_payload = [0x62] \<rparr>]" "[[0x61], [0x62]]"
        "ws_conn_new Origin \<lparr> wl_max_message_size = 9, wl_max_fragments = 2 \<rparr>" "\<lambda>_. None"]
    by (simp add: ws_conn_new_def ws_new_def)
qed

text \<open>C21: whatever frames arrive and whatever the transport does, a connection never gathers more than a message
  may hold, answers only messages within that, text only where it is UTF-8 and a close only with a payload
  that may be sent, and never takes back that it is closing.\<close>

theorem ws_never_overflows:
  assumes "ws_conn_ok c" "ws_receive_message send c frames = (c', sent, rest, out)"
  shows "ws_conn_ok c' \<and> ws_answer_ok c' out \<and> (wc_closing c \<longrightarrow> wc_closing c') \<and> suffix rest frames"
  using assms
proof (induction frames arbitrary: c sent)
  case (Cons f fs)
  obtain c1 sent1 out1 where one: "ws_handle send c f = (c1, sent1, out1)" by (metis prod_cases3)
  note ok = ws_handle_ok [OF Cons.prems(1) one, unfolded ws_step_ok_def]
  show ?case
  proof (cases "out1 = WsContinue")
    case True
    then obtain sent' where "ws_receive_message send c1 fs = (c', sent', rest, out)"
      using Cons.prems(2) one by (auto split: prod.splits)
    then show ?thesis using Cons.IH [of c1 sent'] ok by (auto intro: suffix_ConsI)
  next
    case False
    then have "c' = c1 \<and> rest = fs \<and> out = out1" using Cons.prems(2) one by (cases out1) auto
    then show ?thesis using ok by (auto intro: suffix_ConsI)
  qed
qed simp

theorem ws_never_overflows_witness: "ws_conn_ok (ws_conn_new Origin \<lparr> wl_max_message_size = 9, wl_max_fragments = 2 \<rparr>)"
proof -
  let ?c = "ws_conn_new Origin \<lparr> wl_max_message_size = 9, wl_max_fragments = 2 \<rparr>"
  have "ws_conn_ok ?c" by (simp add: ws_conn_ok_def ws_conn_new_def)
  moreover have "ws_receive_message (\<lambda>_. None) ?c [] = (?c, [], [], WsContinue)" by simp
  ultimately show ?thesis by (rule ws_never_overflows [THEN conjunct1])
qed

end
