(* ===== verification/Ws_Handshake.thy ===== *)
theory Ws_Handshake
  imports Messages Strings Base64 Sha1
begin

section \<open>The WebSocket handshake (src/src/websocket.rs)\<close>

text \<open>
  Opening a WebSocket over the versions of HTTP: the upgrade of HTTP/1.1 with its nonce and the key a
  server answers with, and the extended CONNECT of HTTP/2 and HTTP/3. The refusal and the hand-over
  of the transport are left out.
\<close>

definition GUID :: bytes where "GUID = ascii ''258EAFA5-E914-47DA-95CA-C5AB0DC85B11''"
definition WS_VERSION :: bytes where "WS_VERSION = ascii ''13''"
definition WS_PROTOCOL :: bytes where "WS_PROTOCOL = ascii ''websocket''"

text \<open>Fields appended one after the other to an empty section, and then a request or a response with them.\<close>

definition append_all :: "(bytes \<times> bytes) list \<Rightarrow> headers" where
  "append_all pairs = fold (\<lambda>(name, v) h. headers_append h (text_from_str name) (text_from_str v)) pairs headers_new"

definition accept_key :: "bytes \<Rightarrow> bytes" where
  "accept_key key = b64_encode (sha1 (key @ GUID))"

definition token_present :: "headers \<Rightarrow> bytes \<Rightarrow> bytes \<Rightarrow> bool" where
  "token_present h name token =
     list_ex (\<lambda>v. eq_ignore_case (trim v) token) (concat (map (split_at (of_char CHR '','')) (headers_get_all h name)))"

definition asks_upgrade :: "headers \<Rightarrow> bool" where
  "asks_upgrade h \<longleftrightarrow> token_present h (ascii ''upgrade'') WS_PROTOCOL \<and> token_present h (ascii ''connection'') (ascii ''upgrade'')"

subsection \<open>The upgrade\<close>

definition upgrade_request :: "'sec \<Rightarrow> bytes \<Rightarrow> utext \<Rightarrow> bytes \<Rightarrow> version \<Rightarrow> ('addr, 'sec) message" where
  "upgrade_request security host target key v =
     (message_request security GET target v)\<lparr> msg_headers := Some (append_all
        [(ascii ''host'', host), (ascii ''upgrade'', WS_PROTOCOL), (ascii ''connection'', ascii ''Upgrade''),
         (ascii ''sec-websocket-key'', key), (ascii ''sec-websocket-version'', WS_VERSION)]) \<rparr>"

definition upgrade_response :: "'sec \<Rightarrow> bytes \<Rightarrow> version \<Rightarrow> ('addr, 'sec) message" where
  "upgrade_response security key v =
     (message_response security 101 v)\<lparr> msg_headers := Some (headers_append
        (append_all [(ascii ''upgrade'', WS_PROTOCOL), (ascii ''connection'', ascii ''Upgrade'')])
        (text_from_str (ascii ''sec-websocket-accept'')) (text_from_string (accept_key key))) \<rparr>"

definition upgrade_verify_request :: "('addr, 'sec) message \<Rightarrow> error + bytes" where
  "upgrade_verify_request m =
     (case msg_headers m of
        None \<Rightarrow> Inl Protocol
      | Some h \<Rightarrow>
          if msg_method m \<noteq> Some GET then Inl Protocol
          else if \<not> asks_upgrade h then Inl Protocol
          else if headers_get h (ascii ''sec-websocket-version'') \<noteq> Some WS_VERSION then Inl Protocol
          else case headers_get h (ascii ''sec-websocket-key'') of
              None \<Rightarrow> Inl Protocol
            | Some key \<Rightarrow>
                (case b64_decode key of
                   Inl _ \<Rightarrow> Inl Protocol
                 | Inr nonce \<Rightarrow> if length nonce \<noteq> 16 then Inl Protocol else Inr key))"

definition upgrade_verify_response :: "('addr, 'sec) message \<Rightarrow> bytes \<Rightarrow> error + unit" where
  "upgrade_verify_response m key =
     (case msg_headers m of
        None \<Rightarrow> Inl Protocol
      | Some h \<Rightarrow>
          if msg_status m \<noteq> Some 101 then Inl Protocol
          else if \<not> asks_upgrade h then Inl Protocol
          else if headers_get h (ascii ''sec-websocket-accept'') \<noteq> Some (accept_key key) then Inl Protocol
          else Inr ())"

subsection \<open>The extended CONNECT\<close>

definition connect_request :: "'sec \<Rightarrow> bytes \<Rightarrow> utext \<Rightarrow> version \<Rightarrow> ('addr, 'sec) message" where
  "connect_request security authority target v =
     (message_request security CONNECT target v)\<lparr> msg_headers := Some (append_all
        [(ascii ''host'', authority), (ascii '':protocol'', WS_PROTOCOL), (ascii ''sec-websocket-version'', WS_VERSION)]) \<rparr>"

definition connect_response :: "'sec \<Rightarrow> version \<Rightarrow> ('addr, 'sec) message" where
  "connect_response security v = (message_response security 200 v)\<lparr> msg_headers := Some headers_new \<rparr>"

definition connect_verify_request :: "('addr, 'sec) message \<Rightarrow> error + unit" where
  "connect_verify_request m =
     (case msg_headers m of
        None \<Rightarrow> Inl Protocol
      | Some h \<Rightarrow>
          if msg_method m \<noteq> Some CONNECT then Inl Protocol
          else if headers_get h (ascii '':protocol'') \<noteq> Some WS_PROTOCOL then Inl Protocol
          else Inr ())"

definition connect_verify_response :: "('addr, 'sec) message \<Rightarrow> error + unit" where
  "connect_verify_response m = (if status_within 200 299 m then Inr () else Inl Protocol)"

subsection \<open>Whichever it is\<close>

definition handshake_requested :: "('addr, 'sec) message \<Rightarrow> bool" where
  "handshake_requested m =
     (case msg_headers m of
        None \<Rightarrow> False
      | Some h \<Rightarrow>
          (case msg_version m of
             V1_1 \<Rightarrow> msg_method m = Some GET \<and> asks_upgrade h
           | V1_0 \<Rightarrow> False
           | _ \<Rightarrow> msg_method m = Some CONNECT \<and> headers_get h (ascii '':protocol'') = Some WS_PROTOCOL))"

definition handshake_verify :: "('addr, 'sec) message \<Rightarrow> error + unit" where
  "handshake_verify m =
     (case msg_version m of
        V1_1 \<Rightarrow> res_bind (upgrade_verify_request m) (\<lambda>_. Inr ())
      | V1_0 \<Rightarrow> Inl Protocol
      | _ \<Rightarrow> connect_verify_request m)"

subsection \<open>Fields and tokens\<close>

lemma append_all_ok:
  assumes "list_all (\<lambda>(name, v). is_utf8 name \<and> is_utf8 v) pairs"
  shows "headers_ok (append_all pairs)" "content (append_all pairs) = map (\<lambda>(name, v). (lowercase name, v)) pairs"
proof -
  have "headers_ok (fold (\<lambda>(name, v) h. headers_append h (text_from_str name) (text_from_str v)) pairs h) \<and>
      content (fold (\<lambda>(name, v) h. headers_append h (text_from_str name) (text_from_str v)) pairs h) =
        content h @ map (\<lambda>(name, v). (lowercase name, v)) pairs" if "headers_ok h" for h
    using assms that
    by (induction pairs arbitrary: h) (auto simp: text_from_str_of headers_append_ok)
  then show "headers_ok (append_all pairs)" "content (append_all pairs) = map (\<lambda>(name, v). (lowercase name, v)) pairs"
    using headers_new_ok by (simp_all add: append_all_def)
qed

lemma get_field:
  assumes "headers_ok h" "map snd (filter (\<lambda>(k, v). k = lowercase name) (content h)) = [v]"
  shows "headers_get_all h name = [v]" "headers_get h name = Some v"
  using headers_get_all_spec [OF assms(1), of name] headers_get_spec [OF assms(1), of name] assms(2) by simp_all

lemma b64_ascii: "is_ascii (b64_encode input)"
proof -
  have "list_all (\<lambda>n. ALPHABET ! n < 0x80) [0..<64]" by code_simp
  moreover have "unat (v AND 0x3f) < 64" for v :: octet
  proof -
    have "v AND 0x3f < 0x40" by (rule octet_all [where b = v]) code_simp
    then show ?thesis by (simp add: word_less_nat_alt)
  qed
  ultimately have symbol: "b64_symbol v < 0x80" for v by (simp add: b64_symbol_def list_all_iff)
  have "PAD < 0x80" by (simp add: PAD_def)
  then have "is_ascii (encode_rest rest)" "is_ascii (encode_group grp)" for rest grp
    using symbol by (simp_all add: encode_rest_def encode_group_def Let_def is_ascii_def)
  then show ?thesis by (auto simp: b64_encode_def is_ascii_def list_all_iff)
qed

lemma tokens:
  "list_ex (\<lambda>v. eq_ignore_case (trim v) WS_PROTOCOL) (split_at (of_char CHR '','') WS_PROTOCOL)"
  "list_ex (\<lambda>v. eq_ignore_case (trim v) (ascii ''upgrade'')) (split_at (of_char CHR '','') (ascii ''Upgrade''))"
  by code_simp+

lemma asks_upgrade_fields:
  "headers_get_all h (ascii ''upgrade'') = [WS_PROTOCOL] \<Longrightarrow> headers_get_all h (ascii ''connection'') = [ascii ''Upgrade''] \<Longrightarrow> asks_upgrade h"
  using tokens by (simp add: asks_upgrade_def token_present_def del: ascii_Cons)

lemma names_ascii:
  "list_all is_utf8 [ascii ''host'', ascii ''upgrade'', ascii ''connection'', ascii ''sec-websocket-key'', ascii ''sec-websocket-version'',
     ascii ''sec-websocket-accept'', ascii '':protocol'', ascii ''Upgrade'', WS_PROTOCOL, WS_VERSION]"
  by code_simp

lemma request_fields:
  assumes "is_utf8 host" "is_utf8 key"
    and "h = append_all [(ascii ''host'', host), (ascii ''upgrade'', WS_PROTOCOL), (ascii ''connection'', ascii ''Upgrade''),
         (ascii ''sec-websocket-key'', key), (ascii ''sec-websocket-version'', WS_VERSION)]"
  shows "asks_upgrade h" "headers_get h (ascii ''sec-websocket-version'') = Some WS_VERSION" "headers_get h (ascii ''sec-websocket-key'') = Some key"
proof -
  let ?fields = "[(ascii ''host'', host), (ascii ''upgrade'', WS_PROTOCOL), (ascii ''connection'', ascii ''Upgrade''),
         (ascii ''sec-websocket-key'', key), (ascii ''sec-websocket-version'', WS_VERSION)]"
  have "list_all (\<lambda>(name, v). is_utf8 name \<and> is_utf8 v) ?fields" using assms(1,2) names_ascii by (simp del: ascii_Cons)
  note ok = append_all_ok [OF this, folded assms(3)]
  have "map snd (filter (\<lambda>(k, v). k = lowercase (ascii ''upgrade'')) (map (\<lambda>(name, v). (lowercase name, v)) ?fields)) = [WS_PROTOCOL]"
    "map snd (filter (\<lambda>(k, v). k = lowercase (ascii ''connection'')) (map (\<lambda>(name, v). (lowercase name, v)) ?fields)) = [ascii ''Upgrade'']"
    "map snd (filter (\<lambda>(k, v). k = lowercase (ascii ''sec-websocket-version'')) (map (\<lambda>(name, v). (lowercase name, v)) ?fields)) = [WS_VERSION]"
    "map snd (filter (\<lambda>(k, v). k = lowercase (ascii ''sec-websocket-key'')) (map (\<lambda>(name, v). (lowercase name, v)) ?fields)) = [key]"
    by code_simp+
  note got = this [folded ok(2), THEN get_field(1) [OF ok(1)]] this [folded ok(2), THEN get_field(2) [OF ok(1)]]
  show "asks_upgrade h" by (rule asks_upgrade_fields) (rule got)+
  show "headers_get h (ascii ''sec-websocket-version'') = Some WS_VERSION" "headers_get h (ascii ''sec-websocket-key'') = Some key"
    by (rule got)+
qed

lemma response_fields:
  assumes "h = headers_append (append_all [(ascii ''upgrade'', WS_PROTOCOL), (ascii ''connection'', ascii ''Upgrade'')])
        (text_from_str (ascii ''sec-websocket-accept'')) (text_from_string (accept_key key))"
  shows "asks_upgrade h" "headers_get h (ascii ''sec-websocket-accept'') = Some (accept_key key)"
proof -
  let ?fields = "[(ascii ''upgrade'', WS_PROTOCOL), (ascii ''connection'', ascii ''Upgrade'')]"
  have "is_utf8 (accept_key key)" using b64_ascii is_ascii_utf8 by (simp add: accept_key_def)
  moreover have "list_all (\<lambda>(name, v). is_utf8 name \<and> is_utf8 v) ?fields" using names_ascii by (simp del: ascii_Cons)
  note first = append_all_ok [OF this]
  ultimately have ok: "headers_ok h" "content h = map (\<lambda>(name, v). (lowercase name, v)) ?fields @ [(lowercase (ascii ''sec-websocket-accept''), accept_key key)]"
    using headers_append_ok [OF first(1), of "text_of (ascii ''sec-websocket-accept'')" "text_of (accept_key key)"] first(2) names_ascii assms
    by (simp_all add: text_from_str_of del: ascii_Cons)
  obtain accept where accept: "accept = accept_key key" by simp
  let ?all = "map (\<lambda>(name, v). (lowercase name, v)) ?fields @ [(lowercase (ascii ''sec-websocket-accept''), accept)]"
  have "map snd (filter (\<lambda>(k, v). k = lowercase (ascii ''upgrade'')) ?all) = [WS_PROTOCOL]"
    "map snd (filter (\<lambda>(k, v). k = lowercase (ascii ''connection'')) ?all) = [ascii ''Upgrade'']"
    "map snd (filter (\<lambda>(k, v). k = lowercase (ascii ''sec-websocket-accept'')) ?all) = [accept]"
    by code_simp+
  note got = this [unfolded accept, folded ok(2), THEN get_field(1) [OF ok(1)]] this [unfolded accept, folded ok(2), THEN get_field(2) [OF ok(1)]]
  show "asks_upgrade h" by (rule asks_upgrade_fields) (rule got)+
  show "headers_get h (ascii ''sec-websocket-accept'') = Some (accept_key key)" by (rule got)
qed

lemma connect_fields:
  assumes "is_utf8 host"
  shows "headers_get (append_all [(ascii ''host'', host), (ascii '':protocol'', WS_PROTOCOL), (ascii ''sec-websocket-version'', WS_VERSION)]) (ascii '':protocol'') = Some WS_PROTOCOL"
proof -
  let ?fields = "[(ascii ''host'', host), (ascii '':protocol'', WS_PROTOCOL), (ascii ''sec-websocket-version'', WS_VERSION)]"
  have "list_all (\<lambda>(name, v). is_utf8 name \<and> is_utf8 v) ?fields" using assms names_ascii by (simp del: ascii_Cons)
  note ok = append_all_ok [OF this]
  have "map snd (filter (\<lambda>(k, v). k = lowercase (ascii '':protocol'')) (map (\<lambda>(name, v). (lowercase name, v)) ?fields)) = [WS_PROTOCOL]"
    by code_simp
  then show ?thesis by (rule get_field(2) [OF ok(1), unfolded ok(2)])
qed

subsection \<open>Properties\<close>

text \<open>C26: the two ends of a handshake agree. The server takes the request the client builds over each version
  that has one and learns its key; the client takes the answer made for its own key and refuses one
  made for a key with another answer; HTTP/1.0 is turned away.\<close>

theorem handshake_agrees:
  fixes security :: 'sec
  assumes "length nonce = 16" "is_utf8 host"
  defines "key \<equiv> b64_encode nonce"
  shows "upgrade_verify_request (upgrade_request security host target key V1_1 :: ('addr, 'sec) message) = Inr key \<and>
    upgrade_verify_response (upgrade_response security key' V1_1 :: ('addr, 'sec) message) key =
      (if accept_key key' = accept_key key then Inr () else Inl Protocol) \<and>
    connect_verify_response (connect_response security v :: ('addr, 'sec) message) = Inr () \<and>
    (handshake_verify (upgrade_request security host target key v :: ('addr, 'sec) message) = Inr () \<longleftrightarrow> v = V1_1) \<and>
    (handshake_verify (connect_request security host target v :: ('addr, 'sec) message) = Inr () \<longleftrightarrow> v = V2_0 \<or> v = V3_0) \<and>
    (handshake_requested (upgrade_request security host target key v :: ('addr, 'sec) message) \<longleftrightarrow> v = V1_1) \<and>
    (handshake_requested (connect_request security host target v :: ('addr, 'sec) message) \<longleftrightarrow> v = V2_0 \<or> v = V3_0)"
proof -
  have "is_utf8 key" using b64_ascii is_ascii_utf8 by (simp add: key_def)
  note request = request_fields [OF assms(2) this refl]
  note response = response_fields [OF refl, of key']
  have nonce: "b64_decode key = Inr nonce" by (simp add: key_def b64_decode_encode)
  show ?thesis
    using request response connect_fields [OF assms(2)] nonce assms(1)
    by (cases v) (simp_all add: upgrade_verify_request_def upgrade_request_def upgrade_verify_response_def upgrade_response_def
      connect_verify_response_def connect_response_def connect_verify_request_def connect_request_def
      handshake_verify_def handshake_requested_def message_request_def message_response_def message_new_def
      status_within_def word_le_nat_alt del: ascii_Cons)
qed

theorem handshake_agrees_witness:
  "handshake_verify (upgrade_request () (ascii ''h'') (text_of (ascii ''/'')) (b64_encode (replicate 16 7)) V1_1 :: (unit, unit) message) = Inr ()"
proof -
  have "is_utf8 (ascii ''h'')" "length (replicate 16 (7 :: octet)) = 16" by code_simp+
  from handshake_agrees [OF this(2,1), where 'addr = unit and security = "()" and target = "text_of (ascii ''/'')" and v = V1_1]
  show ?thesis by blast
qed

end
