(* ===== verification/Spec2Isabelle.thy ===== *)
theory Spec2Isabelle
  imports Scan Base64 Sha1 Huffman Text_Type Header_Fields Hpack_Sync Qpack_Run Qpack_Safety H2_Frames H3_Frames Header_Section Decimal Codings Urls Messages H1_Body Hsts Cookies Ws_Frames Ws_Messages Ws_Handshake
begin

text \<open>
  A model of soyokaze, a library of HTTP/1, HTTP/2 and HTTP/3 clients and servers written in Rust,
  and the theorems that make its core correct.

  The program is layered. At the bottom are helpers that know no protocol: word-at-a-time scans
  (\<open>src/src/helpers/scan.rs\<close>), base64, SHA-1, short strings (\<open>text.rs\<close>). On them rests the vocabulary
  of header fields (\<open>fields.rs\<close>) and the field codecs (\<open>huffman.rs\<close>, \<open>hpack.rs\<close>, \<open>qpack.rs\<close>), then the
  frames of each binary version (\<open>protocol/h2/frames.rs\<close>, \<open>protocol/h3/frames.rs\<close>), the types every
  version shares (\<open>models.rs\<close>), and above them the connections, servers and clients that move octets
  between sockets and these routines. The development models the layers that compute; sockets, TLS,
  tasks and foreign bindings are outside it.

  Theories and what they model, bottom up:

  \<^item> \<open>Prelude\<close>, \<open>Machine\<close>: machine integers as words, slices, results, checked and saturating arithmetic.
  \<^item> \<open>Scan\<close>: \<open>find\<close>, \<open>copy\<close>, \<open>same\<close>, \<open>classify_field_value\<close>, \<open>all_visible\<close> and \<open>all_in_class\<close> on
    64-bit lanes, each proved equal to its octet-by-octet meaning.
  \<^item> \<open>Base64\<close>: \<open>encode\<close> and the strict \<open>decode\<close>; decoding accepts exactly what encoding writes.
  \<^item> \<open>Sha1\<close>: the incremental hash with its rolling schedule, equal to the standard's definition however
    the input is cut.
  \<^item> \<open>Codec\<close>, \<open>Huffman_Table\<close>, \<open>Huffman_Canonical\<close>, \<open>Huffman_Spells\<close>, \<open>Huffman\<close>: the HPACK code, the tables
    \<open>Canonical::new\<close> builds from its lengths, the bit window, the encoder and the three loops of the
    decoder; decoding is exact and never reads or writes out of bounds. \<open>Codec\<close> holds the interface
    (a locale) of a code whose words extend one another and its interpretation on this one.
  \<^item> \<open>Text_Type\<close>: \<open>Text\<close> with its inline and shared representations and the standard library's UTF-8.
  \<^item> \<open>Header_Fields\<close>, \<open>Static_Marks\<close>: \<open>HeaderField\<close>, name and value classes, name marks and the
    static index, prefixed integers, string literals.
  \<^item> \<open>Eviction\<close>: the interface of a table bounded in size, and the lemmas every such table shares.
  \<^item> \<open>Hpack\<close>, \<open>Hpack_Sync\<close>: the static and the dynamic table, encoder and decoder; the two ends stay in
    step whatever is sent and whatever ceilings change between blocks.
  \<^item> \<open>Qpack_Table\<close>, \<open>Qpack\<close>: the static and the dynamic table of \<open>qpack.rs\<close> with absolute indices and
    eviction guarded by the blocks in flight, the instructions of both streams, field blocks and
    their prefix, encoder and decoder.
  \<^item> \<open>Qpack_Sync\<close>, \<open>Qpack_Stream\<close>, \<open>Qpack_Encode\<close>, \<open>Qpack_Run\<close>: the two ends as one system. Encoding,
    the delivery of either stream in pieces and the decoding of blocks are the steps of an inductive
    relation; its invariant gives that every block decodes to its fields and that both ends settle.
  \<^item> \<open>Qpack_Safety\<close>: the decoder against any input, the stability of an index, blocked streams.
  \<^item> \<open>Errors\<close>, \<open>H2_Frames\<close>: the error of every operation and its narrowing to a stream; every HTTP/2 frame
    on and off the wire, and the settings exchange.
  \<^item> \<open>Varint\<close>, \<open>H3_Frames\<close>: variable-length integers and stream identifiers of \<open>protocol/quic.rs\<close>; every
    HTTP/3 frame on and off the wire, the kinds of stream and the settings exchange.
  \<^item> \<open>Header_Section\<close>: \<open>Headers\<close> with its presence bits.
  \<^item> \<open>Decimal\<close>, \<open>Urls\<close>: numbers in text; versions, ALPN, URLs, methods, roles and the case of names.
  \<^item> \<open>Strings\<close>, \<open>Hsts\<close>: splitting and trimming of text; the \<open>Strict-Transport-Security\<close> field and the store of
    \<open>src/src/hsts.rs\<close>, with the runs of a store as an inductive relation.
  \<^item> \<open>Cookies\<close>: the two fields of \<open>src/src/cookies.rs\<close> and the jar a client keeps, with its runs; how much it
    holds, and to which hosts, paths and transports a cookie is sent.
  \<^item> \<open>Codings\<close>, \<open>Messages\<close>: the codings of a body, and messages, their compression and the limits.
  \<^item> \<open>H1_Body\<close>: how the length of an HTTP/1 body is determined and the chunked coding (\<open>protocol/h1.rs\<close>).
  \<^item> \<open>Ws_Frames\<close>, \<open>Ws_Messages\<close>, \<open>Ws_Handshake\<close>: WebSocket (\<open>websocket.rs\<close>). Frames and their mask; a connection
    as a state that each frame changes, with reassembly, control frames and closing; both handshakes.
    The transport is an argument: what each read brings and what sending a frame meets.

  State is a record per component, returned updated by each operation (the tables and the two ends of
  HPACK and QPACK, the hash, the bit window, the settings, the header section, the message); what the code
  keeps in a buffer the caller appends to is modelled by the octets appended. Errors are values, and a
  panic is \<open>None\<close>. Loops are recursive functions that are shown to terminate; no fuel is used, because
  each consumes input or a counter. Where a run of operations matters (blocks, ceilings and limits
  between an encoder and a decoder) the steps are an inductive relation and the invariant is proved by
  rule induction.

  Bounds: \<open>usize\<close> is 64 bits wide where the code counts with it in a way that could overflow
  (\<open>Machine\<close>), and a natural number where it only counts octets held in memory. The QPACK theorems
  assume what no run can pass: a capacity below \<open>2^60\<close>, fewer than \<open>2^63\<close> insertions, fields shorter than
  \<open>2^60\<close> octets, and a stream delivered in pieces no longer than the decoder's limit on what it takes at
  once. That every queued instruction is such a piece is proved: an encoder takes a table of at most
  4096 octets, and writes no insertion in more octets than the table has room for.
  A payload of an HTTP/3 frame is shorter than \<open>2^62\<close> octets, the most its length can say.

  Not modelled: the connections (\<open>protocol/h1.rs\<close>, \<open>h2.rs\<close>, \<open>h3.rs\<close>, \<open>base.rs\<close>, \<open>handler.rs\<close>),
  where sockets, locks and timers come between the steps, and with them the parsing of HTTP/1
  start lines and field lines and the session of HTTP/3, which are not translated, and the hand-over of a transport to a WebSocket; \<open>responses.rs\<close> and \<open>finalizer.rs\<close>; \<open>tls.rs\<close> and the rest of
  \<open>protocol/quic.rs\<close>, which call BoringSSL and a QUIC library; \<open>api/\<close>, which runs tasks and sockets;
  \<open>ffi/\<close>, the bindings to C, whose calls convert pointers and forward to the routines modelled here;
  \<open>helpers/sync.rs\<close>, which wraps locks; texts of errors, which no code reads; quality values, which are
  floating-point numbers; and the decode automaton \<open>huffman.rs\<close> exposes for inspection only. The
  compressors (\<open>zstd\<close>, \<open>brotli\<close>, \<open>flate2\<close>), the filesystem and the details a handshake settles are parameters.
\<close>

end
